(* ===== verification/Prelude.thy ===== *)
theory Prelude
  imports Main
begin

text \<open>
  The facts and types shared by every component: byte buffers and the C strings stored in
  them, decimal conversion as \<^verbatim>\<open>printf("%d")\<close> does it, the part of the C library
  that both shells call (\<^verbatim>\<open>strtok_r\<close>, \<^verbatim>\<open>memchr\<close>,
  \<^verbatim>\<open>strncmp\<close>), and the list lemmas the component proofs use. A buffer is a
  \<^typ>\<open>char list\<close> whose length is the size of the array; a string stored at offset \<open>i\<close>
  of a buffer runs up to the first zero byte.
\<close>

named_theorems buf_simps
named_theorems tok_simps

type_synonym bytes = "char list"
type_synonym addr = nat
type_synonym pid = int

section \<open>Strings in byte buffers\<close>

abbreviation NUL :: char where
  "NUL \<equiv> CHR 0x00"

definition cstr :: "bytes \<Rightarrow> nat \<Rightarrow> string" where
  "cstr b i = takeWhile (\<lambda>c. c \<noteq> NUL) (drop i b)"

text \<open>\<^verbatim>\<open>strcpy\<close> of a zero-free string to the start of a buffer.\<close>

definition strcpy_to :: "bytes \<Rightarrow> string \<Rightarrow> bytes" where
  "strcpy_to b s = s @ NUL # drop (Suc (length s)) b"

lemma length_strcpy_to [simp]:
  "length s < length b \<Longrightarrow> length (strcpy_to b s) = length b"
  by (simp add: strcpy_to_def)

lemma takeWhile_NUL_append [simp]:
  "NUL \<notin> set s \<Longrightarrow> takeWhile (\<lambda>c. c \<noteq> NUL) (s @ NUL # t) = s"
  by (induction s) auto

lemma cstr_strcpy_to [simp]: "NUL \<notin> set s \<Longrightarrow> cstr (strcpy_to b s) 0 = s"
  by (simp add: cstr_def strcpy_to_def)

lemma cstr_no_NUL [simp]: "NUL \<notin> set (cstr b i)"
  by (auto simp: cstr_def dest: set_takeWhileD)

lemma cstr_length_le: "length (cstr b i) \<le> length b - i"
  by (metis cstr_def length_drop length_takeWhile_le)

lemma cstr_past_end [simp]: "length b \<le> i \<Longrightarrow> cstr b i = []"
  by (simp add: cstr_def)

lemma cstr_upd_before [buf_simps]: "e < i \<Longrightarrow> cstr (b[e := c]) i = cstr b i"
  by (simp add: cstr_def)

lemma takeWhile_upd_beyond:
  assumes "length (takeWhile P xs) < k"
  shows "takeWhile P (xs[k := c]) = takeWhile P xs"
  using assms
proof (induction xs arbitrary: k)
  case (Cons x xs)
  then show ?case by (cases k) (auto split: if_splits)
qed simp

lemma takeWhile_upd_inside:
  assumes "k < length (takeWhile P xs)" and "\<not> P c"
  shows "takeWhile P (xs[k := c]) = take k (takeWhile P xs)"
  using assms
proof (induction xs arbitrary: k)
  case (Cons x xs)
  then show ?case by (cases k) (auto split: if_splits)
qed simp

lemma drop_upd_ge: "i \<le> e \<Longrightarrow> drop i (b[e := c]) = (drop i b)[e - i := c]"
  by (simp add: drop_update_swap)

lemma cstr_upd_after [buf_simps]:
  "i + length (cstr b i) < e \<Longrightarrow> cstr (b[e := c]) i = cstr b i"
  unfolding cstr_def by (subst drop_upd_ge) (auto intro: takeWhile_upd_beyond)

lemma cstr_upd_inside [buf_simps]:
  "i \<le> e \<Longrightarrow> e < i + length (cstr b i) \<Longrightarrow> cstr (b[e := NUL]) i = take (e - i) (cstr b i)"
  unfolding cstr_def by (subst drop_upd_ge) (auto intro: takeWhile_upd_inside)

lemma takeWhile_drop:
  "j \<le> length (takeWhile P xs) \<Longrightarrow> takeWhile P (drop j xs) = drop j (takeWhile P xs)"
proof (induction xs arbitrary: j)
  case (Cons x xs)
  then show ?case by (cases j) (auto split: if_splits)
qed simp

lemma cstr_advance [buf_simps]:
  "j \<le> length (cstr b i) \<Longrightarrow> cstr b (i + j) = drop j (cstr b i)"
proof -
  assume "j \<le> length (cstr b i)"
  moreover have "drop (i + j) b = drop j (drop i b)"
    by (simp add: add.commute)
  ultimately show ?thesis
    unfolding cstr_def by (simp only: takeWhile_drop)
qed

section \<open>Decimal conversion\<close>

definition digit_char :: "nat \<Rightarrow> char" where
  "digit_char d = char_of (48 + d)"

fun show_nat :: "nat \<Rightarrow> string" where
  "show_nat n = (if n < 10 then [digit_char n]
                 else show_nat (n div 10) @ [digit_char (n mod 10)])"

declare show_nat.simps [simp del]

definition show_int :: "int \<Rightarrow> string" where
  "show_int i = (if i < 0 then CHR ''-'' # show_nat (nat (- i)) else show_nat (nat i))"

lemma show_nat_nonempty [simp]: "show_nat n \<noteq> []"
  by (subst show_nat.simps) simp

section \<open>List facts\<close>

lemma set_upd_subset: "set (xs[i := x]) \<subseteq> insert x (set xs)"
  by (rule set_update_subset_insert)

lemma takeWhile_length_less_iff:
  "length (takeWhile P xs) < length xs \<longleftrightarrow> (\<exists>x \<in> set xs. \<not> P x)"
  by (induction xs) auto

section \<open>The tokenizer of the C library\<close>

text \<open>
  \<^verbatim>\<open>strtok_r\<close> on a buffer \<open>b\<close> from offset \<open>s\<close>: it skips the delimiters, returns the
  offset of the token (or nothing at the end of the string), writes a zero over the delimiter
  that ends the token and gives the position for the next call.
\<close>

definition c_strtok_r :: "bytes \<Rightarrow> nat \<Rightarrow> string \<Rightarrow> nat option \<times> bytes \<times> nat" where
  "c_strtok_r b s d =
     (let rest = cstr b s; k = length (takeWhile (\<lambda>c. c \<in> set d) rest) in
      if k = length rest then (None, b, s + k)
      else let n = length (takeWhile (\<lambda>c. c \<notin> set d) (drop k rest)); e = s + k + n in
           if k + n < length rest then (Some (s + k), b[e := NUL], e + 1)
           else (Some (s + k), b, e))"

text \<open>The words of a string: what repeated calls are to return.\<close>

function words_of :: "string \<Rightarrow> string \<Rightarrow> string list" where
  "words_of d s =
     (let r = dropWhile (\<lambda>c. c \<in> set d) s in
      if r = [] then []
      else takeWhile (\<lambda>c. c \<notin> set d) r # words_of d (dropWhile (\<lambda>c. c \<notin> set d) r))"
  by pat_completeness auto
termination
proof (relation "measure (\<lambda>(d, s). length s)", goal_cases)
  case (2 d s r)
  then obtain x xs where r: "r = x # xs" "x \<notin> set d"
    by (metis dropWhile_eq_Nil_conv hd_dropWhile list.exhaust_sel)
  then have "length (dropWhile (\<lambda>c. c \<notin> set d) r) < length r"
    by (simp add: length_dropWhile_le le_imp_less_Suc)
  moreover have "length r \<le> length s"
    using 2 by (simp add: length_dropWhile_le)
  ultimately show ?case by simp
qed simp

declare words_of.simps [simp del]

lemma words_of_Nil [simp]: "words_of d [] = []"
  by (simp add: words_of.simps)

lemma words_of_delim: "c \<in> set d \<Longrightarrow> words_of d (c # s) = words_of d s"
  by (subst (1 2) words_of.simps) simp

lemma words_of_nonempty: "w \<in> set (words_of d s) \<Longrightarrow> w \<noteq> []"
proof (induction d s rule: words_of.induct)
  case (1 d s)
  define r where "r = dropWhile (\<lambda>c. c \<in> set d) s"
  have eq: "words_of d s = (if r = [] then [] else takeWhile (\<lambda>c. c \<notin> set d) r
      # words_of d (dropWhile (\<lambda>c. c \<notin> set d) r))"
    by (subst words_of.simps) (simp add: r_def Let_def)
  show ?case
  proof (cases "r = []")
    case False
    then have "hd r \<notin> set d"
      unfolding r_def using hd_dropWhile by blast
    with False have "takeWhile (\<lambda>c. c \<notin> set d) r \<noteq> []"
      by (cases r) auto
    moreover have "w = takeWhile (\<lambda>c. c \<notin> set d) r \<or> w \<in> set (words_of d (dropWhile (\<lambda>c. c \<notin> set d) r))"
      using False eq "1.prems" by simp
    ultimately show ?thesis
      using "1.IH" [OF r_def] False by metis
  next
    case True
    with 1 eq show ?thesis by simp
  qed
qed

lemma c_strtok_r_None:
  assumes "c_strtok_r b s d = (None, b', s')"
  shows "words_of d (cstr b s) = [] \<and> b' = b"
proof -
  from assms have "length (takeWhile (\<lambda>c. c \<in> set d) (cstr b s)) = length (cstr b s)" and "b' = b"
    by (auto simp: c_strtok_r_def Let_def split: if_splits)
  then have "dropWhile (\<lambda>c. c \<in> set d) (cstr b s) = []"
    by (metis append_eq_conv_conj append_Nil2 takeWhile_dropWhile_id takeWhile_eq_take)
  then show ?thesis
    using \<open>b' = b\<close> by (subst words_of.simps) simp
qed

text \<open>What one successful call leaves behind: the token is the first word, the rest of the words
  start at the returned position, and strings that end before the old position are untouched.\<close>

lemma c_strtok_r_Some:
  assumes "c_strtok_r b s d = (Some t, b', s')"
  shows "words_of d (cstr b s) = cstr b' t # words_of d (cstr b' s')"
    and "length (cstr b' s') < length (cstr b s)"
    and "s \<le> t"
    and "t + length (cstr b' t) < s' \<or> cstr b' s' = []"
    and "\<And>q. q + length (cstr b q) < s \<Longrightarrow> cstr b' q = cstr b q"
    and "s \<le> s'" and "length b' = length b"
proof -
  define rest where "rest = cstr b s"
  define k where "k = length (takeWhile (\<lambda>c. c \<in> set d) rest)"
  define r where "r = dropWhile (\<lambda>c. c \<in> set d) rest"
  define w where "w = takeWhile (\<lambda>c. c \<notin> set d) r"
  have r: "r = drop k rest"
    by (simp add: r_def k_def dropWhile_eq_drop)
  have k: "k \<noteq> length rest" and t: "t = s + k"
    and upd: "if k + length w < length rest then b' = b[t + length w := NUL] \<and> s' = t + length w + 1
              else b' = b \<and> s' = t + length w"
    using assms
    by (auto simp: c_strtok_r_def Let_def rest_def k_def r_def w_def r dropWhile_eq_drop split: if_splits)
  have kl: "k < length rest"
    using k length_takeWhile_le [of "\<lambda>c. c \<in> set d" rest] by (simp add: k_def)
  have at: "cstr b t = r"
    using kl by (simp add: t r rest_def cstr_advance)
  have "r \<noteq> []" using kl by (simp add: r)
  then have "hd r \<notin> set d"
    unfolding r_def using hd_dropWhile by blast
  with \<open>r \<noteq> []\<close> have w: "w \<noteq> []"
    by (cases r) (auto simp: w_def)
  have split: "r = w @ dropWhile (\<lambda>c. c \<notin> set d) r"
    by (simp add: w_def)
  have words: "words_of d rest = w # words_of d (dropWhile (\<lambda>c. c \<notin> set d) r)"
    using \<open>r \<noteq> []\<close> by (subst words_of.simps) (simp add: r_def w_def Let_def)
  have lr: "length r = length rest - k" by (simp add: r)
  show "s \<le> t" by (simp add: t)
  have wl: "length w \<le> length r" by (simp add: w_def length_takeWhile_le)
  note facts = kl at w split words lr wl upd
  have main: "cstr b' t = w \<and> words_of d (cstr b' s') = words_of d (dropWhile (\<lambda>c. c \<notin> set d) r)
      \<and> length (cstr b' s') < length rest \<and> (t + length w < s' \<or> cstr b' s' = [])
      \<and> (\<forall>q. q + length (cstr b q) < s \<longrightarrow> cstr b' q = cstr b q) \<and> s \<le> s' \<and> length b' = length b"
  proof (cases "k + length w < length rest")
    case True
    then have b': "b' = b[t + length w := NUL]" and s': "s' = t + length w + 1"
      using upd by auto
    have lw: "length w < length r" using True lr by simp
    then obtain x xs where x: "dropWhile (\<lambda>c. c \<notin> set d) r = x # xs"
      using split by (metis append_Nil2 list.exhaust nat_neq_iff)
    then have "x \<in> set d"
      by (metis hd_dropWhile list.distinct(1) list.sel(1))
    have "cstr b (t + (length w + 1)) = drop (length w + 1) r"
      using lw by (subst cstr_advance) (auto simp: at)
    also have "\<dots> = xs"
      using split x by (metis add.commute append_eq_conv_conj drop_drop list.sel(3) plus_1_eq_Suc drop_Suc tl_drop)
    finally have rest': "cstr b' s' = xs"
      by (simp add: b' s' cstr_upd_before)
    have "cstr b' t = take (length w) r"
      using lw by (simp add: b' cstr_upd_inside at)
    then have "cstr b' t = w"
      using split by (metis append_eq_conv_conj)
    moreover have "length xs < length rest"
      using split x lr kl by (metis add_diff_cancel_left' length_append length_Cons less_diff_conv
          not_add_less2 not_less_eq trans_less_add2 wl le_add_diff_inverse2 less_imp_le_nat linorder_not_less)
    moreover have "cstr b' q = cstr b q" if "q + length (cstr b q) < s" for q
      using that by (simp add: b' t cstr_upd_after)
    moreover have "t + length w < s'" and "s \<le> s'" and "length b' = length b"
      by (simp_all add: s' t b')
    ultimately show ?thesis
      using \<open>x \<in> set d\<close> by (simp add: x rest' words_of_delim)
  next
    case False
    then have b': "b' = b" and s': "s' = t + length w"
      using upd by auto
    from False lr wl kl have "length w = length r" by simp
    then have d: "dropWhile (\<lambda>c. c \<notin> set d) r = []" and "w = r"
      using split by (metis append_eq_append_conv append_Nil2)+
    have "cstr b' s' = []"
      using at \<open>w = r\<close> by (simp add: b' s' cstr_advance)
    moreover have "words_of d (dropWhile (\<lambda>c. c \<notin> set d) r) = []"
      by (simp only: d words_of_Nil)
    ultimately show ?thesis
      using kl at \<open>w = r\<close> by (auto simp: b' s' t)
  qed
  then show "words_of d (cstr b s) = cstr b' t # words_of d (cstr b' s')"
    and "length (cstr b' s') < length (cstr b s)"
    and "t + length (cstr b' t) < s' \<or> cstr b' s' = []"
    and "\<And>q. q + length (cstr b q) < s \<Longrightarrow> cstr b' q = cstr b q"
    and "s \<le> s'" and "length b' = length b"
    using words by (auto simp: rest_def)
qed

text \<open>Two words are separated by a blank, so a string of \<open>n\<close> bytes has at most \<open>(n + 1) div 2\<close>.\<close>

lemma words_of_count_aux:
  "2 * length (words_of d s) \<le> length s + 1
   \<and> (s = [] \<or> hd s \<in> set d \<longrightarrow> 2 * length (words_of d s) \<le> length s)"
proof (induction d s rule: words_of.induct)
  case (1 d s)
  define r where "r = dropWhile (\<lambda>c. c \<in> set d) s"
  define r2 where "r2 = dropWhile (\<lambda>c. c \<notin> set d) r"
  have eq: "words_of d s = (if r = [] then [] else takeWhile (\<lambda>c. c \<notin> set d) r # words_of d r2)"
    by (subst words_of.simps) (simp add: r_def r2_def Let_def)
  show ?case
  proof (cases "r = []")
    case False
    then have hd: "hd r \<notin> set d"
      unfolding r_def using hd_dropWhile by blast
    with False have "length r2 < length r"
      unfolding r2_def by (cases r) (auto simp: length_dropWhile_le le_imp_less_Suc)
    moreover have "r2 = [] \<or> hd r2 \<in> set d"
      unfolding r2_def using hd_dropWhile by blast
    then have "2 * length (words_of d r2) \<le> length r2"
      using "1.IH" [OF r_def False] by (auto simp: r2_def)
    moreover have "length r \<le> length s"
      by (simp add: r_def length_dropWhile_le)
    moreover have "length r < length s" if "hd s \<in> set d" "s \<noteq> []"
      using that unfolding r_def by (cases s) (auto simp: length_dropWhile_le le_imp_less_Suc)
    ultimately show ?thesis
      using False eq by (cases "s = []") (auto simp: r_def)
  qed (use eq in simp)
qed

lemma words_of_count: "2 * length (words_of d s) \<le> length s + 1"
  using words_of_count_aux by blast

text \<open>Joining words by one separator and splitting again.\<close>

fun join_with :: "char \<Rightarrow> string list \<Rightarrow> string" where
  "join_with c [] = []"
| "join_with c [w] = w"
| "join_with c (w # v # ws) = w @ c # join_with c (v # ws)"

lemma words_of_word:
  assumes "w \<noteq> []" and "set w \<inter> set d = {}" and "t = [] \<or> hd t \<in> set d"
  shows "words_of d (w @ t) = w # words_of d t"
proof -
  have "dropWhile (\<lambda>c. c \<in> set d) (w @ t) = w @ t"
    using assms(1,2) by (cases w) auto
  moreover have "takeWhile (\<lambda>c. c \<notin> set d) (w @ t) = w"
    using assms(2,3) by (cases t) (auto simp: takeWhile_append)
  moreover have "dropWhile (\<lambda>c. c \<notin> set d) (w @ t) = t"
    using assms(2,3) by (cases t) (auto simp: dropWhile_append)
  ultimately show ?thesis
    using assms(1) by (subst words_of.simps) (simp add: Let_def)
qed

lemma words_of_join:
  assumes "c \<in> set d" and "\<forall>w \<in> set ws. w \<noteq> [] \<and> set w \<inter> set d = {}"
  shows "words_of d (join_with c ws) = ws"
  using assms
proof (induction c ws rule: join_with.induct)
  case (2 c w)
  then show ?case using words_of_word [of w d "[]"] by simp
next
  case (3 c w v ws)
  then show ?case
    using words_of_word [of w d "c # join_with c (v # ws)"] by (simp add: words_of_delim)
qed simp

end
