(* ===== verification/Yash_Parse.thy ===== *)
theory Yash_Parse
  imports Prelude
begin

text \<open>
  The data model of \<^verbatim>\<open>yash.h\<close> and the line parser of \<^verbatim>\<open>parse.c\<close>
  (Project 1, taken over unchanged by the daemon of Project 2). Commands and jobs are records
  with the fields of \<^verbatim>\<open>cmd_t\<close> and \<^verbatim>\<open>job_t\<close>; a \<^verbatim>\<open>char *\<close> into a job's
  \<^verbatim>\<open>buf\<close> is a pair of the job's address and an offset, so that pointers that still
  refer to another job's buffer can be told apart. The link \<^verbatim>\<open>next\<close> is not a field:
  the job table (theory Yash_Jobs) is the list of the jobs in link order. The parser is proved
  to accept exactly the lines of the shell's grammar and to build the job they denote.
\<close>

section \<open>Data model\<close>

definition YASH_MAX_LINE :: nat where "YASH_MAX_LINE = 200"
definition YASH_MAX_TOKENS :: nat where "YASH_MAX_TOKENS = 128"
definition YASH_MAX_ARGS :: nat where "YASH_MAX_ARGS = 64"
definition YASH_MAX_CMDS :: nat where "YASH_MAX_CMDS = 2"
definition YASH_MAX_JOBS :: nat where "YASH_MAX_JOBS = 20"

lemmas yash_limits = YASH_MAX_LINE_def YASH_MAX_TOKENS_def YASH_MAX_ARGS_def YASH_MAX_CMDS_def
  YASH_MAX_JOBS_def

type_synonym ptr = "addr \<times> nat"

record cmd =
  argv :: "ptr option list"
  argc :: nat
  infile :: "ptr option"
  outfile :: "ptr option"
  errfile :: "ptr option"
  cmd_pid :: pid

datatype job_state = JOB_RUNNING | JOB_STOPPED | JOB_DONE

record job =
  jid :: int
  pgid :: pid
  state :: job_state
  background :: bool
  ncmds :: nat
  nlive :: int
  cmds :: "cmd list"
  cmdline :: bytes
  buf :: bytes

text \<open>What \<^verbatim>\<open>memset(job, 0, sizeof *job)\<close> leaves; \<open>e\<close> holds the fields an extension adds.\<close>

definition zero_cmd :: cmd where
  "zero_cmd = \<lparr>argv = replicate (YASH_MAX_ARGS + 1) None, argc = 0, infile = None,
     outfile = None, errfile = None, cmd_pid = 0\<rparr>"

definition zero_job :: "'e \<Rightarrow> 'e job_scheme" where
  "zero_job e = \<lparr>jid = 0, pgid = 0, state = JOB_RUNNING, background = False, ncmds = 0, nlive = 0,
     cmds = replicate YASH_MAX_CMDS zero_cmd,
     cmdline = replicate (YASH_MAX_LINE + 1) NUL, buf = replicate (YASH_MAX_LINE + 1) NUL,
     \<dots> = e\<rparr>"

section \<open>The parser\<close>

datatype parse_status = PARSE_OK | PARSE_EMPTY | PARSE_ERROR

definition blanks :: string where
  "blanks = [CHR '' '', CHR 0x09]"

text \<open>
  The loop of \<^verbatim>\<open>tokenize\<close>: the first argument after the buffer is the result of the last
  \<^verbatim>\<open>strtok_r\<close>, the next one its saved position.
\<close>

function (sequential) tok_loop ::
  "bytes \<Rightarrow> nat option \<Rightarrow> nat \<Rightarrow> nat \<Rightarrow> nat list \<Rightarrow> int \<times> nat list \<times> bytes" where
  "tok_loop b None save mx toks = (int (length toks), toks, b)"
| "tok_loop b (Some tok) save mx toks =
     (if length toks = mx then (-1, toks, b)
      else case c_strtok_r b save blanks of
             (tok', b', save') \<Rightarrow> tok_loop b' tok' save' mx (toks @ [tok]))"
  by pat_completeness auto
termination
  by (relation "measure (\<lambda>(b, tok, save, mx, toks).
      case tok of None \<Rightarrow> 0 | Some _ \<Rightarrow> Suc (length (cstr b save)))")
    (auto dest: c_strtok_r_Some(2) [OF sym] split: option.split)

definition tokenize :: "bytes \<Rightarrow> nat \<Rightarrow> int \<times> nat list \<times> bytes" where
  "tokenize b mx =
     (case c_strtok_r b 0 blanks of (tok, b', save) \<Rightarrow> tok_loop b' tok save mx [])"

definition is_operator :: "string \<Rightarrow> bool" where
  "is_operator tok \<longleftrightarrow> tok = ''<'' \<or> tok = ''>'' \<or> tok = ''2>'' \<or> tok = ''|'' \<or> tok = ''&''"

text \<open>\<^verbatim>\<open>redirect_slot\<close> returns the address of a field of the command: which of the three.\<close>

datatype slot = Infile | Outfile | Errfile

definition redirect_slot :: "string \<Rightarrow> slot option" where
  "redirect_slot tok =
     (if tok = ''<'' then Some Infile
      else if tok = ''>'' then Some Outfile
      else if tok = ''2>'' then Some Errfile
      else None)"

fun get_slot :: "slot \<Rightarrow> cmd \<Rightarrow> ptr option" where
  "get_slot Infile c = infile c"
| "get_slot Outfile c = outfile c"
| "get_slot Errfile c = errfile c"

fun set_slot :: "slot \<Rightarrow> ptr option \<Rightarrow> cmd \<Rightarrow> cmd" where
  "set_slot Infile p c = c\<lparr>infile := p\<rparr>"
| "set_slot Outfile p c = c\<lparr>outfile := p\<rparr>"
| "set_slot Errfile p c = c\<lparr>errfile := p\<rparr>"

definition upd_cmd :: "nat \<Rightarrow> (cmd \<Rightarrow> cmd) \<Rightarrow> 'e job_scheme \<Rightarrow> 'e job_scheme" where
  "upd_cmd i f j = j\<lparr>cmds := (cmds j)[i := f (cmds j ! i)]\<rparr>"

definition push_arg :: "ptr \<Rightarrow> cmd \<Rightarrow> cmd" where
  "push_arg p c = c\<lparr>argv := (argv c)[argc c := Some p], argc := argc c + 1\<rparr>"

text \<open>
  The token loop of \<^verbatim>\<open>parse_line\<close> over the tokens still to come, with the index of the
  command being filled and the flag \<^verbatim>\<open>redirect_seen\<close>. \<open>Inl\<close> is a return of
  \<^verbatim>\<open>PARSE_ERROR\<close> with the job as it stands; \<open>Inr\<close> is the normal end of the loop.
\<close>

fun parse_loop ::
  "addr \<Rightarrow> nat list \<Rightarrow> nat \<Rightarrow> bool \<Rightarrow> 'e job_scheme \<Rightarrow> 'e job_scheme + nat \<times> 'e job_scheme" where
  "parse_loop ja [] ci redirect_seen j = Inr (ci, j)"
| "parse_loop ja (t # ts) ci redirect_seen j =
     (let cur = cmds j ! ci; tok = cstr (buf j) t in
      case redirect_slot tok of
        Some sl \<Rightarrow>
          if argc cur = 0 then Inl j
          else if get_slot sl cur \<noteq> None then Inl j
          else (case ts of
                  [] \<Rightarrow> Inl j
                | f # ts' \<Rightarrow>
                    if is_operator (cstr (buf j) f) then Inl j
                    else parse_loop ja ts' ci True (upd_cmd ci (set_slot sl (Some (ja, f))) j))
      | None \<Rightarrow>
          if tok = ''|'' then
            if ci + 1 \<ge> YASH_MAX_CMDS then Inl j
            else if argc cur = 0 then Inl j
            else parse_loop ja ts (ci + 1) False j
          else if tok = ''&'' then
            if ts \<noteq> [] then Inl j
            else if ci \<noteq> 0 then Inl j
            else parse_loop ja ts ci redirect_seen (j\<lparr>background := True\<rparr>)
          else if redirect_seen then Inl j
          else if argc cur = YASH_MAX_ARGS then Inl j
          else parse_loop ja ts ci redirect_seen (upd_cmd ci (push_arg (ja, t)) j))"

text \<open>The loop that finds the length of the command line without its trailing \<^verbatim>\<open>&\<close>.\<close>

fun trim_end :: "bytes \<Rightarrow> nat \<Rightarrow> nat" where
  "trim_end b 0 = 0"
| "trim_end b (Suc n) =
     (if b ! n = CHR ''&'' \<or> b ! n = CHR '' '' \<or> b ! n = CHR 0x09 then trim_end b n else Suc n)"

definition trim_cmdline :: "'e job_scheme \<Rightarrow> 'e job_scheme" where
  "trim_cmdline j =
     j\<lparr>cmdline := (cmdline j)[trim_end (cmdline j) (length (cstr (cmdline j) 0)) := NUL]\<rparr>"

definition terminate_argv :: "cmd \<Rightarrow> cmd" where
  "terminate_argv c = c\<lparr>argv := (argv c)[argc c := None]\<rparr>"

definition finish_job :: "nat \<Rightarrow> 'e job_scheme \<Rightarrow> 'e job_scheme" where
  "finish_job ci j =
     (let j1 = (if background j then trim_cmdline j else j);
          j2 = j1\<lparr>ncmds := ci + 1\<rparr>
      in j2\<lparr>cmds := map terminate_argv (take (ncmds j2) (cmds j2)) @ drop (ncmds j2) (cmds j2)\<rparr>)"

text \<open>
  The body of \<^verbatim>\<open>parse_line\<close> over the zeroed job \<open>z\<close>; \<open>ja\<close> is the address of the job that
  is filled and \<open>j0\<close> what it held before the call.
\<close>

definition parse_into ::
  "'e job_scheme \<Rightarrow> addr \<Rightarrow> string option \<Rightarrow> 'e job_scheme \<Rightarrow> parse_status \<times> 'e job_scheme" where
  "parse_into z ja line j0 =
     (case line of
        None \<Rightarrow> (PARSE_ERROR, j0)
      | Some s \<Rightarrow>
          if length s > YASH_MAX_LINE then (PARSE_ERROR, j0)
          else
            let j = z\<lparr>cmdline := strcpy_to (cmdline z) s, buf := strcpy_to (buf z) s,
                     state := JOB_RUNNING\<rparr>
            in case tokenize (buf j) YASH_MAX_TOKENS of
                 (ntok, toks, b) \<Rightarrow>
                   if ntok < 0 then (PARSE_ERROR, j\<lparr>buf := b\<rparr>)
                   else if ntok = 0 then (PARSE_EMPTY, j\<lparr>buf := b\<rparr>)
                   else case parse_loop ja toks 0 False (j\<lparr>buf := b\<rparr>) of
                          Inl j' \<Rightarrow> (PARSE_ERROR, j')
                        | Inr (ci, j') \<Rightarrow>
                            if argc (cmds j' ! ci) = 0 then (PARSE_ERROR, j')
                            else (PARSE_OK, finish_job ci j'))"

definition parse_line :: "addr \<Rightarrow> string option \<Rightarrow> job \<Rightarrow> parse_status \<times> job" where
  "parse_line ja line j0 = parse_into (zero_job ()) ja line j0"

section \<open>The tokenizer returns the words of the line\<close>

lemma tok_loop_words:
  assumes "tok_loop b (Some t) save mx toks = (n, ts, b')"
    and "\<forall>q \<in> set (toks @ [t]). q + length (cstr b q) < save \<or> cstr b save = []"
    and "length toks + 1 + length (words_of blanks (cstr b save)) \<le> mx"
  shows "n = int (length ts) \<and> length b' = length b
    \<and> map (cstr b') ts = map (cstr b) (toks @ [t]) @ words_of blanks (cstr b save)"
  using assms
proof (induction "length (cstr b save)" arbitrary: b t save toks rule: less_induct)
  case less
  obtain tok' b1 save' where st: "c_strtok_r b save blanks = (tok', b1, save')"
    by (metis prod_cases3)
  from less.prems(1,3) st have run: "tok_loop b1 tok' save' mx (toks @ [t]) = (n, ts, b')" by simp
  show ?case
  proof (cases tok')
    case None
    with st have "words_of blanks (cstr b save) = []" and "b1 = b"
      using c_strtok_r_None by auto
    with run None show ?thesis by auto
  next
    case (Some u)
    note S = c_strtok_r_Some [OF st [unfolded Some]]
    have before: "q + length (cstr b q) < save" if "q \<in> set (toks @ [t])" for q
      using less.prems(2) S(2) that by fastforce
    have keep: "map (cstr b1) (toks @ [t]) = map (cstr b) (toks @ [t])"
      using S(5) before by (auto intro!: map_cong)
    have "\<forall>q \<in> set ((toks @ [t]) @ [u]). q + length (cstr b1 q) < save' \<or> cstr b1 save' = []"
      using S(4,6) before S(5) [OF before] by fastforce
    moreover have "length (toks @ [t]) + 1 + length (words_of blanks (cstr b1 save')) \<le> mx"
      using less.prems(3) S(1) by simp
    ultimately have "n = int (length ts) \<and> length b' = length b1
      \<and> map (cstr b') ts = map (cstr b1) ((toks @ [t]) @ [u]) @ words_of blanks (cstr b1 save')"
      using less.hyps [OF S(2)] run Some by blast
    with keep S(1,7) show ?thesis by simp
  qed
qed

lemma tokenize_words:
  assumes "tokenize b mx = (n, ts, b')" and "length (words_of blanks (cstr b 0)) \<le> mx"
  shows "n = int (length ts) \<and> map (cstr b') ts = words_of blanks (cstr b 0) \<and> length b' = length b"
proof -
  obtain tok b1 save where st: "c_strtok_r b 0 blanks = (tok, b1, save)"
    by (metis prod_cases3)
  show ?thesis
  proof (cases tok)
    case None
    with st assms c_strtok_r_None [of b 0 blanks b1 save] show ?thesis
      by (auto simp: tokenize_def)
  next
    case (Some t)
    note S = c_strtok_r_Some [OF st [unfolded Some]]
    have "tok_loop b1 (Some t) save mx [] = (n, ts, b')"
      using assms st Some by (simp add: tokenize_def)
    from tok_loop_words [OF this] S assms(2) show ?thesis by auto
  qed
qed

section \<open>The grammar of a line\<close>

text \<open>
  A line is one command, optionally in the background, or two commands joined by a pipe; a command
  is a nonempty list of words followed by its redirections.
\<close>

datatype pcmd = PCmd (args: "string list") (redirs: "(slot \<times> string) list")
datatype pline = Single pcmd bool | Pipe pcmd pcmd

fun slot_tok :: "slot \<Rightarrow> string" where
  "slot_tok Infile = ''<''"
| "slot_tok Outfile = ''>''"
| "slot_tok Errfile = ''2>''"

definition redir_tokens :: "(slot \<times> string) list \<Rightarrow> string list" where
  "redir_tokens rs = concat (map (\<lambda>(sl, f). [slot_tok sl, f]) rs)"

fun cmd_tokens :: "pcmd \<Rightarrow> string list" where
  "cmd_tokens (PCmd as rs) = as @ redir_tokens rs"

fun line_tokens :: "pline \<Rightarrow> string list" where
  "line_tokens (Single c bg) = cmd_tokens c @ (if bg then [''&''] else [])"
| "line_tokens (Pipe c d) = cmd_tokens c @ ''|'' # cmd_tokens d"

definition words_ok :: "string list \<Rightarrow> bool" where
  "words_ok as \<longleftrightarrow> length as \<le> YASH_MAX_ARGS \<and> (\<forall>a \<in> set as. \<not> is_operator a)"

definition redirs_ok :: "(slot \<times> string) list \<Rightarrow> bool" where
  "redirs_ok rs \<longleftrightarrow> distinct (map fst rs) \<and> (\<forall>f \<in> snd ` set rs. \<not> is_operator f)"

fun wf_pcmd :: "pcmd \<Rightarrow> bool" where
  "wf_pcmd (PCmd as rs) \<longleftrightarrow> as \<noteq> [] \<and> words_ok as \<and> redirs_ok rs"

fun wf_pline :: "pline \<Rightarrow> bool" where
  "wf_pline (Single c bg) \<longleftrightarrow> wf_pcmd c"
| "wf_pline (Pipe c d) \<longleftrightarrow> wf_pcmd c \<and> wf_pcmd d"

text \<open>
  The parser on strings instead of buffer offsets. The state is the finished left command, if
  there is one, and the words and redirections of the current one.
\<close>

fun aparse :: "string list \<Rightarrow> pcmd option \<Rightarrow> string list \<Rightarrow> (slot \<times> string) list \<Rightarrow> pline option" where
  "aparse [] p as rs =
     (if as = [] then None
      else Some (case p of None \<Rightarrow> Single (PCmd as rs) False | Some c \<Rightarrow> Pipe c (PCmd as rs)))"
| "aparse (t # ts) p as rs =
     (case redirect_slot t of
        Some sl \<Rightarrow>
          if as = [] \<or> sl \<in> fst ` set rs then None
          else (case ts of [] \<Rightarrow> None
                | f # ts' \<Rightarrow> if is_operator f then None else aparse ts' p as (rs @ [(sl, f)]))
      | None \<Rightarrow>
          if t = ''|'' then (if p \<noteq> None \<or> as = [] then None else aparse ts (Some (PCmd as rs)) [] [])
          else if t = ''&'' then
            (if ts \<noteq> [] \<or> p \<noteq> None \<or> as = [] then None else Some (Single (PCmd as rs) True))
          else if rs \<noteq> [] \<or> length as = YASH_MAX_ARGS then None
          else aparse ts p (as @ [t]) rs)"

definition left_tokens :: "pcmd option \<Rightarrow> string list" where
  "left_tokens p = (case p of None \<Rightarrow> [] | Some c \<Rightarrow> cmd_tokens c @ [''|''])"

lemma redirect_slot_Some [simp]: "redirect_slot t = Some sl \<longleftrightarrow> t = slot_tok sl"
  by (cases sl) (auto simp: redirect_slot_def)

lemma redirect_slot_None: "redirect_slot t = None \<longleftrightarrow> (\<forall>sl. t \<noteq> slot_tok sl)"
  by (metis not_None_eq redirect_slot_Some)

lemma redirect_slot_tok [simp]: "redirect_slot (slot_tok sl) = Some sl"
  by simp

lemma redirect_slot_op [simp]: "redirect_slot ''|'' = None" "redirect_slot ''&'' = None"
  by (simp_all add: redirect_slot_def)

lemma redirect_slot_word: "\<not> is_operator t \<Longrightarrow> redirect_slot t = None \<and> t \<noteq> ''|'' \<and> t \<noteq> ''&''"
  by (auto simp: is_operator_def redirect_slot_def)

lemma word_if: "redirect_slot t = None \<Longrightarrow> t \<noteq> ''|'' \<Longrightarrow> t \<noteq> ''&'' \<Longrightarrow> \<not> is_operator t"
  by (auto simp: is_operator_def redirect_slot_def split: if_splits)

lemma redir_tokens_simps [simp]:
  "redir_tokens [] = []"
  "redir_tokens (r # rs) = slot_tok (fst r) # snd r # redir_tokens rs"
  "redir_tokens (rs @ rs') = redir_tokens rs @ redir_tokens rs'"
  by (auto simp: redir_tokens_def split: prod.split)

lemma aparse_sound:
  assumes "aparse ts p as rs = Some pl" and "words_ok as" and "redirs_ok rs"
    and "case p of None \<Rightarrow> True | Some c \<Rightarrow> wf_pcmd c"
  shows "wf_pline pl \<and> line_tokens pl = left_tokens p @ as @ redir_tokens rs @ ts"
  using assms
proof (induction ts p as rs rule: aparse.induct)
  case (1 p as rs)
  then show ?case by (auto simp: left_tokens_def split: option.splits if_splits)
next
  case (2 t ts p as rs)
  consider (redir) sl where "t = slot_tok sl" | (pipe) "t = ''|''" | (amp) "t = ''&''"
    | (word) "\<not> is_operator t"
    using word_if redirect_slot_None by metis
  then show ?case
  proof cases
    case redir
    with "2.prems"(1) obtain f ts' where ts: "ts = f # ts'" "\<not> is_operator f" "sl \<notin> fst ` set rs"
      and run: "aparse ts' p as (rs @ [(sl, f)]) = Some pl"
      by (auto split: if_splits list.splits)
    moreover have "redirs_ok (rs @ [(sl, f)])"
      using ts "2.prems"(3) by (auto simp: redirs_ok_def)
    ultimately have "wf_pline pl \<and> line_tokens pl = left_tokens p @ as @ redir_tokens (rs @ [(sl, f)]) @ ts'"
      using "2.IH"(3) [of sl f ts'] redir "2.prems" by (auto split: if_splits)
    with redir ts show ?thesis by simp
  next
    case pipe
    with 2 have "wf_pline pl \<and> line_tokens pl = left_tokens (Some (PCmd as rs)) @ [] @ redir_tokens [] @ ts"
      by (auto simp: words_ok_def redirs_ok_def split: if_splits)
    moreover have "p = None" using pipe "2.prems"(1) by (auto split: if_splits)
    ultimately show ?thesis using pipe by (simp add: left_tokens_def)
  next
    case amp
    with 2 show ?thesis by (auto simp: left_tokens_def split: if_splits)
  next
    case word
    note t = redirect_slot_word [OF word]
    have "words_ok (as @ [t])" if "length as \<noteq> YASH_MAX_ARGS"
      using that word "2.prems"(2) by (auto simp: words_ok_def)
    with 2 t have "wf_pline pl \<and> line_tokens pl = left_tokens p @ (as @ [t]) @ redir_tokens rs @ ts" and "rs = []"
      by (auto split: if_splits)
    then show ?thesis by simp
  qed
qed

lemma aparse_words:
  "words_ok (as @ bs) \<Longrightarrow> aparse (bs @ ts) p as [] = aparse ts p (as @ bs) []"
proof (induction bs arbitrary: as)
  case (Cons b bs)
  then have "\<not> is_operator b" and "length as \<noteq> YASH_MAX_ARGS"
    by (auto simp: words_ok_def)
  with Cons redirect_slot_word [of b] show ?case by simp
qed simp

lemma aparse_redirs:
  "as \<noteq> [] \<Longrightarrow> redirs_ok (rs @ qs) \<Longrightarrow> aparse (redir_tokens qs @ ts) p as rs = aparse ts p as (rs @ qs)"
proof (induction qs arbitrary: rs)
  case (Cons q qs)
  then have "fst q \<notin> fst ` set rs" and "\<not> is_operator (snd q)"
    by (auto simp: redirs_ok_def)
  with Cons show ?case by simp
qed simp

lemma aparse_cmd:
  "wf_pcmd (PCmd as rs) \<Longrightarrow> aparse (cmd_tokens (PCmd as rs) @ ts) p [] [] = aparse ts p as rs"
  using aparse_words [of "[]" as "redir_tokens rs @ ts" p] aparse_redirs [of as "[]" rs ts p] by simp

lemma aparse_complete: "wf_pline pl \<Longrightarrow> aparse (line_tokens pl) None [] [] = Some pl"
proof (cases pl)
  case (Single c bg)
  moreover assume "wf_pline pl"
  ultimately show ?thesis
    using aparse_cmd [of "args c" "redirs c" "if bg then [''&''] else []" None] by (cases c) auto
next
  case (Pipe c d)
  moreover assume "wf_pline pl"
  ultimately show ?thesis
    using aparse_cmd [of "args c" "redirs c" "''|'' # cmd_tokens d" None]
      aparse_cmd [of "args d" "redirs d" "[]" "Some c"] by (cases c; cases d) auto
qed

lemma aparse_iff: "aparse ts None [] [] = Some pl \<longleftrightarrow> wf_pline pl \<and> ts = line_tokens pl"
  using aparse_sound [of ts None "[]" "[]" pl] aparse_complete [of pl]
  by (auto simp: words_ok_def redirs_ok_def left_tokens_def)

section \<open>The parser on buffers follows the parser on strings\<close>

text \<open>
  A pointer denotes an optional string when it is null for none and otherwise points into the
  buffer of the job at address \<open>ja\<close>. A command denotes a parsed command when its whole
  \<^verbatim>\<open>argv\<close> array, the null padding included, denotes its words.
\<close>

definition ptr_denotes :: "addr \<Rightarrow> bytes \<Rightarrow> ptr option \<Rightarrow> string option \<Rightarrow> bool" where
  "ptr_denotes ja b p s \<longleftrightarrow>
     (case s of None \<Rightarrow> p = None | Some w \<Rightarrow> \<exists>off. p = Some (ja, off) \<and> cstr b off = w)"

definition padded :: "string list \<Rightarrow> string option list" where
  "padded as = map Some as @ replicate (YASH_MAX_ARGS + 1 - length as) None"

definition cmd_denotes :: "addr \<Rightarrow> bytes \<Rightarrow> cmd \<Rightarrow> pcmd \<Rightarrow> bool" where
  "cmd_denotes ja b c pc \<longleftrightarrow>
     argc c = length (args pc) \<and> length (args pc) \<le> YASH_MAX_ARGS
     \<and> list_all2 (ptr_denotes ja b) (argv c) (padded (args pc))
     \<and> (\<forall>sl. ptr_denotes ja b (get_slot sl c) (map_of (redirs pc) sl))"

definition job_denotes :: "addr \<Rightarrow> 'e job_scheme \<Rightarrow> pline \<Rightarrow> bool" where
  "job_denotes ja j pl \<longleftrightarrow> length (cmds j) = YASH_MAX_CMDS \<and>
     (case pl of
        Single c bg \<Rightarrow> ncmds j = 1 \<and> background j = bg \<and> cmd_denotes ja (buf j) (cmds j ! 0) c
      | Pipe c d \<Rightarrow> ncmds j = 2 \<and> \<not> background j \<and> cmd_denotes ja (buf j) (cmds j ! 0) c
          \<and> cmd_denotes ja (buf j) (cmds j ! 1) d)"

lemma ptr_denotes_simps [simp]:
  "ptr_denotes ja b p None \<longleftrightarrow> p = None"
  "ptr_denotes ja b (Some (ja, off)) (Some w) \<longleftrightarrow> cstr b off = w"
  by (auto simp: ptr_denotes_def)

lemma ptr_denotes_None_iff: "ptr_denotes ja b None s \<longleftrightarrow> s = None"
  by (cases s) (auto simp: ptr_denotes_def)

lemma length_padded [simp]: "length as \<le> YASH_MAX_ARGS \<Longrightarrow> length (padded as) = YASH_MAX_ARGS + 1"
  by (simp add: padded_def)

lemma padded_snoc: "length as < YASH_MAX_ARGS + 1 \<Longrightarrow> (padded as)[length as := Some w] = padded (as @ [w])"
proof -
  assume "length as < YASH_MAX_ARGS + 1"
  then have "replicate (YASH_MAX_ARGS + 1 - length as) (None :: string option)
      = None # replicate (YASH_MAX_ARGS + 1 - length (as @ [w])) None"
    by (simp flip: replicate_Suc add: Suc_diff_Suc)
  then show ?thesis by (simp add: padded_def list_update_append)
qed

lemma padded_stop: "length as \<le> YASH_MAX_ARGS \<Longrightarrow> (padded as)[length as := None] = padded as"
  by (simp add: padded_def list_update_append Suc_diff_le)

lemma cmd_denotes_zero [simp]: "cmd_denotes ja b zero_cmd (PCmd [] [])"
proof -
  have "get_slot sl zero_cmd = None" for sl by (cases sl) (simp_all add: zero_cmd_def)
  moreover have "list_all2 (ptr_denotes ja b) (replicate n None) (replicate n None)" for n
    by (induction n) simp_all
  ultimately show ?thesis
    unfolding cmd_denotes_def padded_def by (simp add: zero_cmd_def del: replicate_Suc)
qed

lemma get_set_slot: "get_slot sl (set_slot sl' p c) = (if sl = sl' then p else get_slot sl c)"
  by (cases sl; cases sl') simp_all

lemma set_slot_frame [simp]:
  "argv (set_slot sl p c) = argv c" "argc (set_slot sl p c) = argc c"
  "cmd_pid (set_slot sl p c) = cmd_pid c"
  by (cases sl; simp)+

lemma push_arg_frame [simp]:
  "get_slot sl (push_arg p c) = get_slot sl c" "argc (push_arg p c) = Suc (argc c)"
  "cmd_pid (push_arg p c) = cmd_pid c"
  by (cases sl; simp add: push_arg_def)+

lemma cmd_denotes_slot:
  assumes "cmd_denotes ja b c (PCmd as rs)" and "sl \<notin> fst ` set rs" and "cstr b f = w"
  shows "cmd_denotes ja b (set_slot sl (Some (ja, f)) c) (PCmd as (rs @ [(sl, w)]))"
proof -
  have "map_of (rs @ [(sl, w)]) sl' = (if sl' = sl then Some w else map_of rs sl')" for sl'
    using assms(2) by (induction rs) auto
  with assms show ?thesis
    by (simp add: cmd_denotes_def get_set_slot)
qed

lemma cmd_denotes_push:
  assumes "cmd_denotes ja b c (PCmd as rs)" and "length as \<noteq> YASH_MAX_ARGS" and "cstr b t = w"
  shows "cmd_denotes ja b (push_arg (ja, t) c) (PCmd (as @ [w]) rs)"
proof -
  have "list_all2 (ptr_denotes ja b) ((argv c)[length as := Some (ja, t)]) ((padded as)[length as := Some w])"
    using assms by (intro list_all2_update_cong) (auto simp: cmd_denotes_def)
  moreover have "length as < YASH_MAX_ARGS + 1"
    using assms(1) by (simp add: cmd_denotes_def)
  ultimately have "list_all2 (ptr_denotes ja b) ((argv c)[length as := Some (ja, t)]) (padded (as @ [w]))"
    by (simp only: padded_snoc)
  with assms show ?thesis
    by (simp add: cmd_denotes_def) (simp add: push_arg_def)
qed

lemma cmd_denotes_terminate:
  assumes "cmd_denotes ja b c pc"
  shows "cmd_denotes ja b (terminate_argv c) pc"
proof -
  have len: "length (args pc) \<le> YASH_MAX_ARGS" and n: "argc c = length (args pc)"
    using assms by (auto simp: cmd_denotes_def)
  have "list_all2 (ptr_denotes ja b) ((argv c)[argc c := None]) ((padded (args pc))[length (args pc) := None])"
    unfolding n using assms by (intro list_all2_update_cong) (auto simp: cmd_denotes_def)
  then have "list_all2 (ptr_denotes ja b) ((argv c)[argc c := None]) (padded (args pc))"
    by (simp only: padded_stop [OF len])
  moreover have "get_slot sl (terminate_argv c) = get_slot sl c" for sl
    by (cases sl) (simp_all add: terminate_argv_def)
  ultimately show ?thesis
    using assms by (simp add: cmd_denotes_def terminate_argv_def)
qed

definition no_pids :: "'e job_scheme \<Rightarrow> bool" where
  "no_pids j \<longleftrightarrow> (\<forall>c \<in> set (cmds j). cmd_pid c = 0)"

definition sim :: "addr \<Rightarrow> 'e job_scheme \<Rightarrow> nat \<Rightarrow> pcmd option \<Rightarrow> pcmd \<Rightarrow> bool" where
  "sim ja j ci p cur \<longleftrightarrow> length (cmds j) = YASH_MAX_CMDS \<and> no_pids j \<and> cmd_denotes ja (buf j) (cmds j ! ci) cur
     \<and> (case p of None \<Rightarrow> ci = 0 \<and> cmds j ! 1 = zero_cmd
        | Some c \<Rightarrow> ci = 1 \<and> cmd_denotes ja (buf j) (cmds j ! 0) c)"

definition same_frame :: "'e job_scheme \<Rightarrow> 'e job_scheme \<Rightarrow> bool" where
  "same_frame j j' \<longleftrightarrow> j' = j\<lparr>cmds := cmds j', background := background j'\<rparr>"

definition parsed_as :: "addr \<Rightarrow> 'e job_scheme \<Rightarrow> nat \<Rightarrow> pline \<Rightarrow> bool" where
  "parsed_as ja j ci pl \<longleftrightarrow> argc (cmds j ! ci) \<noteq> 0 \<and>
     (case pl of Single c bg \<Rightarrow> background j = bg \<and> sim ja j ci None c
      | Pipe c d \<Rightarrow> \<not> background j \<and> sim ja j ci (Some c) d)"

definition loop_result ::
  "addr \<Rightarrow> 'e job_scheme \<Rightarrow> ('e job_scheme + nat \<times> 'e job_scheme) \<Rightarrow> pline option \<Rightarrow> bool" where
  "loop_result ja j r res \<longleftrightarrow>
     (case res of
        None \<Rightarrow> (case r of Inl _ \<Rightarrow> True | Inr (ci, j') \<Rightarrow> argc (cmds j' ! ci) = 0)
      | Some pl \<Rightarrow> \<exists>ci j'. r = Inr (ci, j') \<and> parsed_as ja j' ci pl \<and> same_frame j j')"

lemma upd_cmd_simps [simp]:
  "buf (upd_cmd i f j) = buf j" "cmdline (upd_cmd i f j) = cmdline j"
  "background (upd_cmd i f j) = background j"
  "cmds (upd_cmd i f j) = (cmds j)[i := f (cmds j ! i)]"
  by (simp_all add: upd_cmd_def)

lemma same_frame_refl: "same_frame j j"
  by (simp add: same_frame_def)

lemma same_frame_upd: "same_frame (upd_cmd i f j) j' \<Longrightarrow> same_frame j j'"
  unfolding same_frame_def upd_cmd_def by (cases j, cases j') simp

lemma same_frame_bg: "same_frame (j\<lparr>background := b\<rparr>) j' \<Longrightarrow> same_frame j j'"
  unfolding same_frame_def by (cases j, cases j') simp

lemma loop_result_upd: "loop_result ja (upd_cmd i f j) r res \<Longrightarrow> loop_result ja j r res"
  by (fastforce simp: loop_result_def split: option.splits dest: same_frame_upd)

lemma sim_index: "sim ja j ci p cur \<Longrightarrow> ci < length (cmds j)"
  by (auto simp: sim_def YASH_MAX_CMDS_def split: option.splits)

lemma sim_argc: "sim ja j ci p (PCmd as rs) \<Longrightarrow> argc (cmds j ! ci) = length as"
  by (simp add: sim_def cmd_denotes_def)

lemma sim_slot: "sim ja j ci p (PCmd as rs) \<Longrightarrow> get_slot sl (cmds j ! ci) = None \<longleftrightarrow> sl \<notin> fst ` set rs"
proof -
  assume "sim ja j ci p (PCmd as rs)"
  then have "ptr_denotes ja (buf j) (get_slot sl (cmds j ! ci)) (map_of rs sl)"
    by (simp add: sim_def cmd_denotes_def)
  then show ?thesis
    by (cases "map_of rs sl") (auto simp: ptr_denotes_def map_of_eq_None_iff dest: map_of_SomeD intro: rev_image_eqI)
qed

lemma sim_upd:
  assumes "sim ja j ci p cur" and "cmd_denotes ja (buf j) (f (cmds j ! ci)) cur'"
    and "cmd_pid (f (cmds j ! ci)) = cmd_pid (cmds j ! ci)"
  shows "sim ja (upd_cmd ci f j) ci p cur'"
proof -
  note ci = sim_index [OF assms(1)]
  have "no_pids (upd_cmd ci f j)"
    using assms(1,3) ci set_upd_subset [of "cmds j" ci "f (cmds j ! ci)"]
    by (auto simp: no_pids_def sim_def dest: nth_mem)
  then show ?thesis
    using assms ci by (auto simp: sim_def split: option.splits)
qed

lemma sim_pipe:
  assumes "sim ja j ci None cur"
  shows "ci = 0 \<and> sim ja j (Suc ci) (Some cur) (PCmd [] [])"
  using assms by (auto simp: sim_def)

lemma parse_loop_sim:
  assumes "sim ja j ci p (PCmd as rs)" and "rseen = (rs \<noteq> [])" and "\<not> background j"
  shows "loop_result ja j (parse_loop ja ts ci rseen j) (aparse (map (cstr (buf j)) ts) p as rs)"
  using assms
proof (induction ja ts ci rseen j arbitrary: p as rs rule: parse_loop.induct)
  case (1 ja ci rseen j)
  then show ?case
    by (auto simp: loop_result_def parsed_as_def sim_argc same_frame_refl split: option.splits)
next
  case (2 ja t ts ci rseen j)
  let ?w = "cstr (buf j) t"
  note argc = sim_argc [OF "2.prems"(1)] and slot = sim_slot [OF "2.prems"(1)]
  have den: "cmd_denotes ja (buf j) (cmds j ! ci) (PCmd as rs)"
    using "2.prems"(1) by (simp add: sim_def)
  consider (redir) sl where "redirect_slot ?w = Some sl" | (pipe) "?w = ''|''" | (amp) "?w = ''&''"
    | (word) "redirect_slot ?w = None" "?w \<noteq> ''|''" "?w \<noteq> ''&''"
    by fastforce
  then show ?case
  proof cases
    case redir
    show ?thesis
    proof (cases "as = [] \<or> sl \<in> fst ` set rs \<or> ts = [] \<or> is_operator (cstr (buf j) (hd ts))")
      case True
      with redir show ?thesis
        by (auto simp: argc slot loop_result_def Let_def split: list.splits)
    next
      case False
      then obtain f ts' where ts: "ts = f # ts'" by (cases ts) auto
      have "sim ja (upd_cmd ci (set_slot sl (Some (ja, f))) j) ci p (PCmd as (rs @ [(sl, cstr (buf j) f)]))"
        using False den by (intro sim_upd [OF "2.prems"(1)] cmd_denotes_slot) auto
      from "2.IH"(4) [OF refl refl redir _ _ ts _ this] False ts redir "2.prems" show ?thesis
        by (auto simp: argc slot Let_def dest: loop_result_upd)
    qed
  next
    case pipe
    show ?thesis
    proof (cases "p \<noteq> None \<or> as = []")
      case True
      with pipe "2.prems"(1) show ?thesis
        by (auto simp: argc loop_result_def sim_def YASH_MAX_CMDS_def Let_def split: option.splits)
    next
      case False
      then have sim: "ci = 0" "sim ja j (Suc ci) (Some (PCmd as rs)) (PCmd [] [])"
        using sim_pipe "2.prems"(1) by auto
      from "2.IH"(1) [OF refl refl _ pipe _ _ _ _ "2.prems"(3)] sim False pipe argc show ?thesis
        by (auto simp: Let_def YASH_MAX_CMDS_def)
    qed
  next
    case amp
    show ?thesis
    proof (cases "ts \<noteq> [] \<or> p \<noteq> None \<or> as = []")
      case True
      with amp "2.prems"(1) argc show ?thesis
        by (auto simp: loop_result_def sim_def Let_def split: option.splits)
    next
      case False
      then have "ci = 0" using "2.prems"(1) by (simp add: sim_def)
      with False amp "2.prems" argc show ?thesis
        by (auto simp: loop_result_def Let_def parsed_as_def sim_def same_frame_def no_pids_def)
    qed
  next
    case word
    show ?thesis
    proof (cases "rs \<noteq> [] \<or> length as = YASH_MAX_ARGS")
      case True
      with word "2.prems" show ?thesis
        by (auto simp: argc loop_result_def Let_def)
    next
      case False
      have "sim ja (upd_cmd ci (push_arg (ja, t)) j) ci p (PCmd (as @ [?w]) rs)"
        using False den by (intro sim_upd [OF "2.prems"(1)] cmd_denotes_push) auto
      from "2.IH"(3) [OF refl refl word _ _ this] False word "2.prems" show ?thesis
        by (auto simp: argc Let_def dest: loop_result_upd)
    qed
  qed
qed

section \<open>What the parser promises\<close>

definition strip_amp :: "string \<Rightarrow> string" where
  "strip_amp s = rev (dropWhile (\<lambda>c. c = CHR ''&'' \<or> c \<in> set blanks) (rev s))"

lemma trim_end_le: "trim_end b n \<le> n"
  by (induction n) (auto simp: le_SucI)

lemma trim_end_take:
  "n \<le> length b \<Longrightarrow> take (trim_end b n) b = strip_amp (take n b)"
proof (induction n)
  case 0
  then show ?case by (simp add: strip_amp_def)
next
  case (Suc n)
  then have "take (Suc n) b = take n b @ [b ! n]"
    by (simp add: take_Suc_conv_app_nth)
  with Suc show ?case
    by (auto simp: strip_amp_def blanks_def)
qed

lemma cstr_cut: "NUL \<notin> set s \<Longrightarrow> n \<le> length s \<Longrightarrow> cstr ((s @ NUL # t)[n := NUL]) 0 = take n s"
proof (cases "n = length s")
  case False
  moreover assume "NUL \<notin> set s" "n \<le> length s"
  moreover from this have "cstr (s @ NUL # t) 0 = s" by (simp add: cstr_def)
  ultimately show ?thesis
    using cstr_upd_inside [of 0 n "s @ NUL # t"] by simp
qed (simp add: cstr_def)

lemma cmdline_trim:
  assumes "NUL \<notin> set s" and "cmdline j = strcpy_to b s"
  shows "cstr (cmdline (trim_cmdline j)) 0 = strip_amp s"
proof -
  let ?n = "trim_end (cmdline j) (length s)"
  have "take ?n (cmdline j) = strip_amp (take (length s) (cmdline j))"
    by (rule trim_end_take) (simp add: assms(2) strcpy_to_def)
  moreover have "take (length s) (cmdline j) = s"
    by (simp add: assms(2) strcpy_to_def)
  moreover have "take ?n (cmdline j) = take ?n s"
    using trim_end_le [of "cmdline j" "length s"] by (simp add: assms(2) strcpy_to_def)
  moreover have "cstr (cmdline j) 0 = s"
    using assms by simp
  ultimately show ?thesis
    using cstr_cut [OF assms(1) trim_end_le] by (simp add: trim_cmdline_def assms(2) strcpy_to_def)
qed

lemma finish_denotes:
  assumes "parsed_as ja j ci pl"
  shows "job_denotes ja (finish_job ci j) pl \<and> no_pids (finish_job ci j)"
proof -
  have "length (cmds j) = 2"
    using assms by (auto simp: parsed_as_def sim_def YASH_MAX_CMDS_def split: pline.splits)
  then obtain c d where "cmds j = [c, d]"
    by (auto simp: length_Suc_conv numeral_2_eq_2)
  with assms show ?thesis
    by (auto simp: parsed_as_def job_denotes_def sim_def finish_job_def Let_def YASH_MAX_CMDS_def
        trim_cmdline_def cmd_denotes_terminate no_pids_def take_Cons' split: pline.splits)
      (auto simp: terminate_argv_def)
qed

lemma finish_frame:
  assumes "same_frame j j'"
  shows "jid (finish_job ci j') = jid j \<and> pgid (finish_job ci j') = pgid j
    \<and> state (finish_job ci j') = state j \<and> nlive (finish_job ci j') = nlive j
    \<and> job.more (finish_job ci j') = job.more j
    \<and> cmdline (finish_job ci j') = (if background j' then cmdline (trim_cmdline j) else cmdline j)"
  using assms unfolding same_frame_def finish_job_def trim_cmdline_def Let_def
  by (cases j, cases j') simp

lemma zero_job_sel [simp]:
  "length (cmdline (zero_job e)) = YASH_MAX_LINE + 1" "length (buf (zero_job e)) = YASH_MAX_LINE + 1"
  "cmds (zero_job e) = replicate YASH_MAX_CMDS zero_cmd" "\<not> background (zero_job e)"
  "jid (zero_job e) = 0" "pgid (zero_job e) = 0" "nlive (zero_job e) = 0" "job.more (zero_job e) = e"
  by (simp_all add: zero_job_def)

lemma sim_zero: "cmds j = replicate YASH_MAX_CMDS zero_cmd \<Longrightarrow> sim ja j 0 None (PCmd [] [])"
  by (simp add: sim_def YASH_MAX_CMDS_def no_pids_def) (simp add: zero_cmd_def)

text \<open>The three outcomes of a call on a line within the length limit.\<close>

lemma parse_into_cases:
  assumes nul: "NUL \<notin> set s" and len: "length s \<le> YASH_MAX_LINE"
    and run: "parse_into (zero_job e) ja (Some s) j0 = (st, j)"
  shows "st = PARSE_EMPTY \<and> words_of blanks s = []
    \<or> st = PARSE_ERROR \<and> words_of blanks s \<noteq> [] \<and> aparse (words_of blanks s) None [] [] = None
    \<or> st = PARSE_OK \<and> (\<exists>pl. aparse (words_of blanks s) None [] [] = Some pl \<and> job_denotes ja j pl)
      \<and> words_of blanks s \<noteq> []
      \<and> no_pids j \<and> jid j = 0 \<and> pgid j = 0 \<and> state j = JOB_RUNNING \<and> nlive j = 0 \<and> job.more j = e
      \<and> cstr (cmdline j) 0 = (if background j then strip_amp s else s)"
proof -
  let ?j = "(zero_job e)\<lparr>cmdline := strcpy_to (cmdline (zero_job e)) s,
       buf := strcpy_to (buf (zero_job e)) s, state := JOB_RUNNING\<rparr>"
  obtain n ts b where tok: "tokenize (buf ?j) YASH_MAX_TOKENS = (n, ts, b)"
    by (metis prod_cases3)
  have "cstr (buf ?j) 0 = s" using nul by simp
  moreover have "length (words_of blanks s) \<le> YASH_MAX_TOKENS"
    using words_of_count [of blanks s] len by (simp add: yash_limits)
  ultimately have n: "n = int (length ts)" and ws: "map (cstr b) ts = words_of blanks s"
    using tokenize_words [OF tok] by auto
  let ?k = "?j\<lparr>buf := b\<rparr>"
  have simk: "sim ja ?k 0 None (PCmd [] [])" by (rule sim_zero) simp
  have res: "loop_result ja ?k (parse_loop ja ts 0 False ?k) (aparse (words_of blanks s) None [] [])"
    using parse_loop_sim [OF simk, of False ts] ws by simp
  show ?thesis
  proof (cases "ts = []")
    case True
    with tok n ws len run show ?thesis by (auto simp: parse_into_def Let_def)
  next
    case False
    then have nz: "n \<noteq> 0" "\<not> n < 0" "words_of blanks s \<noteq> []" using n ws by auto
    show ?thesis
    proof (cases "aparse (words_of blanks s) None [] []")
      case None
      with res nz tok len run show ?thesis
        by (auto simp: parse_into_def Let_def loop_result_def split: sum.splits if_splits)
    next
      case (Some pl)
      with res obtain ci j' where L: "parse_loop ja ts 0 False ?k = Inr (ci, j')"
        and P: "parsed_as ja j' ci pl" and F: "same_frame ?k j'"
        by (auto simp: loop_result_def)
      have j: "st = PARSE_OK" "j = finish_job ci j'"
        using L P nz tok len run by (auto simp: parse_into_def Let_def parsed_as_def)
      have bg: "background j = background j'"
        by (simp add: j finish_job_def trim_cmdline_def Let_def)
      have "cstr (cmdline (trim_cmdline ?k)) 0 = strip_amp s"
        by (rule cmdline_trim [OF nul, of _ "cmdline (zero_job e)"]) simp
      moreover have "cstr (cmdline ?k) 0 = s" using nul by simp
      ultimately show ?thesis
        using finish_frame [OF F, of ci] finish_denotes [OF P] Some nz bg by (auto simp: j)
    qed
  qed
qed

lemma parse_into_too_long:
  "length s > YASH_MAX_LINE \<Longrightarrow> parse_into z ja (Some s) j0 = (PARSE_ERROR, j0)"
  by (simp add: parse_into_def)

lemma parse_into_ok_iff:
  assumes "NUL \<notin> set s"
  shows "fst (parse_into (zero_job e) ja (Some s) j0) = PARSE_OK \<longleftrightarrow>
    length s \<le> YASH_MAX_LINE \<and> (\<exists>pl. wf_pline pl \<and> words_of blanks s = line_tokens pl)"
proof (cases "length s \<le> YASH_MAX_LINE")
  case True
  obtain st j where run: "parse_into (zero_job e) ja (Some s) j0 = (st, j)"
    by (metis surj_pair)
  have "wf_pline pl \<and> words_of blanks s = line_tokens pl \<longleftrightarrow> aparse (words_of blanks s) None [] [] = Some pl" for pl
    by (auto simp: aparse_iff)
  moreover have "line_tokens pl \<noteq> []" if "wf_pline pl" for pl
    using that by (cases pl; cases "case pl of Single c _ \<Rightarrow> c | Pipe c _ \<Rightarrow> c") auto
  ultimately show ?thesis
    using parse_into_cases [OF assms True run] run True by auto
qed (simp add: parse_into_too_long)

lemma parse_line_parsed:
  assumes "NUL \<notin> set s" and "parse_line ja (Some s) j0 = (PARSE_OK, j)"
  shows "\<exists>pl. aparse (words_of blanks s) None [] [] = Some pl \<and> wf_pline pl
      \<and> words_of blanks s = line_tokens pl \<and> job_denotes ja j pl"
    and "cstr (cmdline j) 0 = (if background j then strip_amp s else s)"
    and "nlive j = 0" and "state j = JOB_RUNNING" and "length s \<le> YASH_MAX_LINE" and "no_pids j"
proof -
  show len: "length s \<le> YASH_MAX_LINE"
    by (rule ccontr) (use assms(2) in \<open>simp add: parse_line_def parse_into_too_long\<close>)
  note P = parse_into_cases [OF assms(1) len assms(2) [unfolded parse_line_def]]
  then show "cstr (cmdline j) 0 = (if background j then strip_amp s else s)"
    and "nlive j = 0" and "state j = JOB_RUNNING" and "no_pids j" by auto
  from P obtain pl where "aparse (words_of blanks s) None [] [] = Some pl" "job_denotes ja j pl"
    by auto
  then show "\<exists>pl. aparse (words_of blanks s) None [] [] = Some pl \<and> wf_pline pl
      \<and> words_of blanks s = line_tokens pl \<and> job_denotes ja j pl"
    using aparse_iff by blast
qed

lemma parse_line_denoting:
  assumes "NUL \<notin> set s" and "length s \<le> YASH_MAX_LINE"
    and "wf_pline pl" and "words_of blanks s = line_tokens pl"
  shows "\<exists>j. parse_line ja (Some s) j0 = (PARSE_OK, j) \<and> job_denotes ja j pl"
proof -
  have "fst (parse_line ja (Some s) j0) = PARSE_OK"
    unfolding parse_line_def parse_into_ok_iff [OF assms(1)] using assms by blast
  then obtain j where j: "parse_line ja (Some s) j0 = (PARSE_OK, j)"
    by (metis prod.collapse)
  from parse_line_parsed(1) [OF assms(1) j] aparse_complete [OF assms(3)] j show ?thesis
    unfolding assms(4) by auto
qed

text \<open>
  The token \<^verbatim>\<open>2>&1\<close> is not an operator of the parser, so a line that uses it is accepted
  with \<^verbatim>\<open>2>&1\<close> as an ordinary argument; \<^verbatim>\<open>parse.h\<close> says such a line is a
  \<^verbatim>\<open>PARSE_ERROR\<close>.
\<close>

lemma parse_line_dup_is_argument:
  "\<exists>j. parse_line ja (Some ''ls 2>&1'') j0 = (PARSE_OK, j)
     \<and> job_denotes ja j (Single (PCmd [''ls'', ''2>&1''] []) False)"
proof -
  let ?s = "''ls 2>&1''"
  let ?pl = "Single (PCmd [''ls'', ''2>&1''] []) False"
  have ws: "words_of blanks ?s = line_tokens ?pl" by (simp add: words_of.simps blanks_def)
  have wf: "wf_pline ?pl" by (simp add: words_ok_def redirs_ok_def is_operator_def yash_limits)
  show ?thesis by (rule parse_line_denoting [OF _ _ wf ws]) (simp_all add: YASH_MAX_LINE_def)
qed

section \<open>Properties of the parser of Project 1\<close>

text \<open>
  C10. The parser accepts exactly the lines of the grammar: a line is accepted if and only if it
  has at most 200 characters and its blank-separated words are one command with its redirections,
  optionally followed by \<^verbatim>\<open>&\<close>, or two commands joined by one \<^verbatim>\<open>|\<close>. Any word but
  \<^verbatim>\<open><\<close>, \<^verbatim>\<open>>\<close>, \<^verbatim>\<open>2>\<close>, \<^verbatim>\<open>|\<close> and \<^verbatim>\<open>&\<close> is an argument in this grammar. So is
  \<^verbatim>\<open>2>&1\<close>, for which \<^verbatim>\<open>parse.h\<close> promises a \<^verbatim>\<open>PARSE_ERROR\<close>: the line
  \<^verbatim>\<open>ls 2>&1\<close> is accepted, with two arguments.
\<close>

theorem parse_line_accepts_grammar:
  assumes "NUL \<notin> set s"
  shows "(fst (parse_line ja (Some s) j0) = PARSE_OK \<longleftrightarrow>
      length s \<le> YASH_MAX_LINE \<and> (\<exists>pl. wf_pline pl \<and> words_of blanks s = line_tokens pl))
    \<and> (\<exists>j. parse_line ja (Some ''ls 2>&1'') j0 = (PARSE_OK, j)
         \<and> job_denotes ja j (Single (PCmd [''ls'', ''2>&1''] []) False))"
  by (intro conjI parse_line_dup_is_argument) (unfold parse_line_def, rule parse_into_ok_iff [OF assms])

theorem parse_line_accepts_grammar_witness:
  "fst (parse_line 7 (Some ''ls -l < in | wc'') (zero_job ())) = PARSE_OK"
proof -
  have ws: "words_of blanks ''ls -l < in | wc'' = [''ls'', ''-l'', ''<'', ''in'', ''|'', ''wc'']"
    by (simp add: words_of.simps blanks_def)
  have "\<exists>pl. wf_pline pl \<and> words_of blanks ''ls -l < in | wc'' = line_tokens pl"
    unfolding ws
    by (rule exI [of _ "Pipe (PCmd [''ls'', ''-l''] [(Infile, ''in'')]) (PCmd [''wc''] [])"])
      (simp add: words_ok_def redirs_ok_def is_operator_def yash_limits)
  then show ?thesis
    using parse_line_accepts_grammar [of "''ls -l < in | wc''" 7 "zero_job ()"]
    by (simp add: YASH_MAX_LINE_def)
qed

text \<open>
  C12. An accepted line denotes one parsed line, and the job built from it is that line: number of
  commands, every argument and every redirection target read through the job's own pointers, the
  background flag, a command line text equal to the line (without the trailing \<^verbatim>\<open>&\<close> and
  blanks for a background job), no live children yet.
\<close>

theorem parse_line_builds_job:
  assumes "NUL \<notin> set s" and "parse_line ja (Some s) j0 = (PARSE_OK, j)"
  shows "(\<exists>pl. wf_pline pl \<and> words_of blanks s = line_tokens pl \<and> job_denotes ja j pl
      \<and> (\<forall>pl'. wf_pline pl' \<and> words_of blanks s = line_tokens pl' \<longrightarrow> pl' = pl))
    \<and> cstr (cmdline j) 0 = (if background j then strip_amp s else s)
    \<and> nlive j = 0 \<and> state j = JOB_RUNNING"
proof -
  from parse_line_parsed(1) [OF assms] obtain pl where
    pl: "aparse (words_of blanks s) None [] [] = Some pl" "wf_pline pl" "words_of blanks s = line_tokens pl"
      "job_denotes ja j pl" by blast
  have "pl' = pl" if "wf_pline pl'" "words_of blanks s = line_tokens pl'" for pl'
    using that pl(1) aparse_complete [of pl'] by simp
  with pl parse_line_parsed(2-4) [OF assms] show ?thesis by blast
qed

text \<open>The command line \<^verbatim>\<open>sleep 5 &\<close>, evaluated.\<close>

lemma parse_sleep:
  "parse_line 7 (Some ''sleep 5 &'') (zero_job ()) =
     (PARSE_OK, snd (parse_line 7 (Some ''sleep 5 &'') (zero_job ())))
   \<and> background (snd (parse_line 7 (Some ''sleep 5 &'') (zero_job ())))"
  by code_simp

theorem parse_line_builds_job_witness:
  "cstr (cmdline (snd (parse_line 7 (Some ''sleep 5 &'') (zero_job ())))) 0 = ''sleep 5''"
proof -
  have "NUL \<notin> set ''sleep 5 &''" by simp
  from parse_line_builds_job [OF this conjunct1 [OF parse_sleep]] parse_sleep
  have "cstr (cmdline (snd (parse_line 7 (Some ''sleep 5 &'') (zero_job ())))) 0 = strip_amp ''sleep 5 &''"
    by simp
  then show ?thesis by (simp add: strip_amp_def blanks_def)
qed

section \<open>Memory safety\<close>

lemma cmd_denotes_argv:
  assumes "cmd_denotes ja b c (PCmd as rs)"
  shows "length (argv c) = YASH_MAX_ARGS + 1 \<and> argv c ! argc c = None
    \<and> (\<forall>k < argc c. \<exists>off. argv c ! k = Some (ja, off) \<and> cstr b off = as ! k)"
proof -
  have A: "list_all2 (ptr_denotes ja b) (argv c) (padded as)" and n: "argc c = length as"
    and le: "length as \<le> YASH_MAX_ARGS"
    using assms by (auto simp: cmd_denotes_def)
  have len: "length (argv c) = YASH_MAX_ARGS + 1"
    using list_all2_lengthD [OF A] le by simp
  have at: "ptr_denotes ja b (argv c ! k) (if k < length as then Some (as ! k) else None)"
    if "k \<le> length as" for k
  proof -
    have "padded as ! k = (if k < length as then Some (as ! k) else None)"
      using that le by (auto simp: padded_def nth_append)
    then show ?thesis
      using list_all2_nthD [OF A, of k] that len le by simp
  qed
  have "argv c ! argc c = None" using at [of "argc c"] n by simp
  moreover have "\<exists>off. argv c ! k = Some (ja, off) \<and> cstr b off = as ! k" if "k < argc c" for k
    using at [of k] that n by (simp add: ptr_denotes_def)
  ultimately show ?thesis using len by simp
qed

lemma job_denotes_cmd:
  "job_denotes ja j pl \<Longrightarrow> wf_pline pl \<Longrightarrow> i < ncmds j \<Longrightarrow>
   \<exists>as rs. wf_pcmd (PCmd as rs) \<and> set as \<subseteq> set (line_tokens pl) \<and> cmd_denotes ja (buf j) (cmds j ! i) (PCmd as rs)"
  by (cases pl; cases "case pl of Single c _ \<Rightarrow> c | Pipe c _ \<Rightarrow> c"; cases "case pl of Single c _ \<Rightarrow> c | Pipe _ d \<Rightarrow> d")
    (fastforce simp: job_denotes_def less_Suc_eq numeral_2_eq_2)+

text \<open>
  C14. Memory safety of the argument vectors: after a successful parse every command has between 1
  and 64 arguments, its 65-entry \<^verbatim>\<open>argv\<close> is null terminated at \<^verbatim>\<open>argc\<close>, and each
  argument points inside the job's own 201-byte buffer at a nonempty string, as
  \<^verbatim>\<open>execvp\<close> requires.
\<close>

theorem parse_line_argv_safe:
  assumes "NUL \<notin> set s" and "parse_line ja (Some s) j0 = (PARSE_OK, j)" and "i < ncmds j"
  shows "1 \<le> argc (cmds j ! i) \<and> argc (cmds j ! i) \<le> YASH_MAX_ARGS
    \<and> length (argv (cmds j ! i)) = YASH_MAX_ARGS + 1 \<and> argv (cmds j ! i) ! argc (cmds j ! i) = None
    \<and> (\<forall>k < argc (cmds j ! i). \<exists>off. argv (cmds j ! i) ! k = Some (ja, off)
         \<and> off < length (buf j) \<and> cstr (buf j) off \<noteq> [])"
proof -
  from parse_line_parsed(1) [OF assms(1,2)] obtain pl where pl: "wf_pline pl"
    "words_of blanks s = line_tokens pl" "job_denotes ja j pl" by blast
  from job_denotes_cmd [OF pl(3,1) assms(3)] obtain as rs where
    c: "wf_pcmd (PCmd as rs)" "set as \<subseteq> set (line_tokens pl)" "cmd_denotes ja (buf j) (cmds j ! i) (PCmd as rs)"
    by blast
  have ne: "w \<noteq> []" if "w \<in> set as" for w
  proof -
    have "w \<in> set (words_of blanks s)" using that c(2) pl(2) by auto
    then show ?thesis by (rule words_of_nonempty)
  qed
  have n: "argc (cmds j ! i) = length as" "length as \<le> YASH_MAX_ARGS" "as \<noteq> []"
    using c(1,3) by (auto simp: cmd_denotes_def)
  have "\<exists>off. argv (cmds j ! i) ! k = Some (ja, off) \<and> off < length (buf j) \<and> cstr (buf j) off \<noteq> []"
    if "k < length as" for k
  proof -
    from cmd_denotes_argv [OF c(3)] that n obtain off
      where off: "argv (cmds j ! i) ! k = Some (ja, off)" "cstr (buf j) off = as ! k" by auto
    then have "cstr (buf j) off \<noteq> []" using ne that by simp
    moreover from this have "off < length (buf j)" using cstr_past_end by (meson not_le)
    ultimately show ?thesis using off by blast
  qed
  moreover have "1 \<le> length as" using n(3) by (cases as) auto
  ultimately show ?thesis using cmd_denotes_argv [OF c(3)] n by auto
qed

theorem parse_line_argv_safe_witness:
  "argv (cmds (snd (parse_line 7 (Some ''sleep 5 &'') (zero_job ()))) ! 0)
     ! argc (cmds (snd (parse_line 7 (Some ''sleep 5 &'') (zero_job ()))) ! 0) = None"
proof -
  have n: "NUL \<notin> set ''sleep 5 &''" and i: "0 < ncmds (snd (parse_line 7 (Some ''sleep 5 &'') (zero_job ())))"
    by simp code_simp
  show ?thesis using parse_line_argv_safe [OF n conjunct1 [OF parse_sleep] i] by blast
qed

end
