(* ===== verification/Yash_Jobs.thy ===== *)
theory Yash_Jobs
  imports Yash_Parse
begin

text \<open>
  The job table of \<^verbatim>\<open>jobs.c\<close> (Project 1). The singly linked list headed by
  \<^verbatim>\<open>job_list\<close> is the list of its nodes in link order, each with its heap address. The
  answers of \<^verbatim>\<open>waitpid\<close> are an input: a list consumed from the front, one entry per
  call. \<^verbatim>\<open>WNothing\<close> stands for "no child has changed state yet": a call with
  \<^verbatim>\<open>WNOHANG\<close> returns 0 on it, a blocking call waits past it; where the list is used up,
  a polling call returns 0 and a blocking call does not return (\<open>None\<close>). Sizes, job numbers and
  live counts are unbounded integers here; they are proved to stay small where that matters.
\<close>

section \<open>Interface: state with an invariant\<close>

text \<open>A component whose operations keep an invariant, under the conditions the environment meets.\<close>

locale inv_system =
  fixes inv :: "'s \<Rightarrow> bool"
    and env :: "'op \<Rightarrow> 's \<Rightarrow> bool"
    and step :: "'op \<Rightarrow> 's \<Rightarrow> 's"
  assumes step_inv: "inv s \<Longrightarrow> env op s \<Longrightarrow> inv (step op s)"
begin

inductive run :: "'s \<Rightarrow> 'op list \<Rightarrow> 's \<Rightarrow> bool" where
  run_Nil: "run s [] s"
| run_Cons: "env op s \<Longrightarrow> run (step op s) ops t \<Longrightarrow> run s (op # ops) t"

lemma run_inv: "run s ops t \<Longrightarrow> inv s \<Longrightarrow> inv t"
  by (induction rule: run.induct) (auto intro: step_inv)

lemma run_append: "run s ops t \<Longrightarrow> run t ops' u \<Longrightarrow> run s (ops @ ops') u"
  by (induction rule: run.induct) (auto intro: run.intros)

lemma run_fold: "run s ops t \<Longrightarrow> t = fold step ops s"
  by (induction rule: run.induct) auto

end

section \<open>Operations\<close>

datatype wstatus = WStopped | WContinued | WExited
datatype errno = EINTR | ECHILD
datatype wres = WChange pid wstatus | WNothing | WError errno

type_synonym 'e jobtab = "(addr \<times> 'e job_scheme) list"

definition jobs_init :: "'e jobtab" where
  "jobs_init = []"

fun jobs_count :: "'e jobtab \<Rightarrow> nat" where
  "jobs_count [] = 0"
| "jobs_count (e # t) = Suc (jobs_count t)"

text \<open>
  \<^verbatim>\<open>dst->buf + (p - src->buf)\<close>: the offset is kept and the base becomes the new job. (The
  subtraction is defined only for a pointer into the buffer of \<^verbatim>\<open>src\<close>, which is what the
  table invariant below and the parser guarantee.)
\<close>

definition rebase_ptr :: "addr \<Rightarrow> ptr \<Rightarrow> ptr" where
  "rebase_ptr dst p = (dst, snd p)"

definition rebase_cmd :: "addr \<Rightarrow> cmd \<Rightarrow> cmd" where
  "rebase_cmd dst c =
     c\<lparr>argv := (map (map_option (rebase_ptr dst)) (take (argc c) (argv c)) @ drop (argc c) (argv c))
                 [argc c := None],
       infile := map_option (rebase_ptr dst) (infile c),
       outfile := map_option (rebase_ptr dst) (outfile c),
       errfile := map_option (rebase_ptr dst) (errfile c)\<rparr>"

definition rebase_pointers :: "addr \<Rightarrow> 'e job_scheme \<Rightarrow> 'e job_scheme" where
  "rebase_pointers dst j =
     j\<lparr>cmds := map (rebase_cmd dst) (take (ncmds j) (cmds j)) @ drop (ncmds j) (cmds j)\<rparr>"

text \<open>\<open>m\<close> is the result of \<^verbatim>\<open>malloc\<close>, \<open>None\<close> for a null pointer.\<close>

definition jobs_add :: "addr option \<Rightarrow> 'e job_scheme \<Rightarrow> 'e jobtab \<Rightarrow> addr option \<times> 'e jobtab" where
  "jobs_add m proto t =
     (if jobs_count t \<ge> YASH_MAX_JOBS then (None, t)
      else case m of
             None \<Rightarrow> (None, t)
           | Some a \<Rightarrow>
               let job = rebase_pointers a proto;
                   job' = job\<lparr>jid := (if t = [] then 1 else jid (snd (last t)) + 1)\<rparr>
               in (Some a, t @ [(a, job')]))"

fun jobs_remove :: "addr \<Rightarrow> 'e jobtab \<Rightarrow> 'e jobtab" where
  "jobs_remove a [] = []"
| "jobs_remove a ((b, j) # t) = (if b = a then t else (b, j) # jobs_remove a t)"

fun last_such :: "('e job_scheme \<Rightarrow> bool) \<Rightarrow> addr option \<Rightarrow> 'e jobtab \<Rightarrow> addr option" where
  "last_such P found [] = found"
| "last_such P found ((a, j) # t) = last_such P (if P j then Some a else found) t"

definition jobs_current :: "'e jobtab \<Rightarrow> addr option" where
  "jobs_current t = last_such (\<lambda>j. state j = JOB_RUNNING \<or> state j = JOB_STOPPED) None t"

definition jobs_recent_stopped :: "'e jobtab \<Rightarrow> addr option" where
  "jobs_recent_stopped t = last_such (\<lambda>j. state j = JOB_STOPPED) None t"

fun jobs_find_pid :: "pid \<Rightarrow> 'e jobtab \<Rightarrow> addr option" where
  "jobs_find_pid p [] = None"
| "jobs_find_pid p ((a, j) # t) =
     (if \<exists>c \<in> set (take (ncmds j) (cmds j)). cmd_pid c = p then Some a else jobs_find_pid p t)"

definition upd_job :: "addr \<Rightarrow> ('e job_scheme \<Rightarrow> 'e job_scheme) \<Rightarrow> 'e jobtab \<Rightarrow> 'e jobtab" where
  "upd_job a f t = map (\<lambda>(b, j). if b = a then (b, f j) else (b, j)) t"

text \<open>One iteration of the first loop of \<^verbatim>\<open>jobs_reap\<close>, for a positive result of \<^verbatim>\<open>waitpid\<close>.\<close>

definition note_status :: "wstatus \<Rightarrow> 'e job_scheme \<Rightarrow> 'e job_scheme" where
  "note_status st j =
     (case st of
        WStopped \<Rightarrow> j\<lparr>state := JOB_STOPPED\<rparr>
      | WContinued \<Rightarrow> j\<lparr>state := JOB_RUNNING\<rparr>
      | WExited \<Rightarrow>
          let j' = j\<lparr>nlive := nlive j - 1\<rparr>
          in if nlive j' = 0 then j'\<lparr>state := JOB_DONE\<rparr> else j')"

definition reap_event :: "pid \<Rightarrow> wstatus \<Rightarrow> 'e jobtab \<Rightarrow> 'e jobtab" where
  "reap_event p st t =
     (case jobs_find_pid p t of None \<Rightarrow> t | Some a \<Rightarrow> upd_job a (note_status st) t)"

fun reap_loop :: "wres list \<Rightarrow> 'e jobtab \<Rightarrow> wres list \<times> 'e jobtab" where
  "reap_loop [] t = ([], t)"
| "reap_loop (WChange p st # ws) t = reap_loop ws (reap_event p st t)"
| "reap_loop (WNothing # ws) t = (ws, t)"
| "reap_loop (WError e # ws) t = (ws, t)"

definition jobs_print_one :: "'e job_scheme \<Rightarrow> char \<Rightarrow> string \<Rightarrow> string" where
  "jobs_print_one j mark status =
     ''['' @ show_int (jid j) @ ''] '' @ [mark] @ '' '' @ status @ [CHR 0x09] @ cstr (cmdline j) 0
       @ (if background j then '' &'' else []) @ [CHR 0x0A]"

text \<open>
  The second loop of \<^verbatim>\<open>jobs_reap\<close>: the nodes are visited in order (\<^verbatim>\<open>next\<close> is
  read before the node is freed), a finished one is printed and removed from the table.
\<close>

fun reap_sweep :: "'e jobtab \<Rightarrow> 'e jobtab \<Rightarrow> string list \<Rightarrow> 'e jobtab \<times> string list" where
  "reap_sweep [] t out = (t, out)"
| "reap_sweep ((a, j) # rest) t out =
     (if state j = JOB_DONE then
        reap_sweep rest (jobs_remove a t)
          (out @ [jobs_print_one j (if jobs_current t = None then CHR ''+'' else CHR ''-'') ''Done''])
      else reap_sweep rest t out)"

definition jobs_reap :: "wres list \<Rightarrow> 'e jobtab \<Rightarrow> wres list \<times> 'e jobtab \<times> string list" where
  "jobs_reap ws t = (case reap_loop ws t of (ws', t') \<Rightarrow> (ws', reap_sweep t' t' []))"

text \<open>
  The foreground wait. The blocking call is made with \<^verbatim>\<open>WUNTRACED\<close> only; a status other
  than a stop counts as a death, as in the code.
\<close>

fun jobs_wait_fg :: "wres list \<Rightarrow> 'e job_scheme \<Rightarrow> (wres list \<times> 'e job_scheme) option" where
  "jobs_wait_fg ws j =
     (if \<not> nlive j > 0 then Some (ws, j\<lparr>state := JOB_DONE\<rparr>)
      else case ws of
             [] \<Rightarrow> None
           | WNothing # ws' \<Rightarrow> jobs_wait_fg ws' j
           | WError EINTR # ws' \<Rightarrow> jobs_wait_fg ws' j
           | WError ECHILD # ws' \<Rightarrow> Some (ws', j\<lparr>state := JOB_DONE\<rparr>)
           | WChange p WStopped # ws' \<Rightarrow> Some (ws', j\<lparr>state := JOB_STOPPED\<rparr>)
           | WChange p WContinued # ws' \<Rightarrow> jobs_wait_fg ws' (j\<lparr>nlive := nlive j - 1\<rparr>)
           | WChange p WExited # ws' \<Rightarrow> jobs_wait_fg ws' (j\<lparr>nlive := nlive j - 1\<rparr>))"

declare jobs_wait_fg.simps [simp del]

definition jobs_print :: "'e jobtab \<Rightarrow> string list" where
  "jobs_print t =
     map (\<lambda>(a, j). jobs_print_one j (if Some a = jobs_current t then CHR ''+'' else CHR ''-'')
            (if state j = JOB_STOPPED then ''Stopped'' else ''Running'')) t"

text \<open>\<^verbatim>\<open>jobs_kill_all\<close>: the process groups killed, in order, and the table it leaves.\<close>

definition jobs_kill_all :: "'e jobtab \<Rightarrow> pid list \<times> 'e jobtab" where
  "jobs_kill_all t = (map (\<lambda>(a, j). - pgid j) t, [])"

section \<open>The table invariant\<close>

definition cmd_owned :: "addr \<Rightarrow> cmd \<Rightarrow> bool" where
  "cmd_owned a c \<longleftrightarrow> (\<forall>p \<in> set (take (argc c) (argv c)). pred_option (\<lambda>q. fst q = a) p)
     \<and> (\<forall>sl. pred_option (\<lambda>q. fst q = a) (get_slot sl c))"

definition job_owned :: "addr \<Rightarrow> 'e job_scheme \<Rightarrow> bool" where
  "job_owned a j \<longleftrightarrow> (\<forall>c \<in> set (take (ncmds j) (cmds j)). cmd_owned a c)"

text \<open>
  At most 20 jobs, every node at an address of its own, job numbers positive and increasing along
  the list, and no pointer of a job leading out of the job's own buffer.
\<close>

definition tab_inv :: "'e jobtab \<Rightarrow> bool" where
  "tab_inv t \<longleftrightarrow> length t \<le> YASH_MAX_JOBS \<and> distinct (map fst t)
     \<and> sorted_wrt (\<lambda>x y. jid (snd x) < jid (snd y)) t
     \<and> (\<forall>(a, j) \<in> set t. 1 \<le> jid j \<and> job_owned a j)"

lemma jobs_count_length [simp]: "jobs_count t = length t"
  by (induction t) auto

lemma get_slot_rebase [simp]: "get_slot sl (rebase_cmd a c) = map_option (rebase_ptr a) (get_slot sl c)"
  by (cases sl) (simp_all add: rebase_cmd_def)

lemma rebase_cmd_frame [simp]: "argc (rebase_cmd a c) = argc c" "cmd_pid (rebase_cmd a c) = cmd_pid c"
  by (simp_all add: rebase_cmd_def)

lemma take_argv_rebase:
  "take (argc c) (argv (rebase_cmd a c)) = map (map_option (rebase_ptr a)) (take (argc c) (argv c))"
proof (cases "argc c \<le> length (argv c)")
  case True
  then show ?thesis by (simp add: rebase_cmd_def take_update_swap list_update_beyond)
qed (simp add: rebase_cmd_def list_update_beyond)

lemma cmd_owned_rebase: "cmd_owned a (rebase_cmd a c)"
  unfolding cmd_owned_def rebase_cmd_frame take_argv_rebase
  by (auto simp: option.pred_map rebase_ptr_def pred_option_def)

lemma rebase_pointers_frame [simp]:
  "ncmds (rebase_pointers a j) = ncmds j" "background (rebase_pointers a j) = background j"
  "state (rebase_pointers a j) = state j" "nlive (rebase_pointers a j) = nlive j"
  "pgid (rebase_pointers a j) = pgid j" "buf (rebase_pointers a j) = buf j"
  "cmdline (rebase_pointers a j) = cmdline j" "jid (rebase_pointers a j) = jid j"
  "job.more (rebase_pointers a j) = job.more j" "length (cmds (rebase_pointers a j)) = length (cmds j)"
  by (simp_all add: rebase_pointers_def)

lemma take_cmds_rebase:
  "take (ncmds j) (cmds (rebase_pointers a j)) = map (rebase_cmd a) (take (ncmds j) (cmds j))"
  by (cases "ncmds j \<le> length (cmds j)") (simp_all add: rebase_pointers_def)

lemma job_owned_rebase: "job_owned a (rebase_pointers a j)"
  by (auto simp: job_owned_def take_cmds_rebase cmd_owned_rebase)

lemma jobs_init_inv: "tab_inv jobs_init"
  by (simp add: tab_inv_def jobs_init_def)

lemma sorted_wrt_snoc_jid:
  assumes "sorted_wrt (\<lambda>x y. jid (snd x) < jid (snd y)) t" and "t \<noteq> []" and "e \<in> set t"
  shows "jid (snd e) \<le> jid (snd (last t))"
  using assms by (induction t) (auto simp: less_imp_le)

lemma last_jid_Max:
  assumes "tab_inv t"
  shows "(if t = [] then 1 else jid (snd (last t)) + 1) = 1 + Max (insert 0 (jid ` snd ` set t))"
proof (cases "t = []")
  case False
  have le: "jid (snd e) \<le> jid (snd (last t))" if "e \<in> set t" for e
    using sorted_wrt_snoc_jid [OF _ False that] assms by (simp add: tab_inv_def)
  have "\<forall>e \<in> set t. 1 \<le> jid (snd e)" using assms by (auto simp: tab_inv_def)
  then have "0 \<le> jid (snd (last t))" using last_in_set [OF False] by fastforce
  moreover have "jid (snd (last t)) \<in> jid ` snd ` set t" using False by simp
  ultimately have "Max (insert 0 (jid ` snd ` set t)) = jid (snd (last t))" using le by (intro Max_eqI) auto
  then show ?thesis using False by simp
qed simp

lemma jobs_add_inv:
  assumes "tab_inv t" and "\<forall>a. m = Some a \<longrightarrow> a \<notin> fst ` set t"
  shows "tab_inv (snd (jobs_add m proto t))"
proof (cases "length t \<ge> YASH_MAX_JOBS \<or> m = None")
  case True
  with assms(1) show ?thesis by (auto simp: jobs_add_def split: option.splits)
next
  case False
  then obtain a where a: "m = Some a" "length t < YASH_MAX_JOBS" by auto
  let ?n = "if t = [] then 1 else jid (snd (last t)) + 1"
  have "jid (snd e) < ?n" if "e \<in> set t" for e
    using sorted_wrt_snoc_jid [OF _ _ that] that assms(1) by (fastforce simp: tab_inv_def)
  moreover have "1 \<le> ?n"
    using assms(1) by (cases t rule: rev_cases) (auto simp: tab_inv_def)
  moreover define J where "J = (rebase_pointers a proto)\<lparr>jid := ?n\<rparr>"
  moreover have "job_owned a J"
    using job_owned_rebase [of a proto] by (simp add: J_def job_owned_def)
  moreover have "snd (jobs_add m proto t) = t @ [(a, J)]"
    using a by (simp add: jobs_add_def J_def)
  moreover have "jid J = ?n" by (simp add: J_def)
  ultimately show ?thesis
    using assms a unfolding tab_inv_def by (simp add: sorted_wrt_append)
qed

lemma jobs_remove_filter: "distinct (map fst t) \<Longrightarrow> jobs_remove a t = filter (\<lambda>e. fst e \<noteq> a) t"
proof (induction a t rule: jobs_remove.induct)
  case (2 a b j t)
  then have "filter (\<lambda>e. fst e \<noteq> a) t = t" if "b = a"
    using that by (intro filter_True) auto
  with 2 show ?case by auto
qed simp

lemma tab_inv_filter: "tab_inv t \<Longrightarrow> tab_inv (filter P t)"
  unfolding tab_inv_def
  by (auto simp: sorted_wrt_filter distinct_map_filter intro: order_trans [OF length_filter_le])

lemma jobs_remove_inv: "tab_inv t \<Longrightarrow> tab_inv (jobs_remove a t)"
  using jobs_remove_filter [of t a] tab_inv_filter [of t "\<lambda>e. fst e \<noteq> a"] by (simp add: tab_inv_def)

definition keeps_frame :: "('e job_scheme \<Rightarrow> 'e job_scheme) \<Rightarrow> bool" where
  "keeps_frame f \<longleftrightarrow> (\<forall>j. jid (f j) = jid j \<and> cmds (f j) = cmds j \<and> ncmds (f j) = ncmds j)"

lemma fst_upd_job [simp]: "map fst (upd_job a f t) = map fst t"
  by (auto simp: upd_job_def)

lemma length_upd_job [simp]: "length (upd_job a f t) = length t"
  by (simp add: upd_job_def)

lemma upd_job_inv:
  assumes "keeps_frame f" and "tab_inv t"
  shows "tab_inv (upd_job a f t)"
proof -
  define g where "g = (\<lambda>(b, j). if b = a then (b, f j) else (b, j))"
  have g: "fst (g e) = fst e" "jid (snd (g e)) = jid (snd e)" "job_owned b (snd (g e)) = job_owned b (snd e)"
    for e b
    using assms(1) by (cases e; simp add: g_def keeps_frame_def job_owned_def)+
  have m: "upd_job a f t = map g t" by (simp add: upd_job_def g_def)
  have all: "\<forall>e \<in> set t. 1 \<le> jid (snd e) \<and> job_owned (fst e) (snd e)"
    using assms(2) by (auto simp: tab_inv_def)
  have "\<forall>e \<in> set (map g t). 1 \<le> jid (snd e) \<and> job_owned (fst e) (snd e)"
    using all by (simp add: g)
  moreover have "fst \<circ> g = fst" by (simp add: fun_eq_iff g)
  moreover have "sorted_wrt (\<lambda>x y. jid (snd x) < jid (snd y)) (map g t)"
    using assms(2) by (simp add: tab_inv_def sorted_wrt_map g)
  ultimately show ?thesis
    using assms(2) unfolding m tab_inv_def by (simp add: case_prod_beta)
qed

lemma keeps_frame_note [simp]: "keeps_frame (note_status st)"
  by (auto simp: keeps_frame_def note_status_def Let_def split: wstatus.splits)

lemma reap_event_inv: "tab_inv t \<Longrightarrow> tab_inv (reap_event p st t)"
  by (auto simp: reap_event_def upd_job_inv split: option.split)

lemma reap_loop_inv: "reap_loop ws t = (ws', t') \<Longrightarrow> tab_inv t \<Longrightarrow> tab_inv t'"
  by (induction ws t rule: reap_loop.induct) (auto simp: reap_event_inv)

section \<open>The copy in the table denotes the same line\<close>

lemma list_all2_rebase:
  assumes "cmd_denotes pa b c pc"
  shows "list_all2 (ptr_denotes a b) (argv (rebase_cmd a c)) (padded (args pc))"
proof -
  let ?n = "length (args pc)"
  have A: "list_all2 (ptr_denotes pa b) (argv c) (padded (args pc))" and n: "argc c = ?n"
    and le: "?n \<le> YASH_MAX_ARGS"
    using assms by (auto simp: cmd_denotes_def)
  have move: "ptr_denotes a b (map_option (rebase_ptr a) p) s" if "ptr_denotes pa b p s" for p s
    using that by (cases s) (auto simp: ptr_denotes_def rebase_ptr_def)
  have tk: "list_all2 (ptr_denotes a b) (map (map_option (rebase_ptr a)) (take ?n (argv c))) (take ?n (padded (args pc)))"
    using list_all2_takeI [OF A, of ?n] move by (auto simp: list_all2_map1 intro: list_all2_mono)
  have "drop ?n (padded (args pc)) = replicate (YASH_MAX_ARGS + 1 - ?n) None"
    by (simp add: padded_def)
  then have "list_all2 (ptr_denotes pa b) (drop ?n (argv c)) (replicate (YASH_MAX_ARGS + 1 - ?n) None)"
    using list_all2_dropI [OF A, of ?n] by simp
  then have "list_all2 (ptr_denotes a b) (drop ?n (argv c)) (replicate (YASH_MAX_ARGS + 1 - ?n) None)"
    by (auto simp: list_all2_conv_all_nth)
  with tk have "list_all2 (ptr_denotes a b)
      (map (map_option (rebase_ptr a)) (take ?n (argv c)) @ drop ?n (argv c)) (padded (args pc))"
    using \<open>drop ?n (padded (args pc)) = _\<close>
    by (metis append_take_drop_id list_all2_appendI)
  from list_all2_update_cong [OF this, of None None ?n] padded_stop [OF le] n show ?thesis
    by (simp add: rebase_cmd_def)
qed

lemma cmd_denotes_rebase: "cmd_denotes pa b c pc \<Longrightarrow> cmd_denotes a b (rebase_cmd a c) pc"
proof -
  assume den: "cmd_denotes pa b c pc"
  have "ptr_denotes a b (map_option (rebase_ptr a) p) s" if "ptr_denotes pa b p s" for p s
    using that by (cases s) (auto simp: ptr_denotes_def rebase_ptr_def)
  with den list_all2_rebase [OF den] show ?thesis
    by (simp add: cmd_denotes_def)
qed

lemma job_denotes_rebase:
  assumes "job_denotes pa j pl"
  shows "job_denotes a (rebase_pointers a j) pl"
proof -
  have "length (cmds j) = 2" using assms by (simp add: job_denotes_def YASH_MAX_CMDS_def)
  then obtain c d where "cmds j = [c, d]"
    by (auto simp: length_Suc_conv numeral_2_eq_2)
  then show ?thesis
    using assms cmd_denotes_rebase
    by (fastforce simp: job_denotes_def rebase_pointers_def YASH_MAX_CMDS_def split: pline.splits)
qed

lemma job_denotes_jid [simp]: "job_denotes a (j\<lparr>jid := n\<rparr>) pl = job_denotes a j pl"
  by (cases pl) (simp_all add: job_denotes_def)

section \<open>Which job is current\<close>

lemma last_such_append: "last_such P found (xs @ ys) = last_such P (last_such P found xs) ys"
  by (induction P found xs rule: last_such.induct) auto

lemma last_such_none: "\<forall>(b, k) \<in> set ys. \<not> P k \<Longrightarrow> last_such P found ys = found"
  by (induction P found ys rule: last_such.induct) auto

lemma last_such_Some_iff:
  "last_such P None t = Some a \<longleftrightarrow> (\<exists>xs j ys. t = xs @ (a, j) # ys \<and> P j \<and> (\<forall>(b, k) \<in> set ys. \<not> P k))"
proof (induction t rule: rev_induct)
  case (snoc e t)
  obtain b k where e: "e = (b, k)" by (cases e)
  show ?case
  proof (cases "P k")
    case True
    have "last_such P None (t @ [e]) = Some b"
      using True by (simp add: e last_such_append)
    moreover have "b = a" if "t @ [e] = xs @ (a, j) # ys" "\<forall>(b, k) \<in> set ys. \<not> P k" for xs j ys
      using that True by (cases ys rule: rev_cases) (auto simp: e)
    moreover have "t @ [e] = t @ (b, k) # [] \<and> P k \<and> (\<forall>(b, k) \<in> set []. \<not> P k)"
      using True by (simp add: e)
    ultimately show ?thesis by (metis option.inject)
  next
    case False
    have "(\<exists>xs j ys. t @ [e] = xs @ (a, j) # ys \<and> P j \<and> (\<forall>(b, k) \<in> set ys. \<not> P k))
      \<longleftrightarrow> (\<exists>xs j ys. t = xs @ (a, j) # ys \<and> P j \<and> (\<forall>(b, k) \<in> set ys. \<not> P k))" (is "?L = ?R")
    proof
      assume ?L
      then obtain xs j ys where L: "t @ [e] = xs @ (a, j) # ys" "P j" "\<forall>(b, k) \<in> set ys. \<not> P k" by blast
      with False obtain zs where "ys = zs @ [e]"
        by (cases ys rule: rev_cases) (auto simp: e)
      with L show ?R by auto
    next
      assume ?R
      then obtain xs j ys where "t = xs @ (a, j) # ys" "P j" "\<forall>(b, k) \<in> set ys. \<not> P k" by blast
      then have "t @ [e] = xs @ (a, j) # (ys @ [e]) \<and> P j \<and> (\<forall>(b, k) \<in> set (ys @ [e]). \<not> P k)"
        using False by (auto simp: e)
      then show ?L by blast
    qed
    with False snoc show ?thesis by (simp add: e last_such_append)
  qed
qed simp

lemma last_such_None_iff: "last_such P None t = None \<longleftrightarrow> (\<forall>(b, k) \<in> set t. \<not> P k)"
proof (induction t rule: rev_induct)
  case (snoc e t)
  then show ?case by (cases e) (simp add: last_such_append)
qed simp

lemma last_such_max:
  assumes "tab_inv t" and "last_such P None t = Some a"
  shows "\<exists>j. (a, j) \<in> set t \<and> P j \<and> (\<forall>(b, k) \<in> set t. P k \<longrightarrow> jid k \<le> jid j)"
proof -
  from assms(2) obtain xs j ys where t: "t = xs @ (a, j) # ys" "P j" "\<forall>(b, k) \<in> set ys. \<not> P k"
    unfolding last_such_Some_iff by blast
  have "jid k \<le> jid j" if "(b, k) \<in> set t" "P k" for b k
    using that t assms(1) by (fastforce simp: tab_inv_def sorted_wrt_append)
  with t show ?thesis by auto
qed

abbreviation live :: "'e job_scheme \<Rightarrow> bool" where
  "live j \<equiv> state j = JOB_RUNNING \<or> state j = JOB_STOPPED"

lemma live_iff: "live j \<longleftrightarrow> state j \<noteq> JOB_DONE"
  by (cases "state j") auto

section \<open>Reaping\<close>

lemma jobs_remove_middle:
  "a \<notin> fst ` set xs \<Longrightarrow> jobs_remove a (xs @ (a, j) # ys) = xs @ ys"
  by (induction xs) auto

definition done_mark :: "'e jobtab \<Rightarrow> char" where
  "done_mark t = (if \<forall>(a, j) \<in> set t. state j = JOB_DONE then CHR ''+'' else CHR ''-'')"

lemma reap_sweep_gen:
  assumes "distinct (map fst (pre @ rest))"
  shows "reap_sweep rest (filter (\<lambda>(a, j). state j \<noteq> JOB_DONE) pre @ rest) out
    = (filter (\<lambda>(a, j). state j \<noteq> JOB_DONE) (pre @ rest),
       out @ map (\<lambda>(a, j). jobs_print_one j (done_mark (pre @ rest)) ''Done'')
               (filter (\<lambda>(a, j). state j = JOB_DONE) rest))"
  using assms
proof (induction rest arbitrary: pre out)
  case (Cons e rest)
  obtain a j where e: "e = (a, j)" by (cases e)
  have dist: "distinct (map fst ((pre @ [e]) @ rest))" using Cons.prems by simp
  note IH = Cons.IH [OF dist]
  have cur: "jobs_current (filter (\<lambda>(a, j). state j \<noteq> JOB_DONE) pre @ e # rest) = None
      \<longleftrightarrow> (\<forall>(a, j) \<in> set (pre @ e # rest). state j = JOB_DONE)"
    unfolding jobs_current_def last_such_None_iff live_iff by auto
  show ?case
  proof (cases "state j = JOB_DONE")
    case True
    have "a \<notin> fst ` set (filter (\<lambda>(a, j). state j \<noteq> JOB_DONE) pre)"
      using Cons.prems by (auto simp: e)
    with True IH cur show ?thesis
      by (simp add: e jobs_remove_middle done_mark_def)
  next
    case False
    with IH show ?thesis by (simp add: e)
  qed
qed simp

lemma reap_sweep_eq:
  "distinct (map fst t) \<Longrightarrow> reap_sweep t t []
    = (filter (\<lambda>(a, j). state j \<noteq> JOB_DONE) t,
       map (\<lambda>(a, j). jobs_print_one j (done_mark t) ''Done'') (filter (\<lambda>(a, j). state j = JOB_DONE) t))"
  using reap_sweep_gen [of "[]" t "[]"] by simp

subsection \<open>Agreement with the kernel\<close>

text \<open>
  \<open>A\<close> is the set of children that are alive. The table agrees with it when the recorded process ids
  are all different, each job's live count is the number of its processes in \<open>A\<close>, and exactly the
  jobs without a live process are done.
\<close>

definition job_pids :: "'e job_scheme \<Rightarrow> pid list" where
  "job_pids j = filter (\<lambda>p. p \<noteq> 0) (map cmd_pid (take (ncmds j) (cmds j)))"

definition alive_count :: "pid set \<Rightarrow> 'e job_scheme \<Rightarrow> int" where
  "alive_count A j = int (length (filter (\<lambda>p. p \<in> A) (job_pids j)))"

definition link :: "pid set \<Rightarrow> 'e jobtab \<Rightarrow> bool" where
  "link A t \<longleftrightarrow> 0 \<notin> A \<and> distinct (concat (map (job_pids \<circ> snd) t))
     \<and> (\<forall>(a, j) \<in> set t. nlive j = alive_count A j \<and> (state j = JOB_DONE \<longleftrightarrow> nlive j = 0))"

text \<open>The reports of one sweep, each about a child that is alive when it is made.\<close>

fun after_events :: "pid set \<Rightarrow> wres list \<Rightarrow> pid set option" where
  "after_events A [] = Some A"
| "after_events A (WChange p st # ws) =
     (if p \<in> A then after_events (if st = WExited then A - {p} else A) ws else None)"
| "after_events A (WNothing # ws) = Some A"
| "after_events A (WError e # ws) = Some A"

lemma jobs_find_pid_None: "jobs_find_pid p t = None \<Longrightarrow> (a, j) \<in> set t \<Longrightarrow> p \<notin> set (job_pids j)"
  by (induction p t rule: jobs_find_pid.induct) (auto simp: job_pids_def split: if_splits)

lemma jobs_find_pid_Some:
  "jobs_find_pid p t = Some a \<Longrightarrow> p \<noteq> 0 \<Longrightarrow> \<exists>j. (a, j) \<in> set t \<and> p \<in> set (job_pids j)"
  by (induction p t rule: jobs_find_pid.induct) (auto simp: job_pids_def split: if_splits)

lemma distinct_concat_unique:
  "distinct (concat (map f t)) \<Longrightarrow> x \<in> set t \<Longrightarrow> y \<in> set t \<Longrightarrow> p \<in> set (f x) \<Longrightarrow> p \<in> set (f y) \<Longrightarrow> x = y"
  by (induction t) auto

lemma filter_remove_count:
  "distinct ps \<Longrightarrow> p \<in> set ps \<Longrightarrow> p \<in> A \<Longrightarrow>
   int (length (filter (\<lambda>q. q \<in> A - {p}) ps)) = int (length (filter (\<lambda>q. q \<in> A) ps)) - 1"
proof (induction ps)
  case (Cons q ps)
  have "filter (\<lambda>x. x \<in> A \<and> x \<noteq> p) ps = filter (\<lambda>x. x \<in> A) ps" if "p \<notin> set ps"
    using that by (intro filter_cong) auto
  with Cons show ?case by (cases "q = p") auto
qed simp

lemma alive_count_other: "p \<notin> set (job_pids j) \<Longrightarrow> alive_count (A - {p}) j = alive_count A j"
  unfolding alive_count_def by (intro arg_cong [of _ _ "\<lambda>xs. int (length xs)"] filter_cong) auto

lemma alive_count_pos: "p \<in> A \<Longrightarrow> p \<in> set (job_pids j) \<Longrightarrow> alive_count A j > 0"
  by (auto simp: alive_count_def length_greater_0_conv filter_empty_conv)

lemma job_pids_note [simp]: "job_pids (note_status st j) = job_pids j"
  by (auto simp: job_pids_def note_status_def Let_def split: wstatus.splits)

lemma pgid_note [simp]: "pgid (note_status st j) = pgid j"
  by (auto simp: note_status_def Let_def split: wstatus.splits)

lemma job_pids_upd:
  "map (job_pids \<circ> snd) (upd_job a (note_status st) t) = map (job_pids \<circ> snd) t"
  by (auto simp: upd_job_def)

lemma note_status_link:
  assumes "nlive j = alive_count A j" and "state j = JOB_DONE \<longleftrightarrow> nlive j = 0"
    and "p \<in> A" and "p \<in> set (job_pids j)" and "distinct (job_pids j)"
    and "A' = (if st = WExited then A - {p} else A)"
  shows "nlive (note_status st j) = alive_count A' (note_status st j)
    \<and> (state (note_status st j) = JOB_DONE \<longleftrightarrow> nlive (note_status st j) = 0)"
proof -
  have "alive_count (A - {p}) j = alive_count A j - 1"
    using assms(3-5) filter_remove_count [of "job_pids j" p A] by (simp add: alive_count_def)
  moreover have "alive_count A j > 0" using assms(3,4) by (rule alive_count_pos)
  moreover have "alive_count B (note_status st j) = alive_count B j" for B
    by (simp add: alive_count_def)
  ultimately show ?thesis
    using assms(1,2,6) by (cases st) (auto simp: note_status_def Let_def)
qed

lemma reap_event_link:
  assumes L: "link A t" and p: "p \<in> A" and "distinct (map fst t)"
  shows "link (if st = WExited then A - {p} else A) (reap_event p st t)"
proof (cases "jobs_find_pid p t")
  case None
  then have "p \<notin> set (job_pids j)" if "(a, j) \<in> set t" for a j
    using that jobs_find_pid_None by blast
  with L None show ?thesis
    by (auto simp: link_def reap_event_def alive_count_other)
next
  case (Some a)
  from p L have "p \<noteq> 0" by (auto simp: link_def)
  with Some obtain j where j: "(a, j) \<in> set t" "p \<in> set (job_pids j)"
    using jobs_find_pid_Some by blast
  let ?A = "if st = WExited then A - {p} else A"
  have D: "distinct (concat (map (job_pids \<circ> snd) t))" using L by (simp add: link_def)
  have one: "(b, k) = (a, j)" if "(b, k) \<in> set t" "b = a \<or> p \<in> set (job_pids k)" for b k
    using that j assms(3) distinct_concat_unique [OF D that(1) j(1), of p]
    by (auto dest: eq_key_imp_eq_value)
  have "distinct (job_pids j)"
    using D j(1) by (auto simp: distinct_concat_iff)
  moreover have ok: "nlive k = alive_count A k \<and> (state k = JOB_DONE \<longleftrightarrow> nlive k = 0)" if "(b, k) \<in> set t" for b k
    using L that by (auto simp: link_def)
  ultimately have at: "nlive (note_status st j) = alive_count ?A (note_status st j)
      \<and> (state (note_status st j) = JOB_DONE \<longleftrightarrow> nlive (note_status st j) = 0)"
    using note_status_link [of j A p ?A st] p j ok [OF j(1)] by blast
  have "nlive k' = alive_count ?A k' \<and> (state k' = JOB_DONE \<longleftrightarrow> nlive k' = 0)"
    if k': "(b, k') \<in> set (upd_job a (note_status st) t)" for b k'
  proof -
    from k' obtain k where k: "(b, k) \<in> set t" "k' = (if b = a then note_status st k else k)"
      by (auto simp: upd_job_def split: if_splits)
    show ?thesis
    proof (cases "b = a")
      case True
      with one [OF k(1)] k at show ?thesis by simp
    next
      case False
      with one [OF k(1)] have "p \<notin> set (job_pids k)" by blast
      with alive_count_other [of p k A] ok [OF k(1)] k False show ?thesis by simp
    qed
  qed
  then show ?thesis
    using L Some by (auto simp: link_def reap_event_def job_pids_upd)
qed

lemma fst_reap_event [simp]: "map fst (reap_event p st t) = map fst t"
  by (simp add: reap_event_def split: option.split)

lemma reap_loop_link:
  "reap_loop ws t = (ws', t') \<Longrightarrow> after_events A ws = Some A' \<Longrightarrow> link A t \<Longrightarrow> distinct (map fst t) \<Longrightarrow> link A' t'"
proof (induction ws t arbitrary: A rule: reap_loop.induct)
  case (2 p st ws t)
  let ?A = "if st = WExited then A - {p} else A"
  from 2 have "p \<in> A" "after_events ?A ws = Some A'" by (auto split: if_splits)
  with 2 show ?case by (auto intro!: "2.IH" [of ?A] reap_event_link simp del: if_split)
qed auto

definition same_pids :: "'e jobtab \<Rightarrow> 'e jobtab \<Rightarrow> bool" where
  "same_pids t t' \<longleftrightarrow> map (\<lambda>(a, j). (a, job_pids j, pgid j)) t' = map (\<lambda>(a, j). (a, job_pids j, pgid j)) t"

lemma same_pids_upd: "same_pids t (upd_job a (note_status st) t)"
  by (auto simp: same_pids_def upd_job_def)

lemma reap_loop_pids: "reap_loop ws t = (ws', t') \<Longrightarrow> same_pids t t'"
proof (induction ws t rule: reap_loop.induct)
  case (2 p st ws t)
  then have "same_pids (reap_event p st t) t'" by simp
  moreover have "same_pids t (reap_event p st t)"
    using same_pids_upd by (auto simp: reap_event_def same_pids_def split: option.split)
  ultimately show ?case by (simp add: same_pids_def)
qed (auto simp: same_pids_def)

lemma filter_same_pids:
  assumes "same_pids t t'"
  shows "map fst (filter (\<lambda>(a, j). Q (job_pids j)) t') = map fst (filter (\<lambda>(a, j). Q (job_pids j)) t)"
proof -
  have "map fst (filter (\<lambda>(a, j). Q (job_pids j)) u)
      = map fst (filter (\<lambda>(a, ps, g). Q ps) (map (\<lambda>(a, j). (a, job_pids j, pgid j)) u))" for u :: "'e jobtab"
    by (induction u) auto
  from this [of t] this [of t'] assms show ?thesis by (simp only: same_pids_def)
qed

lemma alive_count_zero: "alive_count A j = 0 \<longleftrightarrow> (\<forall>p \<in> set (job_pids j). p \<notin> A)"
  by (auto simp: alive_count_def filter_empty_conv)

lemma distinct_concat_filter: "distinct (concat (map f t)) \<Longrightarrow> distinct (concat (map f (filter P t)))"
  by (induction t) auto

lemma link_filter: "link A t \<Longrightarrow> link A (filter P t)"
  by (auto simp: link_def distinct_concat_filter)

lemma filter_key: "distinct (map fst t) \<Longrightarrow> (a, j) \<in> set t \<Longrightarrow> filter (\<lambda>(b, k). b = a) t = [(a, j)]"
proof (induction t)
  case (Cons e t)
  obtain b k where e: "e = (b, k)" by (cases e)
  show ?case
  proof (cases "b = a")
    case True
    with Cons.prems e have "a \<notin> fst ` set t" by simp
    then have "\<forall>x \<in> set t. fst x \<noteq> a" by (metis image_eqI)
    then have "filter (\<lambda>(b, k). b = a) t = []" by (simp add: filter_empty_conv case_prod_beta)
    moreover from \<open>a \<notin> fst ` set t\<close> have "(a, j) \<notin> set t" by (metis fst_conv image_eqI)
    ultimately show ?thesis using True Cons.prems e by auto
  qed (use Cons e in auto)
qed simp

section \<open>Properties of the job table\<close>

text \<open>
  C23. Adding a job: unless the table already holds 20 jobs or \<^verbatim>\<open>malloc\<close> fails, the new node is
  the last of the list, its number is one more than the largest in use (1 in an empty table), the
  copy denotes the same line as the prototype through pointers into its own buffer and has its state,
  counts and group, and the invariant of the table is kept. Otherwise nothing changes.
\<close>

theorem jobs_add_correct:
  assumes "tab_inv t" and "\<forall>a. m = Some a \<longrightarrow> a \<notin> fst ` set t" and "job_denotes pa proto pl"
  shows "(length t \<ge> YASH_MAX_JOBS \<or> m = None) \<and> jobs_add m proto t = (None, t)
    \<or> length t < YASH_MAX_JOBS \<and> m \<noteq> None \<and> (\<exists>j. jobs_add m proto t = (m, t @ [(the m, j)])
        \<and> tab_inv (t @ [(the m, j)]) \<and> job_denotes (the m) j pl \<and> job_owned (the m) j
        \<and> jid j = 1 + Max (insert 0 (jid ` snd ` set t)) \<and> background j = background proto
        \<and> cmdline j = cmdline proto \<and> state j = state proto \<and> nlive j = nlive proto \<and> pgid j = pgid proto)"
proof (cases "length t \<ge> YASH_MAX_JOBS \<or> m = None")
  case True
  then show ?thesis by (auto simp: jobs_add_def split: option.splits)
next
  case False
  then obtain b where b: "m = Some b" "length t < YASH_MAX_JOBS" by auto
  let ?j = "(rebase_pointers b proto)\<lparr>jid := (if t = [] then 1 else jid (snd (last t)) + 1)\<rparr>"
  have add: "jobs_add m proto t = (m, t @ [(b, ?j)])"
    using b by (simp add: jobs_add_def)
  have "tab_inv (t @ [(b, ?j)])"
    using jobs_add_inv [OF assms(1), of m proto] assms(2) unfolding add by (simp del: if_split)
  moreover from this have "job_owned b ?j" by (auto simp: tab_inv_def)
  moreover have "jid ?j = 1 + Max (insert 0 (jid ` snd ` set t))" using last_jid_Max [OF assms(1)] by simp
  moreover have "job_denotes b ?j pl"
    using job_denotes_rebase [OF assms(3)] by simp
  ultimately show ?thesis
    using add b by auto
qed

text \<open>
  The job that \<^verbatim>\<open>fg\<close> takes and that \<^verbatim>\<open>jobs\<close> marks with \<^verbatim>\<open>+\<close> is the same one: the
  running or stopped job with the largest number. It exists unless every job is done, and exactly
  one line of the listing carries the mark.
\<close>

lemma jobs_current_most_recent:
  assumes "tab_inv t"
  shows "(jobs_current t = None \<longleftrightarrow> (\<forall>(b, k) \<in> set t. state k = JOB_DONE))
    \<and> (\<forall>a. jobs_current t = Some a \<longrightarrow>
         (\<exists>j. (a, j) \<in> set t \<and> state j \<noteq> JOB_DONE \<and> (\<forall>(b, k) \<in> set t. state k \<noteq> JOB_DONE \<longrightarrow> jid k \<le> jid j)
           \<and> filter (\<lambda>(b, k). Some b = jobs_current t) t = [(a, j)]))"
proof (intro conjI allI impI)
  show "jobs_current t = None \<longleftrightarrow> (\<forall>(b, k) \<in> set t. state k = JOB_DONE)"
    unfolding jobs_current_def last_such_None_iff live_iff by simp
next
  fix a assume a: "jobs_current t = Some a"
  from last_such_max [OF assms a [unfolded jobs_current_def]] obtain j where
    j: "(a, j) \<in> set t" "live j" "\<forall>(b, k) \<in> set t. live k \<longrightarrow> jid k \<le> jid j" by blast
  have "distinct (map fst t)" using assms by (simp add: tab_inv_def)
  from filter_key [OF this j(1)] have "filter (\<lambda>(b, k). Some b = jobs_current t) t = [(a, j)]"
    by (simp add: a)
  then show "\<exists>j. (a, j) \<in> set t \<and> state j \<noteq> JOB_DONE \<and> (\<forall>(b, k) \<in> set t. state k \<noteq> JOB_DONE \<longrightarrow> jid k \<le> jid j)
      \<and> filter (\<lambda>(b, k). Some b = jobs_current t) t = [(a, j)]"
    using j unfolding live_iff by (intro exI [of _ j] conjI)
qed

lemma jobs_reap_keeps:
  assumes "tab_inv t" and "link A t" and "after_events A ws = Some A'"
    and "jobs_reap ws t = (ws', t', out)"
  shows "map fst t' = map fst (filter (\<lambda>(a, j). \<exists>p \<in> set (job_pids j). p \<in> A') t)
    \<and> link A' t' \<and> tab_inv t' \<and> (\<forall>(a, j) \<in> set t'. state j \<noteq> JOB_DONE \<and> nlive j > 0)
    \<and> length out = length t - length t'
    \<and> (\<forall>(a, j') \<in> set t'. \<exists>j. (a, j) \<in> set t \<and> job_pids j' = job_pids j \<and> pgid j' = pgid j)"
proof -
  obtain u where u: "reap_loop ws t = (ws', u)" "reap_sweep u u [] = (t', out)"
    using assms(4) by (auto simp: jobs_reap_def split: prod.splits)
  have inv: "tab_inv u" using u(1) assms(1) by (rule reap_loop_inv)
  then have du: "distinct (map fst u)" by (simp add: tab_inv_def)
  have L: "link A' u"
    using reap_loop_link [OF u(1) assms(3,2)] assms(1) by (simp add: tab_inv_def)
  have t': "t' = filter (\<lambda>(a, j). state j \<noteq> JOB_DONE) u"
    and out: "length out = length (filter (\<lambda>(a, j). state j = JOB_DONE) u)"
    using u(2) reap_sweep_eq [OF du] by auto
  have alive: "(state j \<noteq> JOB_DONE) \<longleftrightarrow> (\<exists>p \<in> set (job_pids j). p \<in> A')" if "(a, j) \<in> set u" for a j
    using that L alive_count_zero [of A' j] by (auto simp: link_def)
  have "t' = filter (\<lambda>(a, j). \<exists>p \<in> set (job_pids j). p \<in> A') u"
    unfolding t' using alive by (intro filter_cong) auto
  then have addrs: "map fst t' = map fst (filter (\<lambda>(a, j). \<exists>p \<in> set (job_pids j). p \<in> A') t)"
    using filter_same_pids [OF reap_loop_pids [OF u(1)], of "\<lambda>ps. \<exists>p \<in> set ps. p \<in> A'"] by simp
  have "link A' t'" unfolding t' using L by (rule link_filter)
  have "length u = length t"
    using arg_cong [OF reap_loop_pids [OF u(1), unfolded same_pids_def], of length] by simp
  then have "length out = length t - length t'"
    using out t' sum_length_filter_compl [of "\<lambda>e. state (snd e) = JOB_DONE" u]
    by (simp add: case_prod_beta')
  moreover have "state j \<noteq> JOB_DONE \<and> nlive j > 0" if "(a, j) \<in> set t'" for a j
    using that L alive_count_def [of A' j] by (auto simp: t' link_def)
  moreover have "tab_inv t'" unfolding t' using inv by (rule tab_inv_filter)
  moreover have "\<exists>j. (a, j) \<in> set t \<and> job_pids j' = job_pids j \<and> pgid j' = pgid j" if "(a, j') \<in> set t'" for a j'
  proof -
    from that have "(a, job_pids j', pgid j') \<in> set (map (\<lambda>(a, j). (a, job_pids j, pgid j)) u)"
      by (force simp: t')
    then have "(a, job_pids j', pgid j') \<in> set (map (\<lambda>(a, j). (a, job_pids j, pgid j)) t)"
      using reap_loop_pids [OF u(1)] by (simp only: same_pids_def)
    then show ?thesis by auto
  qed
  ultimately show ?thesis
    using addrs \<open>link A' t'\<close> by blast
qed

text \<open>
  C21. A sweep removes exactly the finished jobs. If the table agrees with the kernel and every report
  is about a living child, then afterwards the table holds, in the same order, the jobs that still
  have a living process, agrees with the kernel again, holds no job that is done, and one line was
  printed for each job removed.
\<close>

theorem jobs_reap_exact:
  assumes "tab_inv t" and "link A t" and "after_events A ws = Some A'"
    and "jobs_reap ws t = (ws', t', out)"
  shows "map fst t' = map fst (filter (\<lambda>(a, j). \<exists>p \<in> set (job_pids j). p \<in> A') t)
    \<and> link A' t' \<and> tab_inv t' \<and> (\<forall>(a, j) \<in> set t'. state j \<noteq> JOB_DONE \<and> nlive j > 0)
    \<and> length out = length t - length t'"
  using jobs_reap_keeps [OF assms] by blast

definition one_job :: "int \<Rightarrow> pid list \<Rightarrow> unit job_scheme" where
  "one_job n ps = (zero_job ())\<lparr>jid := n, state := JOB_RUNNING, ncmds := length ps, nlive := int (length ps),
     pgid := ps ! 0, cmds := map (\<lambda>p. zero_cmd\<lparr>cmd_pid := p\<rparr>) ps\<rparr>"

lemma one_job_simps [simp]:
  "jid (one_job n ps) = n" "state (one_job n ps) = JOB_RUNNING" "nlive (one_job n ps) = int (length ps)"
  "job_owned a (one_job n ps)" "0 \<notin> set ps \<Longrightarrow> job_pids (one_job n ps) = ps"
proof -
  have "get_slot sl (zero_cmd\<lparr>cmd_pid := p\<rparr>) = None" for sl p by (cases sl) (simp_all add: zero_cmd_def)
  then show "job_owned a (one_job n ps)" by (auto simp: one_job_def job_owned_def cmd_owned_def zero_cmd_def)
  show "0 \<notin> set ps \<Longrightarrow> job_pids (one_job n ps) = ps"
    by (auto simp: one_job_def job_pids_def comp_def filter_id_conv)
qed (simp_all add: one_job_def)

theorem jobs_reap_exact_witness:
  "map fst (fst (snd (jobs_reap [WChange 31 WExited, WChange 30 WExited, WNothing]
      [(1, one_job 1 [20, 21]), (2, one_job 2 [30, 31])]))) = [1]"
proof -
  let ?t = "[(1, one_job 1 [20, 21]), (2, one_job 2 [30, 31])]"
  let ?ws = "[WChange 31 WExited, WChange 30 WExited, WNothing]"
  have inv: "tab_inv ?t" by (simp add: tab_inv_def yash_limits)
  have L: "link {20, 21, 30, 31} ?t" by (simp add: link_def alive_count_def)
  have ev: "after_events {20, 21, 30, 31} ?ws = Some {20, 21}" by (auto simp: insert_Diff_if)
  obtain ws' t' out where e: "jobs_reap ?ws ?t = (ws', t', out)" by (metis prod_cases3)
  have "\<exists>p :: int. p = 20 \<or> p = 21" by blast
  with jobs_reap_exact [OF inv L ev e] e show ?thesis by simp
qed

definition quiet :: "wres \<Rightarrow> bool" where
  "quiet w \<longleftrightarrow> w = WNothing \<or> w = WError EINTR \<or> (\<exists>p. w = WChange p WExited)"

fun deaths :: "wres list \<Rightarrow> int" where
  "deaths [] = 0"
| "deaths (WChange p WExited # ws) = 1 + deaths ws"
| "deaths (_ # ws) = deaths ws"

lemma deaths_nonneg: "0 \<le> deaths ws"
  by (induction ws rule: deaths.induct) auto

lemmas jobs_wait_fg_Cons = jobs_wait_fg.simps [of "w # ws" for w ws]

lemma jobs_wait_fg_quiet:
  "\<forall>w \<in> set pre. quiet w \<Longrightarrow> deaths pre < nlive j \<Longrightarrow>
   jobs_wait_fg (pre @ ws) j = jobs_wait_fg ws (j\<lparr>nlive := nlive j - deaths pre\<rparr>)"
proof (induction pre arbitrary: j)
  case (Cons w pre)
  from Cons.prems have "quiet w" and q: "\<forall>w \<in> set pre. quiet w" and d: "deaths (w # pre) < nlive j" by auto
  note IH = Cons.IH [OF q]
  from \<open>quiet w\<close> consider "w = WNothing" | "w = WError EINTR" | p where "w = WChange p WExited"
    unfolding quiet_def by blast
  then show ?case
    by cases (use d deaths_nonneg [of pre] in
      \<open>simp_all add: jobs_wait_fg_Cons IH algebra_simps\<close>)
qed simp

text \<open>
  C25. Waiting for a foreground job. While the children only report deaths, fewer than are alive, the
  wait goes on (interrupted calls are retried); the death of the last child ends it with the job
  done; a stop ends it with the job stopped and the live count reduced by the deaths seen. In each
  case nothing is read beyond the deciding report.
\<close>

theorem jobs_wait_fg_returns:
  assumes "\<forall>w \<in> set pre. quiet w" and "deaths pre < nlive j"
  shows "jobs_wait_fg pre j = None
    \<and> (deaths pre + 1 = nlive j \<longrightarrow>
         jobs_wait_fg (pre @ WChange p WExited # ws) j = Some (ws, j\<lparr>nlive := 0, state := JOB_DONE\<rparr>))
    \<and> jobs_wait_fg (pre @ WChange p WStopped # ws) j
        = Some (ws, j\<lparr>nlive := nlive j - deaths pre, state := JOB_STOPPED\<rparr>)"
  using jobs_wait_fg_quiet [OF assms, of "[]"] jobs_wait_fg_quiet [OF assms, of "WChange p WExited # ws"]
    jobs_wait_fg_quiet [OF assms, of "WChange p WStopped # ws"] assms(2)
  by (simp add: jobs_wait_fg.simps)

theorem jobs_wait_fg_returns_witness:
  "map_option (state \<circ> snd) (jobs_wait_fg [WError EINTR, WChange 20 WExited, WChange 21 WStopped] (one_job 1 [20, 21]))
     = Some JOB_STOPPED"
  using jobs_wait_fg_returns [of "[WError EINTR, WChange 20 WExited]" "one_job 1 [20, 21]" 21 "[]"]
  by (simp add: quiet_def)

theorem jobs_add_correct_witness:
  "\<exists>(proto :: unit job_scheme) j. jobs_add (Some 5) proto [] = (Some 5, [(5, j)]) \<and> jid j = 1
     \<and> job_denotes 5 j (Single (PCmd [''sleep'', ''5''] []) True)"
proof -
  let ?pl = "Single (PCmd [''sleep'', ''5''] []) True"
  have "words_of blanks ''sleep 5 &'' = line_tokens ?pl" by (simp add: words_of.simps blanks_def)
  moreover have "wf_pline ?pl" by (simp add: words_ok_def redirs_ok_def is_operator_def yash_limits)
  ultimately obtain proto :: "unit job_scheme" where d: "job_denotes 7 proto ?pl"
    using parse_line_denoting [of "''sleep 5 &''" ?pl 7 "zero_job ()"] by (auto simp: yash_limits)
  have "tab_inv ([] :: unit jobtab)" using jobs_init_inv by (simp add: jobs_init_def)
  from jobs_add_correct [OF this _ d, of "Some 5"] show ?thesis by (auto simp: yash_limits)
qed

end
