(* ===== verification/Yash_Exec.thy ===== *)
theory Yash_Exec
  imports Yash_Jobs
begin

text \<open>
  Running a parsed line (Project 1): the signal dispositions and terminal of \<^verbatim>\<open>sig.c\<close>,
  the redirections of \<^verbatim>\<open>redirect.c\<close>, and \<^verbatim>\<open>exec_job\<close> of \<^verbatim>\<open>exec.c\<close>.
  A process is its descriptor table, its signal dispositions and its process group. What the kernel
  decides is an input: which paths can be opened and which programs are found (\<open>os\<close>), the pids
  \<^verbatim>\<open>fork\<close> returns, the address \<^verbatim>\<open>malloc\<close> returns and the reports of
  \<^verbatim>\<open>waitpid\<close> (\<open>answers\<close>). Every call with an effect outside the shell's memory is
  an entry of the shell's \<open>trace\<close>.
\<close>

section \<open>Descriptors, signals, processes\<close>

datatype oflags = O_RDONLY | O_WRONLY_CREAT_TRUNC | O_RDWR | O_RDWR_CREAT | O_WRONLY_CREAT_APPEND
datatype ofile = Inherited int | PipeRead | PipeWrite | Opened bytes oflags | InRead nat | InWrite nat | Socket

type_synonym fdtab = "int \<Rightarrow> ofile option"

datatype signo = SIGINT | SIGTSTP | SIGQUIT | SIGTTIN | SIGTTOU | SIGCHLD | SIGCONT | SIGKILL | SIGPIPE | SIGHUP
datatype handler = SIG_DFL | SIG_IGN | Noop_handler | Flag_handler

record os =
  fd_max :: nat
  can_open :: "bytes \<Rightarrow> oflags \<Rightarrow> bool"
  can_exec :: "bytes \<Rightarrow> bool"

record proc =
  fdt :: fdtab
  sigs :: "signo \<Rightarrow> handler"
  grp :: pid
  opened :: "(bytes \<times> oflags \<times> nat) list"
  errors :: "bytes list"

definition STDIN_FILENO :: int where "STDIN_FILENO = 0"
definition STDOUT_FILENO :: int where "STDOUT_FILENO = 1"
definition STDERR_FILENO :: int where "STDERR_FILENO = 2"

lemmas std_fds = STDIN_FILENO_def STDOUT_FILENO_def STDERR_FILENO_def

text \<open>The C library calls: the lowest unused descriptor, \<^verbatim>\<open>dup2\<close>, \<^verbatim>\<open>close\<close>, \<^verbatim>\<open>pipe\<close>.\<close>

definition fd_alloc :: "nat \<Rightarrow> fdtab \<Rightarrow> int option" where
  "fd_alloc lim t = find (\<lambda>n. t n = None) (map int [0..<lim])"

definition c_dup2 :: "nat \<Rightarrow> int \<Rightarrow> int \<Rightarrow> fdtab \<Rightarrow> int \<times> fdtab" where
  "c_dup2 lim old new t =
     (if t old = None \<or> new < 0 \<or> int lim \<le> new then (-1, t) else (new, t(new := t old)))"

definition c_close :: "int \<Rightarrow> fdtab \<Rightarrow> fdtab" where
  "c_close fd t = t(fd := None)"

definition c_pipe :: "nat \<Rightarrow> fdtab \<Rightarrow> ((int \<times> int) \<times> fdtab) option" where
  "c_pipe lim t =
     (case fd_alloc lim t of
        None \<Rightarrow> None
      | Some r \<Rightarrow>
          (case fd_alloc lim (t(r \<mapsto> PipeRead)) of
             None \<Rightarrow> None
           | Some w \<Rightarrow> Some ((r, w), t(r \<mapsto> PipeRead, w \<mapsto> PipeWrite))))"

definition c_open :: "os \<Rightarrow> bytes \<Rightarrow> oflags \<Rightarrow> nat \<Rightarrow> 'p proc_scheme \<Rightarrow> int \<times> 'p proc_scheme" where
  "c_open os path fl md p =
     (if can_open os path fl then
        (case fd_alloc (fd_max os) (fdt p) of
           None \<Rightarrow> (-1, p)
         | Some n \<Rightarrow> (n, p\<lparr>fdt := (fdt p)(n \<mapsto> Opened path fl), opened := opened p @ [(path, fl, md)]\<rparr>))
      else (-1, p))"

section \<open>sig.c\<close>

definition set_handler :: "signo \<Rightarrow> handler \<Rightarrow> 'p proc_scheme \<Rightarrow> 'p proc_scheme" where
  "set_handler s h p = p\<lparr>sigs := (sigs p)(s := h)\<rparr>"

definition sig_reset_child :: "'p proc_scheme \<Rightarrow> 'p proc_scheme" where
  "sig_reset_child p =
     set_handler SIGTTOU SIG_DFL (set_handler SIGTTIN SIG_DFL (set_handler SIGQUIT SIG_DFL
       (set_handler SIGTSTP SIG_DFL (set_handler SIGINT SIG_DFL p))))"

section \<open>redirect.c\<close>

definition open_onto :: "os \<Rightarrow> bytes \<Rightarrow> oflags \<Rightarrow> nat \<Rightarrow> int \<Rightarrow> 'p proc_scheme \<Rightarrow> int \<times> 'p proc_scheme" where
  "open_onto os file flags md target p =
     (case c_open os file flags md p of
        (fd, p1) \<Rightarrow>
          if fd < 0 then (-1, p1\<lparr>errors := errors p1 @ [file]\<rparr>)
          else if fd \<noteq> target then
            (case c_dup2 (fd_max os) fd target (fdt p1) of
               (r, t) \<Rightarrow>
                 if r < 0 then (-1, p1\<lparr>errors := errors p1 @ [file], fdt := c_close fd t\<rparr>)
                 else (0, p1\<lparr>fdt := c_close fd t\<rparr>))
          else (0, p1))"

text \<open>\<^verbatim>\<open>S_IRUSR | S_IWUSR | S_IRGRP | S_IWGRP | S_IROTH\<close>\<close>

definition out_mode :: nat where
  "out_mode = 256 + 128 + 32 + 16 + 4"

text \<open>The C string a pointer into the job's buffer leads to.\<close>

definition str_at :: "bytes \<Rightarrow> ptr \<Rightarrow> bytes" where
  "str_at b q = cstr b (snd q)"

definition redirect_apply :: "os \<Rightarrow> bytes \<Rightarrow> cmd \<Rightarrow> 'p proc_scheme \<Rightarrow> int \<times> 'p proc_scheme" where
  "redirect_apply os b c p =
     (let onto = (\<lambda>f flags md target p. case f of None \<Rightarrow> (0, p)
                                       | Some q \<Rightarrow> open_onto os (str_at b q) flags md target p)
      in case onto (infile c) O_RDONLY 0 STDIN_FILENO p of (r1, p1) \<Rightarrow>
         if r1 < 0 then (-1, p1)
         else case onto (outfile c) O_WRONLY_CREAT_TRUNC out_mode STDOUT_FILENO p1 of (r2, p2) \<Rightarrow>
         if r2 < 0 then (-1, p2)
         else case onto (errfile c) O_WRONLY_CREAT_TRUNC out_mode STDERR_FILENO p2 of (r3, p3) \<Rightarrow>
         if r3 < 0 then (-1, p3) else (0, p3))"

section \<open>exec.c, the child\<close>

datatype child_end = Exec bytes "bytes list" | Exit int

text \<open>The vector a process image is started with: the strings of \<^verbatim>\<open>argv\<close> up to the null pointer.\<close>

definition argv_strings :: "bytes \<Rightarrow> cmd \<Rightarrow> bytes list" where
  "argv_strings b c = map (str_at b \<circ> the) (takeWhile (\<lambda>q. q \<noteq> None) (argv c))"

definition c_execvp :: "os \<Rightarrow> bytes list \<Rightarrow> child_end" where
  "c_execvp os av = (if can_exec os (hd av) then Exec (hd av) av else Exit 127)"

definition child_pipe :: "nat \<Rightarrow> nat \<Rightarrow> int \<times> int \<Rightarrow> fdtab \<Rightarrow> fdtab" where
  "child_pipe lim i fds t =
     (if fst fds \<noteq> -1 then
        let t1 = (if i = 0 then snd (c_dup2 lim (snd fds) STDOUT_FILENO t)
                  else snd (c_dup2 lim (fst fds) STDIN_FILENO t))
        in c_close (snd fds) (c_close (fst fds) t1)
      else t)"

definition exec_child ::
  "os \<Rightarrow> pid \<Rightarrow> nat \<Rightarrow> pid \<Rightarrow> int \<times> int \<Rightarrow> bytes \<Rightarrow> cmd \<Rightarrow> proc \<Rightarrow> proc \<times> child_end" where
  "exec_child os mypid i pg fds b c p =
     (let p1 = p\<lparr>grp := (if pg = 0 then mypid else pg)\<rparr>;
          p2 = sig_reset_child p1;
          p3 = p2\<lparr>fdt := child_pipe (fd_max os) i fds (fdt p2)\<rparr>
      in case redirect_apply os b c p3 of
           (r, p4) \<Rightarrow> if r < 0 then (p4, Exit 1) else (p4, c_execvp os (argv_strings b c)))"

section \<open>exec.c, the shell\<close>

datatype event =
    EFork pid proc child_end
  | ESetpgid pid pid
  | EWait "pid option" wres
  | EKill pid signo
  | ETerm pid
  | EOut string
  | EErr string

record 'e shell = proc +
  shell_pgid :: pid
  tab :: "'e jobtab"
  trace :: "event list"

record answers =
  pipe_ok :: bool
  forks :: "nat \<Rightarrow> pid"
  heap :: "addr option"
  waits :: "wres list"

definition emit :: "event list \<Rightarrow> 'e shell \<Rightarrow> 'e shell" where
  "emit es s = s\<lparr>trace := trace s @ es\<rparr>"

definition sig_init_shell :: "pid \<Rightarrow> 'e shell \<Rightarrow> 'e shell" where
  "sig_init_shell getpid s =
     (let s1 = set_handler SIGTTOU SIG_IGN (set_handler SIGTTIN SIG_IGN (set_handler SIGQUIT Noop_handler
                 (set_handler SIGTSTP Noop_handler (set_handler SIGINT Noop_handler s))))
      in emit [ESetpgid getpid getpid, ETerm getpid] (s1\<lparr>shell_pgid := getpid, grp := getpid\<rparr>))"

definition sig_give_terminal :: "pid \<Rightarrow> 'e shell \<Rightarrow> 'e shell" where
  "sig_give_terminal pg s = (if pg > 0 then emit [ETerm pg] s else s)"

text \<open>The part of the answers that a call has read.\<close>

definition consumed :: "wres list \<Rightarrow> wres list \<Rightarrow> wres list" where
  "consumed ws ws' = take (length ws - length ws') ws"

text \<open>The loop that forks the commands of a job, from command \<open>i\<close> on.\<close>

function fork_loop ::
  "os \<Rightarrow> (nat \<Rightarrow> pid) \<Rightarrow> int \<times> int \<Rightarrow> nat \<Rightarrow> pid \<Rightarrow> 'e job_scheme \<Rightarrow> 'e shell
    \<Rightarrow> pid \<times> 'e job_scheme \<times> 'e shell" where
  "fork_loop os fk fds i pg j s =
     (if i < ncmds j then
        (let pid = fk i in
         if pid < 0 then (pg, j, emit [EErr ''fork''] s)
         else
           let child = exec_child os pid i pg fds (buf j) (cmds j ! i) (proc.truncate s);
               j1 = upd_cmd i (\<lambda>c. c\<lparr>cmd_pid := pid\<rparr>) j;
               pg1 = (if pg = 0 then pid else pg);
               s1 = emit [EFork pid (fst child) (snd child), ESetpgid pid pg1] s
           in fork_loop os fk fds (i + 1) pg1 (j1\<lparr>nlive := nlive j1 + 1\<rparr>) s1)
      else (pg, j, s))"
  by pat_completeness auto

termination fork_loop
  by (relation "measure (\<lambda>(os, fk, fds, i, pg, j, s). ncmds j - i)") (auto simp: upd_cmd_def)

declare fork_loop.simps [simp del]

text \<open>The job at an address of the table; the callers below pass addresses that are in it.\<close>

definition job_at :: "addr \<Rightarrow> 'e jobtab \<Rightarrow> 'e job_scheme" where
  "job_at a t = the (map_of t a)"

text \<open>
  \<^verbatim>\<open>jobs_wait_fg\<close> on the job at \<open>a\<close>, between giving it the terminal and taking it back, and
  the removal of a finished job; the end of \<^verbatim>\<open>exec_job\<close> and of \<^verbatim>\<open>do_fg\<close>.
\<close>

definition wait_and_reclaim :: "wres list \<Rightarrow> addr \<Rightarrow> 'e shell \<Rightarrow> 'e shell option" where
  "wait_and_reclaim ws a s =
     (let j = job_at a (tab s) in
      case jobs_wait_fg ws j of
        None \<Rightarrow> None
      | Some (ws', j') \<Rightarrow>
          let s1 = emit (map (EWait (Some (pgid j))) (consumed ws ws')) s;
              s2 = sig_give_terminal (shell_pgid s1) (s1\<lparr>tab := upd_job a (\<lambda>_. j') (tab s1)\<rparr>)
          in Some (if state j' = JOB_DONE then s2\<lparr>tab := jobs_remove a (tab s2)\<rparr> else s2))"

definition exec_job :: "os \<Rightarrow> answers \<Rightarrow> 'e job_scheme \<Rightarrow> 'e shell \<Rightarrow> 'e shell option" where
  "exec_job os ans proto s =
     (case (if ncmds proto = 2 then
              (if pipe_ok ans then c_pipe (fd_max os) (fdt s) else None)
            else Some ((-1, -1), fdt s)) of
        None \<Rightarrow> Some (emit [EErr ''pipe''] s)
      | Some (fds, t) \<Rightarrow>
          (case fork_loop os (forks ans) fds 0 0 proto (s\<lparr>fdt := t\<rparr>) of
             (pg, proto1, s1) \<Rightarrow>
               let s2 = (if fst fds \<noteq> -1 then s1\<lparr>fdt := c_close (snd fds) (c_close (fst fds) (fdt s1))\<rparr> else s1)
               in if nlive proto1 = 0 then Some s2
                  else
                    (case jobs_add (heap ans) (proto1\<lparr>pgid := pg\<rparr>) (tab s2) of
                       (None, _) \<Rightarrow> Some (emit [EErr ''yash: too many jobs''] s2)
                     | (Some a, t') \<Rightarrow>
                         let s3 = s2\<lparr>tab := t'\<rparr>;
                             job = job_at a t'
                         in if background job then Some s3
                            else wait_and_reclaim (waits ans) a (sig_give_terminal (pgid job) s3))))"

section \<open>Descriptor tables\<close>

lemma fd_alloc_Some: "fd_alloc lim t = Some n \<Longrightarrow> 0 \<le> n \<and> n < int lim \<and> t n = None"
  by (auto simp: fd_alloc_def find_Some_iff)

lemma fd_alloc_cong: "(\<And>n. t n = None \<longleftrightarrow> t' n = None) \<Longrightarrow> fd_alloc lim t = fd_alloc lim t'"
  by (simp add: fd_alloc_def)

lemma c_pipe_Some:
  assumes "c_pipe lim t = Some ((r, w), t')"
  shows "r \<noteq> w \<and> 0 \<le> r \<and> 0 \<le> w \<and> r < int lim \<and> w < int lim \<and> t r = None \<and> t w = None
    \<and> t' = t(r \<mapsto> PipeRead, w \<mapsto> PipeWrite)"
  using assms by (auto simp: c_pipe_def dest!: fd_alloc_Some split: option.splits if_splits)

definition std_open :: "fdtab \<Rightarrow> bool" where
  "std_open t \<longleftrightarrow> t 0 \<noteq> None \<and> t 1 \<noteq> None \<and> t 2 \<noteq> None"

lemma std_open_upd [simp]: "std_open t \<Longrightarrow> std_open (t(n \<mapsto> x))"
  by (simp add: std_open_def)

text \<open>What the redirections of a command ask for, in the order the code performs them.\<close>

definition redirs_of :: "bytes \<Rightarrow> cmd \<Rightarrow> (bytes \<times> oflags \<times> nat \<times> int) list" where
  "redirs_of b c =
     (case infile c of None \<Rightarrow> [] | Some q \<Rightarrow> [(str_at b q, O_RDONLY, 0, STDIN_FILENO)])
     @ (case outfile c of None \<Rightarrow> [] | Some q \<Rightarrow> [(str_at b q, O_WRONLY_CREAT_TRUNC, 436, STDOUT_FILENO)])
     @ (case errfile c of None \<Rightarrow> [] | Some q \<Rightarrow> [(str_at b q, O_WRONLY_CREAT_TRUNC, 436, STDERR_FILENO)])"

text \<open>
  The intended effect of a list of redirections: each target descriptor now refers to the file and
  nothing else changes; the first file that cannot be opened is reported and ends the list.
\<close>

fun redirect_spec ::
  "os \<Rightarrow> (bytes \<times> oflags \<times> nat \<times> int) list \<Rightarrow> 'p proc_scheme \<Rightarrow> int \<times> 'p proc_scheme" where
  "redirect_spec os [] p = (0, p)"
| "redirect_spec os ((f, fl, md, tg) # rs) p =
     (if can_open os f fl \<and> fd_alloc (fd_max os) (fdt p) \<noteq> None then
        redirect_spec os rs (p\<lparr>fdt := (fdt p)(tg \<mapsto> Opened f fl), opened := opened p @ [(f, fl, md)]\<rparr>)
      else (-1, p\<lparr>errors := errors p @ [f]\<rparr>))"

lemma open_onto_eq:
  assumes "fdt p tg \<noteq> None" and "0 \<le> tg" and "tg < int (fd_max os)"
  shows "open_onto os f fl md tg p = redirect_spec os [(f, fl, md, tg)] p"
proof (cases "fd_alloc (fd_max os) (fdt p)")
  case (Some n)
  with assms(1) have n: "0 \<le> n" "fdt p n = None" "n \<noteq> tg"
    using fd_alloc_Some [OF Some] by auto
  have "(fdt p)(n \<mapsto> x, tg \<mapsto> x, n := None) = (fdt p)(tg \<mapsto> x)" for x
    using n by (simp add: fun_eq_iff)
  with n assms Some show ?thesis
    by (simp add: open_onto_def c_open_def c_dup2_def c_close_def)
qed (simp add: open_onto_def c_open_def)

lemma redirect_spec_append:
  "redirect_spec os (rs @ rs') p =
     (case redirect_spec os rs p of (r, p') \<Rightarrow> if r < 0 then (-1, p') else redirect_spec os rs' p')"
  by (induction os rs p rule: redirect_spec.induct) auto

lemma redirect_spec_std_open: "std_open (fdt p) \<Longrightarrow> redirect_spec os rs p = (r, p') \<Longrightarrow> std_open (fdt p')"
  by (induction os rs p rule: redirect_spec.induct) (auto split: if_splits)

lemma redirect_spec_code: "redirect_spec os rs p = (r, p') \<Longrightarrow> r = 0 \<or> r = -1"
  by (induction os rs p rule: redirect_spec.induct) (auto split: if_splits)

lemma redirect_apply_eq:
  assumes "std_open (fdt p)" and "3 \<le> fd_max os"
  shows "redirect_apply os b c p = redirect_spec os (redirs_of b c) p"
proof -
  have onto: "(case f of None \<Rightarrow> (0, q) | Some x \<Rightarrow> open_onto os (str_at b x) fl md tg q)
      = redirect_spec os (case f of None \<Rightarrow> [] | Some x \<Rightarrow> [(str_at b x, fl, md, tg)]) q"
    if "std_open (fdt q)" "tg \<in> {0, 1, 2}" for f fl md tg and q :: "'a proc_scheme"
    using that assms(2) by (auto simp: open_onto_eq std_open_def split: option.split)
  have m: "out_mode = 436" by (simp add: out_mode_def)
  let ?in = "case infile c of None \<Rightarrow> [] | Some q \<Rightarrow> [(str_at b q, O_RDONLY, 0 :: nat, 0 :: int)]"
  let ?out = "case outfile c of None \<Rightarrow> [] | Some q \<Rightarrow> [(str_at b q, O_WRONLY_CREAT_TRUNC, 436 :: nat, 1 :: int)]"
  let ?err = "case errfile c of None \<Rightarrow> [] | Some q \<Rightarrow> [(str_at b q, O_WRONLY_CREAT_TRUNC, 436 :: nat, 2 :: int)]"
  obtain r1 p1 where 1: "redirect_spec os ?in p = (r1, p1)" by (metis prod.exhaust)
  obtain r2 p2 where 2: "redirect_spec os ?out p1 = (r2, p2)" by (metis prod.exhaust)
  obtain r3 p3 where 3: "redirect_spec os ?err p2 = (r3, p3)" by (metis prod.exhaust)
  have std: "std_open (fdt p1)" "std_open (fdt p2)"
    using redirect_spec_std_open [OF assms(1) 1] redirect_spec_std_open [OF _ 2] by blast+
  show ?thesis
    unfolding redirect_apply_def redirs_of_def redirect_spec_append Let_def m std_fds
    using redirect_spec_code [OF 3] by (auto simp: onto assms(1) std 1 2 3)
qed

text \<open>
  C27. Redirections: with the standard descriptors open, \<^verbatim>\<open>redirect_apply\<close> has exactly the
  intended effect, for input, output and error file in this order; the descriptor that
  \<^verbatim>\<open>open\<close> returned is closed again, so no other entry of the table changes, and the first
  file that cannot be opened is named in the message and stops the command. Output files are created
  with mode 0664.
\<close>

theorem redirect_apply_spec:
  assumes "std_open (fdt p)" and "3 \<le> fd_max os"
  shows "redirect_apply os b c p = redirect_spec os (redirs_of b c) p"
  using assms by (rule redirect_apply_eq)

lemma redirect_apply_code:
  assumes "std_open (fdt p)" and "3 \<le> fd_max os" and "redirect_apply os b c p = (r, p')"
  shows "r = 0 \<or> r = -1"
  using redirect_spec_code assms(3) unfolding redirect_apply_eq [OF assms(1,2)] .

lemma redirect_spec_frame: "redirect_spec os rs p = (r, p') \<Longrightarrow> sigs p' = sigs p \<and> grp p' = grp p"
  by (induction os rs p rule: redirect_spec.induct) (auto split: if_splits)

lemma redirect_spec_fdt:
  "redirect_spec os rs p = (r, p') \<Longrightarrow> fdt p' n = fdt p n \<or> (\<exists>f fl. fdt p' n = Some (Opened f fl))"
  by (induction os rs p rule: redirect_spec.induct) (auto split: if_splits)

lemma redirect_spec_ok:
  "redirect_spec os rs p = (0, p') \<Longrightarrow> fdt p' = foldl (\<lambda>t (f, fl, md, tg). t(tg \<mapsto> Opened f fl)) (fdt p) rs"
  by (induction os rs p rule: redirect_spec.induct) (auto split: if_splits)

section \<open>The child\<close>

text \<open>
  The descriptor table a command is to be started with: a redirection decides, then the pipe, then
  what the shell has.
\<close>

definition child_stdio :: "nat \<Rightarrow> bool \<Rightarrow> fdtab \<Rightarrow> pcmd \<Rightarrow> fdtab" where
  "child_stdio i piped t pc =
     t(0 := (case map_of (redirs pc) Infile of Some f \<Rightarrow> Some (Opened f O_RDONLY)
             | None \<Rightarrow> if piped \<and> i \<noteq> 0 then Some PipeRead else t 0),
       1 := (case map_of (redirs pc) Outfile of Some f \<Rightarrow> Some (Opened f O_WRONLY_CREAT_TRUNC)
             | None \<Rightarrow> if piped \<and> i = 0 then Some PipeWrite else t 1),
       2 := (case map_of (redirs pc) Errfile of Some f \<Rightarrow> Some (Opened f O_WRONLY_CREAT_TRUNC)
             | None \<Rightarrow> t 2))"

lemma argv_strings_denotes:
  assumes "cmd_denotes a b c pc"
  shows "argv_strings b c = args pc"
proof -
  have *: "map (str_at b \<circ> the) (takeWhile (\<lambda>q. q \<noteq> None) qs) = as"
    if "list_all2 (ptr_denotes a b) qs (map Some as @ replicate (Suc n) None)" for qs as n
    using that
  proof (induction as arbitrary: qs)
    case Nil
    then show ?case by (cases qs) auto
  next
    case (Cons w as)
    then obtain q qs' where qs: "qs = q # qs'" "ptr_denotes a b q (Some w)"
      "list_all2 (ptr_denotes a b) qs' (map Some as @ replicate (Suc n) None)"
      by (auto simp: list_all2_Cons2)
    then obtain off where "q = Some (a, off)" "cstr b off = w" by (auto simp: ptr_denotes_def)
    with Cons.IH [OF qs(3)] qs(1) show ?case by (simp add: str_at_def)
  qed
  from assms have "list_all2 (ptr_denotes a b) (argv c)
      (map Some (args pc) @ replicate (Suc (YASH_MAX_ARGS - length (args pc))) None)"
    by (auto simp: cmd_denotes_def padded_def Suc_diff_le)
  from * [OF this] show ?thesis by (simp add: argv_strings_def)
qed

lemma redirs_of_denotes:
  assumes "cmd_denotes a b c pc"
  shows "foldl (\<lambda>t (f, fl, md, tg). t(tg \<mapsto> Opened f fl)) t (redirs_of b c)
    = t(0 := (case map_of (redirs pc) Infile of Some f \<Rightarrow> Some (Opened f O_RDONLY) | None \<Rightarrow> t 0),
        1 := (case map_of (redirs pc) Outfile of Some f \<Rightarrow> Some (Opened f O_WRONLY_CREAT_TRUNC) | None \<Rightarrow> t 1),
        2 := (case map_of (redirs pc) Errfile of Some f \<Rightarrow> Some (Opened f O_WRONLY_CREAT_TRUNC) | None \<Rightarrow> t 2))"
proof -
  have "ptr_denotes a b (get_slot sl c) (map_of (redirs pc) sl)" for sl
    using assms by (simp add: cmd_denotes_def)
  from this [of Infile] this [of Outfile] this [of Errfile] show ?thesis
    by (auto simp: redirs_of_def std_fds str_at_def ptr_denotes_def fun_eq_iff split: option.splits)
qed

text \<open>The descriptors a child starts from: the shell's own, and the pipe when there is one.\<close>

definition pipe_state :: "nat \<Rightarrow> bool \<Rightarrow> fdtab \<Rightarrow> int \<times> int \<Rightarrow> fdtab \<Rightarrow> bool" where
  "pipe_state lim piped t0 fds t \<longleftrightarrow>
     (if piped then c_pipe lim t0 = Some (fds, t) else fds = (-1, -1) \<and> t = t0)"

lemma child_pipe_eq:
  assumes "pipe_state lim piped t0 fds t" and "std_open t0" and "2 \<le> lim"
  shows "child_pipe lim i fds t = (if piped then (if i = 0 then t0(1 \<mapsto> PipeWrite) else t0(0 \<mapsto> PipeRead)) else t0)"
proof (cases piped)
  case True
  obtain r w where fds: "fds = (r, w)" by (cases fds)
  with assms True have p: "r \<noteq> w" "0 \<le> r" "0 \<le> w" "t0 r = None" "t0 w = None"
    "t = t0(r \<mapsto> PipeRead, w \<mapsto> PipeWrite)"
    using c_pipe_Some by (auto simp: pipe_state_def)
  moreover from p assms(2) have "r \<noteq> 0" "r \<noteq> 1" "w \<noteq> 0" "w \<noteq> 1" by (auto simp: std_open_def)
  ultimately show ?thesis
    using True assms(3) fds by (auto simp: child_pipe_def c_dup2_def c_close_def std_fds fun_eq_iff)
qed (use assms in \<open>simp add: pipe_state_def child_pipe_def\<close>)

lemma sig_reset_child_frame [simp]:
  "fdt (sig_reset_child p) = fdt p" "grp (sig_reset_child p) = grp p" "errors (sig_reset_child p) = errors p"
  by (simp_all add: sig_reset_child_def set_handler_def)

definition default_signals :: "(signo \<Rightarrow> handler) \<Rightarrow> bool" where
  "default_signals h \<longleftrightarrow> (\<forall>x \<in> {SIGINT, SIGTSTP, SIGQUIT, SIGTTIN, SIGTTOU}. h x = SIG_DFL)"

lemma sig_reset_child_default: "default_signals (sigs (sig_reset_child p))"
  by (simp add: default_signals_def sig_reset_child_def set_handler_def)

lemma exec_child_facts:
  assumes "pipe_state (fd_max os) piped t0 fds (fdt p)" and "std_open t0" and "3 \<le> fd_max os"
    and "exec_child os me i pg fds b c p = (p', e)"
  shows "\<exists>r q. redirect_spec os (redirs_of b c) q = (r, p')
    \<and> fdt q = (if piped then (if i = 0 then t0(1 \<mapsto> PipeWrite) else t0(0 \<mapsto> PipeRead)) else t0)
    \<and> default_signals (sigs p') \<and> grp p' = (if pg = 0 then me else pg) \<and> errors q = errors p
    \<and> e = (if r < 0 then Exit 1 else c_execvp os (argv_strings b c)) \<and> (r = 0 \<or> r = -1)"
proof -
  let ?q0 = "sig_reset_child (p\<lparr>grp := (if pg = 0 then me else pg)\<rparr>)"
  let ?q = "?q0\<lparr>fdt := child_pipe (fd_max os) i fds (fdt p)\<rparr>"
  obtain r p1 where r: "redirect_apply os b c ?q = (r, p1)" by (metis prod.exhaust)
  have q: "fdt ?q = (if piped then (if i = 0 then t0(1 \<mapsto> PipeWrite) else t0(0 \<mapsto> PipeRead)) else t0)"
    using child_pipe_eq [OF assms(1,2), of i] assms(3) by simp
  have "std_open (fdt ?q)" unfolding q using assms(2) by simp
  with r assms(3) have spec: "redirect_spec os (redirs_of b c) ?q = (r, p1)"
    using redirect_apply_eq by metis
  then have "p' = p1" and "e = (if r < 0 then Exit 1 else c_execvp os (argv_strings b c))"
    using assms(4) r by (auto simp: exec_child_def split: if_splits)
  moreover have "sigs p1 = sigs ?q0" "grp p1 = grp ?q0"
    using redirect_spec_frame [OF spec] by simp_all
  ultimately show ?thesis
    using spec q redirect_spec_code [OF spec] sig_reset_child_default [of "p\<lparr>grp := (if pg = 0 then me else pg)\<rparr>"]
    by (intro exI [of _ r] exI [of _ ?q]) simp
qed

text \<open>
  C5. What a command is started with. When the child reaches the program, its arguments are the words
  of the command, its standard descriptors are the redirection, else the pipe end of its side, else
  the shell's, no other descriptor differs from the shell's (neither pipe end is left open), the five
  job-control signals have their default action, and its process group is the job's.
\<close>

theorem exec_child_runs_command:
  assumes "cmd_denotes a b c pc" and "pipe_state (fd_max os) piped t0 fds (fdt p)"
    and "std_open t0" and "3 \<le> fd_max os" and "exec_child os me i pg fds b c p = (p', Exec prog av)"
  shows "av = args pc \<and> prog = hd (args pc) \<and> fdt p' = child_stdio i piped t0 pc
    \<and> default_signals (sigs p') \<and> grp p' = (if pg = 0 then me else pg)"
proof -
  from exec_child_facts [OF assms(2-5)] obtain r q where
    q: "redirect_spec os (redirs_of b c) q = (r, p')" "r = 0 \<or> r = -1"
    "fdt q = (if piped then (if i = 0 then t0(1 \<mapsto> PipeWrite) else t0(0 \<mapsto> PipeRead)) else t0)"
    "default_signals (sigs p')" "grp p' = (if pg = 0 then me else pg)"
    "Exec prog av = (if r < 0 then Exit 1 else c_execvp os (argv_strings b c))" by blast
  then have "r = 0" and x: "Exec prog av = c_execvp os (args pc)"
    by (auto simp: argv_strings_denotes [OF assms(1)] split: if_splits)
  with q(1) have "fdt p' = foldl (\<lambda>t (f, fl, md, tg). t(tg \<mapsto> Opened f fl)) (fdt q) (redirs_of b c)"
    by (simp add: redirect_spec_ok)
  also have "\<dots> = child_stdio i piped t0 pc"
    unfolding redirs_of_denotes [OF assms(1)] q(3) child_stdio_def
    by (auto simp: fun_eq_iff split: option.split)
  finally show ?thesis using q x by (auto simp: c_execvp_def split: if_splits)
qed

section \<open>The kernel's view of a trace\<close>

text \<open>The children that are alive after a trace, each with its process group, and all pids ever forked.\<close>

fun kstep :: "event \<Rightarrow> (pid \<rightharpoonup> pid) \<Rightarrow> (pid \<rightharpoonup> pid)" where
  "kstep (EFork p c e) K = K(p \<mapsto> grp c)"
| "kstep (ESetpgid p g) K = (if K p = None then K else K(p \<mapsto> g))"
| "kstep (EWait g (WChange p WExited)) K = K(p := None)"
| "kstep _ K = K"

definition kids :: "event list \<Rightarrow> (pid \<rightharpoonup> pid)" where
  "kids es = fold kstep es Map.empty"

definition forked :: "event list \<Rightarrow> pid set" where
  "forked es = {p. \<exists>c e. EFork p c e \<in> set es}"

text \<open>
  What the kernel promises about its answers, given what happened before: \<^verbatim>\<open>fork\<close> returns
  a pid that is neither in use by a child that has not been waited for nor the id of a process group
  with such a child (ids of processes that are gone may come again), a report is about a living child
  (of the group asked for), and \<^verbatim>\<open>ECHILD\<close> means that the group has no living child.
\<close>

fun allowed :: "event list \<Rightarrow> event \<Rightarrow> bool" where
  "allowed past (EFork p c e) \<longleftrightarrow> p > 0 \<and> p \<notin> dom (kids past) \<and> p \<notin> ran (kids past)"
| "allowed past (EWait None (WChange p st)) \<longleftrightarrow> kids past p \<noteq> None"
| "allowed past (EWait (Some g) (WChange p st)) \<longleftrightarrow> kids past p = Some g \<and> st \<noteq> WContinued"
| "allowed past (EWait (Some g) (WError ECHILD)) \<longleftrightarrow> (\<forall>p. kids past p \<noteq> Some g)"
| "allowed past e \<longleftrightarrow> True"

fun honest_from :: "event list \<Rightarrow> event list \<Rightarrow> bool" where
  "honest_from past [] \<longleftrightarrow> True"
| "honest_from past (e # es) \<longleftrightarrow> allowed past e \<and> honest_from (past @ [e]) es"

definition honest :: "event list \<Rightarrow> bool" where
  "honest es \<longleftrightarrow> honest_from [] es"

lemma honest_from_append [simp]:
  "honest_from past (xs @ ys) \<longleftrightarrow> honest_from past xs \<and> honest_from (past @ xs) ys"
  by (induction xs arbitrary: past) auto

lemma honest_append [simp]: "honest (xs @ ys) \<longleftrightarrow> honest xs \<and> honest_from xs ys"
  by (simp add: honest_def)

lemma kids_append: "kids (xs @ ys) = fold kstep ys (kids xs)"
  by (simp add: kids_def)

lemma kids_snoc [simp]: "kids (xs @ [e]) = kstep e (kids xs)"
  by (simp add: kids_append)

lemma forked_append [simp]: "forked (xs @ ys) = forked xs \<union> forked ys"
  by (auto simp: forked_def)

lemma forked_simps [simp]:
  "forked [] = {}" "forked (EFork p c e # es) = insert p (forked es)" "forked (ESetpgid p g # es) = forked es"
  "forked (EWait w x # es) = forked es" "forked (EKill q sg # es) = forked es" "forked (ETerm q # es) = forked es"
  "forked (EOut t # es) = forked es" "forked (EErr t # es) = forked es"
  by (auto simp: forked_def)

lemma kids_forked: "kids es p = Some g \<Longrightarrow> p \<in> forked es"
proof (induction es arbitrary: p g rule: rev_induct)
  case (snoc e es)
  then show ?case by (cases "(e, kids es)" rule: kstep.cases) (auto split: if_splits)
qed (simp add: kids_def)

section \<open>The fork loop\<close>

definition pids_of :: "'e job_scheme \<Rightarrow> pid list" where
  "pids_of j = map cmd_pid (take (ncmds j) (cmds j))"

text \<open>A job differs from another in the recorded pids and the live count only.\<close>

definition same_text :: "'e job_scheme \<Rightarrow> 'e job_scheme \<Rightarrow> bool" where
  "same_text j j' \<longleftrightarrow> map (\<lambda>c. c\<lparr>cmd_pid := 0\<rparr>) (cmds j') = map (\<lambda>c. c\<lparr>cmd_pid := 0\<rparr>) (cmds j)
     \<and> j'\<lparr>cmds := [], nlive := 0\<rparr> = j\<lparr>cmds := [], nlive := 0\<rparr>"

lemma same_text_refl [simp]: "same_text j j"
  by (simp add: same_text_def)

lemma same_text_trans: "same_text j k \<Longrightarrow> same_text k l \<Longrightarrow> same_text j l"
  by (simp add: same_text_def)

lemma same_text_fields:
  assumes "same_text j j'"
  shows "ncmds j' = ncmds j" "background j' = background j" "buf j' = buf j" "cmdline j' = cmdline j"
    "state j' = state j" "length (cmds j') = length (cmds j)"
proof -
  have "j'\<lparr>cmds := [], nlive := 0\<rparr> = j\<lparr>cmds := [], nlive := 0\<rparr>" and l: "map (\<lambda>c. c\<lparr>cmd_pid := 0\<rparr>) (cmds j') = map (\<lambda>c. c\<lparr>cmd_pid := 0\<rparr>) (cmds j)"
    using assms by (auto simp: same_text_def)
  then show "ncmds j' = ncmds j" "background j' = background j" "buf j' = buf j" "cmdline j' = cmdline j"
    "state j' = state j" by (cases j'; cases j; simp)+
  from arg_cong [OF l, of length] show "length (cmds j') = length (cmds j)" by simp
qed

lemma cmd_denotes_pid: "cmd_denotes a b (c\<lparr>cmd_pid := p\<rparr>) pc = cmd_denotes a b c pc"
proof -
  have "get_slot sl (c\<lparr>cmd_pid := p\<rparr>) = get_slot sl c" for sl by (cases sl) simp_all
  then show ?thesis by (simp add: cmd_denotes_def)
qed

lemma same_text_denotes:
  assumes "same_text j j'" and "job_denotes a j pl"
  shows "job_denotes a j' pl"
proof -
  have len: "length (cmds j') = length (cmds j)" using same_text_fields [OF assms(1)] by simp
  have "(cmds j' ! i)\<lparr>cmd_pid := 0\<rparr> = (cmds j ! i)\<lparr>cmd_pid := 0\<rparr>" if "i < length (cmds j)" for i
  proof -
    have "map (\<lambda>c. c\<lparr>cmd_pid := 0\<rparr>) (cmds j') ! i = map (\<lambda>c. c\<lparr>cmd_pid := 0\<rparr>) (cmds j) ! i"
      using assms(1) by (simp only: same_text_def)
    with that len show ?thesis by simp
  qed
  then have "cmd_denotes a b (cmds j' ! i) pc = cmd_denotes a b (cmds j ! i) pc" if "i < length (cmds j)" for i b pc
    using that cmd_denotes_pid [of a b 0 "cmds j' ! i" pc] cmd_denotes_pid [of a b 0 "cmds j ! i" pc] by simp
  then show ?thesis
    using assms(2) same_text_fields [OF assms(1)]
    by (auto simp: job_denotes_def YASH_MAX_CMDS_def split: pline.splits)
qed

lemma same_text_fork:
  "same_text j ((upd_cmd i (\<lambda>c. c\<lparr>cmd_pid := p\<rparr>) j)\<lparr>nlive := n\<rparr>)"
proof -
  let ?f = "\<lambda>c. c\<lparr>cmd_pid := 0\<rparr>"
  have "map ?f ((cmds j)[i := (cmds j ! i)\<lparr>cmd_pid := p\<rparr>]) = map ?f (cmds j)"
  proof (cases "i < length (cmds j)")
    case True
    then have "map ?f ((cmds j)[i := (cmds j ! i)\<lparr>cmd_pid := p\<rparr>]) = (map ?f (cmds j))[i := map ?f (cmds j) ! i]"
      by (simp add: map_update)
    then show ?thesis by (simp only: list_update_id)
  qed (simp add: list_update_beyond)
  then show ?thesis by (simp add: same_text_def upd_cmd_def)
qed

lemma pids_of_fork:
  assumes "pids_of j = map fk [0..<i] @ replicate (ncmds j - i) 0" and "i < ncmds j" and "ncmds j \<le> length (cmds j)"
  shows "pids_of ((upd_cmd i (\<lambda>c. c\<lparr>cmd_pid := fk i\<rparr>) j)\<lparr>nlive := n\<rparr>)
    = map fk [0..<Suc i] @ replicate (ncmds j - Suc i) 0"
proof -
  have "pids_of ((upd_cmd i (\<lambda>c. c\<lparr>cmd_pid := fk i\<rparr>) j)\<lparr>nlive := n\<rparr>) = (pids_of j)[i := fk i]"
    by (simp add: pids_of_def upd_cmd_def take_update_swap map_update)
  also have "\<dots> = map fk [0..<Suc i] @ replicate (ncmds j - Suc i) 0"
    unfolding assms(1) using assms(2) by (cases "ncmds j - i") (auto simp: list_update_append)
  finally show ?thesis .
qed

lemma emit_simps [simp]:
  "trace (emit es s) = trace s @ es" "tab (emit es s) = tab s" "fdt (emit es s) = fdt s"
  "shell_pgid (emit es s) = shell_pgid s" "sigs (emit es s) = sigs s" "emit [] s = s"
  "emit es' (emit es s) = emit (es @ es') s"
  by (simp_all add: emit_def)

text \<open>Which end of the pipe a child may hold, and where.\<close>

definition pipe_ends_ok :: "bool \<Rightarrow> nat \<Rightarrow> fdtab \<Rightarrow> bool" where
  "pipe_ends_ok piped k t \<longleftrightarrow> (\<forall>n. (t n = Some PipeWrite \<longrightarrow> piped \<and> k = 0 \<and> n = STDOUT_FILENO)
     \<and> (t n = Some PipeRead \<longrightarrow> piped \<and> k \<noteq> 0 \<and> n = STDIN_FILENO))"

definition no_pipe_ends :: "fdtab \<Rightarrow> bool" where
  "no_pipe_ends t \<longleftrightarrow> (\<forall>n. t n \<noteq> Some PipeRead \<and> t n \<noteq> Some PipeWrite)"

lemma exec_child_pipe_ends:
  assumes "pipe_state (fd_max os) piped t0 fds (fdt p)" and "std_open t0" and "3 \<le> fd_max os"
    and "no_pipe_ends t0" and "exec_child os me i pg fds b c p = (p', e)"
  shows "pipe_ends_ok piped i (fdt p') \<and> grp p' = (if pg = 0 then me else pg)"
proof -
  from exec_child_facts [OF assms(1-3,5)] obtain r q where
    q: "redirect_spec os (redirs_of b c) q = (r, p')" "grp p' = (if pg = 0 then me else pg)"
    "fdt q = (if piped then (if i = 0 then t0(1 \<mapsto> PipeWrite) else t0(0 \<mapsto> PipeRead)) else t0)" by blast
  have "pipe_ends_ok piped i (fdt q)"
    unfolding q(3) using assms(4) by (auto simp: pipe_ends_ok_def no_pipe_ends_def std_fds)
  then have "pipe_ends_ok piped i (fdt p')"
    using redirect_spec_fdt [OF q(1)] unfolding pipe_ends_ok_def by (metis ofile.distinct option.inject)
  with q(2) show ?thesis by simp
qed

text \<open>
  What the fork loop does from command \<open>i\<close> on: the commands up to \<open>m\<close> (the first failed
  \<^verbatim>\<open>fork\<close>, or all) have a process, all in the group of the first.
\<close>

definition fork_done ::
  "(nat \<Rightarrow> pid) \<Rightarrow> bool \<Rightarrow> nat \<Rightarrow> 'e job_scheme \<Rightarrow> 'e shell \<Rightarrow> nat \<Rightarrow> event list \<Rightarrow> pid \<Rightarrow> 'e job_scheme \<Rightarrow> 'e shell \<Rightarrow> bool" where
  "fork_done fk piped i j s m es pg' j' s' \<longleftrightarrow>
     i \<le> m \<and> m \<le> ncmds j \<and> (m = ncmds j \<or> fk m < 0) \<and> pids_of j' = map fk [0..<m] @ replicate (ncmds j - m) 0 \<and> nlive j' = int m
     \<and> pg' = (if m = 0 then 0 else fk 0) \<and> same_text j j' \<and> s' = emit es s
     \<and> (\<forall>p. kids (trace s') p = (if p \<in> fk ` {i..<m} then Some (fk 0) else kids (trace s) p))
     \<and> forked es = fk ` {i..<m} \<and> (\<forall>g. ETerm g \<notin> set es)
     \<and> (honest_from (trace s) es \<longrightarrow> distinct (map fk [i..<m]) \<and> fk ` {i..<m} \<inter> dom (kids (trace s)) = {})
     \<and> (\<forall>p c e. EFork p c e \<in> set es \<longrightarrow> (\<exists>k. p = fk k \<and> i \<le> k \<and> k < m \<and> pipe_ends_ok piped k (fdt c)))"

lemma fork_done_step:
  assumes "fork_done fk piped (Suc i) j1 (emit [EFork (fk i) c e, ESetpgid (fk i) (fk 0)] s) m es pg' j' s'"
    and "grp c = fk 0" and "pipe_ends_ok piped i (fdt c)" and "same_text j j1"
  shows "fork_done fk piped i j s m (EFork (fk i) c e # ESetpgid (fk i) (fk 0) # es) pg' j' s'"
proof -
  have m: "{i..<m} = insert i {Suc i..<m}" "[i..<m] = i # [Suc i..<m]"
    using assms(1) by (auto simp: fork_done_def upt_conv_Cons)
  have "kids (trace s @ [EFork (fk i) c e, ESetpgid (fk i) (fk 0)]) = (kids (trace s))(fk i \<mapsto> fk 0)"
    by (simp add: kids_append)
  moreover have "\<exists>k. p = fk k \<and> i \<le> k \<and> k < m \<and> pipe_ends_ok piped k (fdt d)"
    if "EFork p d x \<in> set (EFork (fk i) c e # ESetpgid (fk i) (fk 0) # es)" for p d x
  proof (cases "EFork p d x \<in> set es")
    case True
    then have "\<exists>k. p = fk k \<and> Suc i \<le> k \<and> k < m \<and> pipe_ends_ok piped k (fdt d)"
      using assms(1) unfolding fork_done_def by blast
    then show ?thesis using Suc_leD by blast
  next
    case False
    with that assms(1,3) show ?thesis
      by (intro exI [of _ i]) (auto simp: fork_done_def)
  qed
  ultimately show ?thesis
    using assms(1,2) same_text_trans [OF assms(4)] same_text_fields(1) [OF assms(4)] unfolding fork_done_def m
    by (simp, intro conjI allI impI) auto
qed

lemma fork_loop_done:
  assumes "fork_loop os fk fds i pg j s = (pg', j', s')"
    and "pids_of j = map fk [0..<i] @ replicate (ncmds j - i) 0" and "i \<le> ncmds j" and "ncmds j \<le> length (cmds j)"
    and "nlive j = int i" and "pg = (if i = 0 then 0 else fk 0)" and "\<forall>k. fk k \<noteq> 0"
    and "pipe_state (fd_max os) piped t0 fds (fdt s)" and "std_open t0" and "3 \<le> fd_max os" and "no_pipe_ends t0"
  shows "\<exists>m es. fork_done fk piped i j s m es pg' j' s'"
  using assms
proof (induction "ncmds j - i" arbitrary: i pg j s pg' j' s')
  case 0
  then have "pg' = pg" "j' = j" "s' = s" by (auto simp: fork_loop.simps [of _ _ _ _ _ j])
  with 0 show ?case
    by (intro exI [of _ i] exI [of _ "[]"]) (auto simp: fork_done_def)
next
  case (Suc n)
  then have i: "i < ncmds j" by simp
  show ?case
  proof (cases "fk i < 0")
    case True
    with Suc(3) i have "pg' = pg" "j' = j" "s' = emit [EErr ''fork''] s"
      by (auto simp: fork_loop.simps [of _ _ _ _ _ j] Let_def)
    with Suc(4-8) True show ?thesis
      by (intro exI [of _ i] exI [of _ "[EErr ''fork'']"]) (auto simp: fork_done_def)
  next
    case False
    define ch where "ch = exec_child os (fk i) i pg fds (buf j) (cmds j ! i) (proc.truncate s)"
    define j1 where "j1 = (upd_cmd i (\<lambda>c. c\<lparr>cmd_pid := fk i\<rparr>) j)\<lparr>nlive := nlive j + 1\<rparr>"
    let ?s1 = "emit [EFork (fk i) (fst ch) (snd ch), ESetpgid (fk i) (fk 0)] s"
    have pg1: "(if pg = 0 then fk i else pg) = fk 0" using Suc(8,9) by auto
    have st: "same_text j j1" unfolding j1_def by (rule same_text_fork)
    have n: "ncmds j1 = ncmds j" "length (cmds j1) = length (cmds j)" "nlive j1 = int (Suc i)"
      using same_text_fields [OF st] Suc(7) by (simp_all add: j1_def)
    have nl: "nlive (upd_cmd i f j) = nlive j" for f by (simp add: upd_cmd_def)
    have loop: "fork_loop os fk fds (Suc i) (fk 0) j1 ?s1 = (pg', j', s')"
      using Suc(3) False i pg1 by (subst (asm) fork_loop.simps) (simp add: Let_def ch_def j1_def nl)
    have pids: "pids_of j1 = map fk [0..<Suc i] @ replicate (ncmds j1 - Suc i) 0"
      unfolding n(1) using pids_of_fork [OF Suc(4) i Suc(6)] unfolding j1_def .
    have ends: "pipe_ends_ok piped i (fdt (fst ch))" "grp (fst ch) = fk 0"
      using exec_child_pipe_ends [of os piped t0 fds "proc.truncate s" "fk i" i pg "buf j" "cmds j ! i" "fst ch" "snd ch"]
        Suc(10-13) pg1 by (auto simp: ch_def proc.defs)
    have "\<exists>m es. fork_done fk piped (Suc i) j1 ?s1 m es pg' j' s'"
      using Suc(2,6,9-13) n i by (intro Suc(1) [OF _ loop pids]) auto
    then show ?thesis using fork_done_step [where fk = fk and i = i, OF _ ends(2,1) st] by blast
  qed
qed

text \<open>The shell's own descriptor table is what it was once both pipe ends are closed.\<close>

lemma pipe_state_closed:
  "pipe_state lim piped t0 fds t \<Longrightarrow>
   (if fst fds \<noteq> -1 then c_close (snd fds) (c_close (fst fds) t) else t) = t0"
  by (cases fds) (auto simp: pipe_state_def c_close_def fun_eq_iff dest!: c_pipe_Some split: if_splits)

lemma fork_done_fdt:
  "fork_done fk piped i j (s\<lparr>fdt := t\<rparr>) m es pg j' s' \<Longrightarrow> fork_done fk piped i j s m es pg j' (emit es s)"
  unfolding fork_done_def by clarsimp

text \<open>A line as the parser leaves it, ready to be run.\<close>

definition fresh_job :: "addr \<Rightarrow> 'e job_scheme \<Rightarrow> bool" where
  "fresh_job pa j \<longleftrightarrow> (\<exists>pl. job_denotes pa j pl) \<and> no_pids j \<and> nlive j = 0 \<and> state j = JOB_RUNNING"

lemma fresh_job_facts:
  assumes "fresh_job pa j"
  shows "ncmds j = 1 \<or> ncmds j = 2" "ncmds j \<le> length (cmds j)" "pids_of j = replicate (ncmds j) 0"
proof -
  show n: "ncmds j = 1 \<or> ncmds j = 2" "ncmds j \<le> length (cmds j)"
    using assms by (auto simp: fresh_job_def job_denotes_def YASH_MAX_CMDS_def split: pline.splits)
  have "\<forall>c \<in> set (take (ncmds j) (cmds j)). cmd_pid c = 0"
    using assms set_take_subset by (fastforce simp: fresh_job_def no_pids_def)
  then have "pids_of j = map (\<lambda>_. 0) (take (ncmds j) (cmds j))" by (simp add: pids_of_def)
  then show "pids_of j = replicate (ncmds j) 0" using n(2) by (simp add: map_replicate_const min_absorb2)
qed

lemma exec_job_cases:
  assumes "exec_job os ans proto s = Some s'" and "fresh_job pa proto" and "\<forall>k. forks ans k \<noteq> 0"
    and "std_open (fdt s)" and "3 \<le> fd_max os" and "no_pipe_ends (fdt s)"
  obtains
    (nopipe) "ncmds proto = 2" and "s' = emit [EErr ''pipe''] s"
  | (forked) m es pg j1 where "fork_done (forks ans) (ncmds proto = 2) 0 proto s m es pg j1 (emit es s)"
      and "if m = 0 then s' = emit es s
           else (case jobs_add (heap ans) (j1\<lparr>pgid := pg\<rparr>) (tab s) of
                   (None, _) \<Rightarrow> s' = emit (es @ [EErr ''yash: too many jobs'']) s
                 | (Some a, t') \<Rightarrow>
                     if background (job_at a t') then s' = (emit es s)\<lparr>tab := t'\<rparr>
                     else wait_and_reclaim (waits ans) a
                            (sig_give_terminal (pgid (job_at a t')) ((emit es s)\<lparr>tab := t'\<rparr>)) = Some s')"
proof -
  define P where "P = (if ncmds proto = 2 then (if pipe_ok ans then c_pipe (fd_max os) (fdt s) else None)
                       else Some ((-1, -1), fdt s))"
  show thesis
  proof (cases P)
    case None
    with assms(1) show thesis by (intro nopipe) (auto simp: exec_job_def P_def split: if_splits)
  next
    case (Some ft)
    obtain fds t where ft: "ft = (fds, t)" by (cases ft)
    obtain pg j1 s1 where L: "fork_loop os (forks ans) fds 0 0 proto (s\<lparr>fdt := t\<rparr>) = (pg, j1, s1)"
      by (metis prod_cases3)
    have ps: "pipe_state (fd_max os) (ncmds proto = 2) (fdt s) fds t"
      using Some by (auto simp: P_def ft pipe_state_def split: if_splits)
    obtain m es where fd: "fork_done (forks ans) (ncmds proto = 2) 0 proto (s\<lparr>fdt := t\<rparr>) m es pg j1 s1"
      using fork_loop_done [OF L, of "ncmds proto = 2" "fdt s"] fresh_job_facts [OF assms(2)] ps assms(2-6)
      by (auto simp: fresh_job_def)
    then have s1: "s1 = emit es (s\<lparr>fdt := t\<rparr>)" and m: "nlive j1 = int m" by (auto simp: fork_done_def)
    define s2 where "s2 = (if fst fds \<noteq> -1 then s1\<lparr>fdt := c_close (snd fds) (c_close (fst fds) (fdt s1))\<rparr> else s1)"
    have s2: "s2 = emit es s"
      using pipe_state_closed [OF ps] by (auto simp: s2_def s1 emit_def split: if_splits)
    show thesis
    proof (rule forked [OF fork_done_fdt [OF fd]])
      show "if m = 0 then s' = emit es s
           else (case jobs_add (heap ans) (j1\<lparr>pgid := pg\<rparr>) (tab s) of
                   (None, _) \<Rightarrow> s' = emit (es @ [EErr ''yash: too many jobs'']) s
                 | (Some a, t') \<Rightarrow>
                     if background (job_at a t') then s' = (emit es s)\<lparr>tab := t'\<rparr>
                     else wait_and_reclaim (waits ans) a
                            (sig_give_terminal (pgid (job_at a t')) ((emit es s)\<lparr>tab := t'\<rparr>)) = Some s')"
        using assms(1) Some L m unfolding exec_job_def P_def [symmetric]
        by (auto simp: ft s2_def [symmetric] s2 Let_def split: option.splits prod.splits if_splits)
    qed
  qed
qed

lemma sig_give_terminal_frame [simp]:
  "tab (sig_give_terminal g s) = tab s" "fdt (sig_give_terminal g s) = fdt s"
  "sigs (sig_give_terminal g s) = sigs s" "shell_pgid (sig_give_terminal g s) = shell_pgid s"
  by (simp_all add: sig_give_terminal_def)

lemma trace_sig_give_terminal [simp]:
  "trace (sig_give_terminal g s) = trace s @ (if g > 0 then [ETerm g] else [])"
  by (simp add: sig_give_terminal_def)

lemma wait_and_reclaim_frame:
  assumes "wait_and_reclaim ws a s = Some s'"
  shows "fdt s' = fdt s \<and> shell_pgid s' = shell_pgid s \<and> sigs s' = sigs s
    \<and> (\<exists>us. trace s' = trace s @ map (EWait (Some (pgid (job_at a (tab s))))) us
          @ (if shell_pgid s > 0 then [ETerm (shell_pgid s)] else []))"
  using assms by (auto simp: wait_and_reclaim_def Let_def split: option.splits if_splits)

text \<open>
  C6. Pipes are wired so that the reader sees the end of its input. After a line has been run no
  descriptor of the shell refers to a pipe end (its table is what it was), and of the children
  started only the first command holds the write end, as its standard output, and only the second
  holds the read end, as its standard input; a single command holds neither.
\<close>

theorem exec_job_pipe_ends:
  assumes "exec_job os ans proto s = Some s'" and "fresh_job pa proto" and "\<forall>k. forks ans k \<noteq> 0"
    and "std_open (fdt s)" and "3 \<le> fd_max os" and "no_pipe_ends (fdt s)"
  shows "fdt s' = fdt s \<and> (\<exists>es. trace s' = trace s @ es \<and> (\<forall>p c e. EFork p c e \<in> set es \<longrightarrow>
    (\<exists>k < ncmds proto. p = forks ans k \<and> pipe_ends_ok (ncmds proto = 2) k (fdt c))))"
  using assms
proof (cases rule: exec_job_cases)
  case (forked m es pg j1)
  have ok: "\<exists>k < ncmds proto. p = forks ans k \<and> pipe_ends_ok (ncmds proto = 2) k (fdt c)"
    if "EFork p c e \<in> set es" for p c e
    using forked(1) that unfolding fork_done_def by (meson order_less_le_trans)
  obtain r t' where add: "jobs_add (heap ans) (j1\<lparr>pgid := pg\<rparr>) (tab s) = (r, t')" by (metis prod.exhaust)
  have "fdt s' = fdt s \<and> (\<exists>us. trace s' = trace s @ es @ us \<and> (\<forall>p c e. EFork p c e \<notin> set us))"
  proof (cases "m = 0 \<or> r = None \<or> background (job_at (the r) t')")
    case True
    with forked(2) add show ?thesis by (cases r) (auto split: if_splits)
  next
    case False
    with forked(2) add have "wait_and_reclaim (waits ans) (the r)
        (sig_give_terminal (pgid (job_at (the r) t')) ((emit es s)\<lparr>tab := t'\<rparr>)) = Some s'" by auto
    from wait_and_reclaim_frame [OF this] show ?thesis by auto
  qed
  with ok show ?thesis by (metis Un_iff set_append)
qed simp

section \<open>A concrete shell\<close>

definition demo_os :: os where
  "demo_os = \<lparr>fd_max = 16, can_open = (\<lambda>_ _. True), can_exec = (\<lambda>_. True)\<rparr>"

definition demo_fds :: fdtab where
  "demo_fds n = (if 0 \<le> n \<and> n \<le> 2 then Some (Inherited n) else None)"

definition demo_shell :: "unit shell" where
  "demo_shell = \<lparr>fdt = demo_fds, sigs = (\<lambda>_. SIG_DFL), grp = 50, opened = [], errors = [],
     shell_pgid = 50, tab = [], trace = []\<rparr>"

definition demo_job :: "string \<Rightarrow> unit job_scheme" where
  "demo_job line = snd (parse_line 0 (Some line) (zero_job ()))"

definition demo_answers :: answers where
  "demo_answers = \<lparr>pipe_ok = True, forks = (\<lambda>k. 100 + int k), heap = Some 4,
     waits = [WChange 100 WExited, WChange 101 WExited]\<rparr>"

lemma demo_fds_facts: "std_open demo_fds" "no_pipe_ends demo_fds"
  by (auto simp: std_open_def no_pipe_ends_def demo_fds_def)

lemma parse_line_fresh:
  assumes "NUL \<notin> set l" and "parse_line pa (Some l) j0 = (PARSE_OK, j)"
  shows "fresh_job pa j"
  using parse_line_parsed [OF assms] by (auto simp: fresh_job_def)

lemma demo_job_fresh:
  assumes "NUL \<notin> set l" and "fst (parse_line 0 (Some l) (zero_job ())) = PARSE_OK"
  shows "fresh_job 0 (demo_job l)"
  using parse_line_fresh [OF assms(1), of 0 "zero_job ()" "demo_job l"] assms(2)
  by (simp add: demo_job_def prod_eq_iff)

theorem redirect_apply_spec_witness:
  "redirect_apply demo_os (buf (demo_job ''cat < in'')) (cmds (demo_job ''cat < in'') ! 0) (proc.truncate demo_shell)
     = redirect_spec demo_os [(''in'', O_RDONLY, 0, 0)] (proc.truncate demo_shell)"
proof -
  have r: "redirs_of (buf (demo_job ''cat < in'')) (cmds (demo_job ''cat < in'') ! 0) = [(''in'', O_RDONLY, 0, 0)]"
    by code_simp
  have "std_open (fdt (proc.truncate demo_shell))" "3 \<le> fd_max demo_os"
    by (simp_all add: demo_shell_def demo_os_def demo_fds_facts proc.defs)
  from redirect_apply_spec [OF this, of "buf (demo_job ''cat < in'')" "cmds (demo_job ''cat < in'') ! 0"]
  show ?thesis by (simp only: r)
qed

theorem exec_child_runs_command_witness:
  "fdt (fst (exec_child demo_os 100 0 0 (-1, -1) (buf (demo_job ''cat < in'')) (cmds (demo_job ''cat < in'') ! 0)
      (proc.truncate demo_shell))) 0 = Some (Opened ''in'' O_RDONLY)"
proof -
  let ?j = "demo_job ''cat < in''"
  let ?pl = "Single (PCmd [''cat''] [(Infile, ''in'')]) False"
  let ?r = "exec_child demo_os 100 0 0 (-1, -1) (buf ?j) (cmds ?j ! 0) (proc.truncate demo_shell)"
  have "words_of blanks ''cat < in'' = line_tokens ?pl" by (simp add: words_of.simps blanks_def)
  moreover have "wf_pline ?pl" by (simp add: words_ok_def redirs_ok_def is_operator_def yash_limits)
  ultimately have "job_denotes 0 ?j ?pl"
    using parse_line_denoting [of "''cat < in''" ?pl 0 "zero_job ()"] by (auto simp: yash_limits demo_job_def)
  then have den: "cmd_denotes 0 (buf ?j) (cmds ?j ! 0) (PCmd [''cat''] [(Infile, ''in'')])"
    by (simp add: job_denotes_def)
  have "snd ?r = Exec ''cat'' [''cat'']" by code_simp
  then have e: "?r = (fst ?r, Exec ''cat'' [''cat''])" by (simp add: prod_eq_iff)
  have ps: "pipe_state (fd_max demo_os) False demo_fds (-1, -1) (fdt (proc.truncate demo_shell))"
    by (simp add: pipe_state_def demo_shell_def proc.defs)
  have lim: "3 \<le> fd_max demo_os" by (simp add: demo_os_def)
  from exec_child_runs_command [OF den ps demo_fds_facts(1) lim e]
  show ?thesis by (simp add: child_stdio_def)
qed

theorem exec_job_pipe_ends_witness:
  "map_option fdt (exec_job demo_os demo_answers (demo_job ''ls | wc'') demo_shell) = Some demo_fds"
proof -
  have "exec_job demo_os demo_answers (demo_job ''ls | wc'') demo_shell \<noteq> None" by code_simp
  then obtain s' where s': "exec_job demo_os demo_answers (demo_job ''ls | wc'') demo_shell = Some s'" by blast
  have "fst (parse_line 0 (Some ''ls | wc'') (zero_job ())) = PARSE_OK" by code_simp
  then have fresh: "fresh_job 0 (demo_job ''ls | wc'')" by (intro demo_job_fresh) simp
  have ok: "\<forall>k. forks demo_answers k \<noteq> 0" "std_open (fdt demo_shell)" "3 \<le> fd_max demo_os" "no_pipe_ends (fdt demo_shell)"
    by (simp_all add: demo_answers_def demo_shell_def demo_os_def demo_fds_facts)
  from exec_job_pipe_ends [OF s' fresh ok] s' show ?thesis by (simp add: demo_shell_def)
qed

end
