(* ===== verification/Yash_Shell.thy ===== *)
theory Yash_Shell
  imports Yash_Exec
begin

text \<open>
  The builtins of \<^verbatim>\<open>builtins.c\<close> and the read loop of \<^verbatim>\<open>main.c\<close> (Project 1),
  and the invariant of the whole shell: its job table agrees with the kernel's view of its children,
  the terminal is back with the shell at every prompt, and nothing outlives the shell.
\<close>

section \<open>builtins.c\<close>

abbreviation newline :: char where
  "newline \<equiv> CHR 0x0A"

definition do_fg :: "wres list \<Rightarrow> 'e shell \<Rightarrow> 'e shell option" where
  "do_fg ws s =
     (case jobs_current (tab s) of
        None \<Rightarrow> Some s
      | Some a \<Rightarrow>
          let j = job_at a (tab s);
              s1 = emit [EOut (cstr (cmdline j) 0 @ [newline])] s;
              s2 = s1\<lparr>tab := upd_job a (\<lambda>j. j\<lparr>background := False\<rparr>) (tab s1)\<rparr>;
              s3 = sig_give_terminal (pgid j) s2;
              s4 = (if state j = JOB_STOPPED then emit [EKill (- pgid j) SIGCONT] s3 else s3);
              s5 = s4\<lparr>tab := upd_job a (\<lambda>j. j\<lparr>state := JOB_RUNNING\<rparr>) (tab s4)\<rparr>
          in wait_and_reclaim ws a s5)"

definition do_bg :: "'e shell \<Rightarrow> 'e shell" where
  "do_bg s =
     (case jobs_recent_stopped (tab s) of
        None \<Rightarrow> s
      | Some a \<Rightarrow>
          let s1 = emit [EKill (- pgid (job_at a (tab s))) SIGCONT] s;
              s2 = s1\<lparr>tab := upd_job a (\<lambda>j. j\<lparr>state := JOB_RUNNING, background := True\<rparr>) (tab s1)\<rparr>
          in emit [EOut (jobs_print_one (job_at a (tab s2)) (CHR ''+'') ''Running'')] s2)"

text \<open>The result says whether the line was a builtin.\<close>

definition builtin_try :: "wres list \<Rightarrow> 'e job_scheme \<Rightarrow> 'e shell \<Rightarrow> (bool \<times> 'e shell) option" where
  "builtin_try ws job s =
     (if ncmds job \<noteq> 1 \<or> argc (cmds job ! 0) = 0 then Some (False, s)
      else
        let name = str_at (buf job) (the (argv (cmds job ! 0) ! 0))
        in if name = ''jobs'' then Some (True, emit (map EOut (jobs_print (tab s))) s)
           else if name = ''fg'' then map_option (Pair True) (do_fg ws s)
           else if name = ''bg'' then Some (True, do_bg s)
           else Some (False, s))"

section \<open>main.c\<close>

text \<open>
  \<^verbatim>\<open>fgets\<close> on the rest of standard input: \<open>None\<close> at its end, otherwise at most \<open>n - 1\<close> bytes,
  up to and with the first newline.
\<close>

definition fgets :: "nat \<Rightarrow> bytes \<Rightarrow> (bytes \<times> bytes) option" where
  "fgets n inp =
     (if inp = [] then None
      else let k = min (n - 1) (length (takeWhile (\<lambda>c. c \<noteq> newline) inp) + 1)
           in Some (take k inp, drop k inp))"

text \<open>The C string left in \<^verbatim>\<open>line\<close> once the newline is overwritten.\<close>

definition line_text :: "bytes \<Rightarrow> string" where
  "line_text l = takeWhile (\<lambda>c. c \<noteq> newline) (takeWhile (\<lambda>c. c \<noteq> NUL) l)"

text \<open>The address of the local \<^verbatim>\<open>job\<close> of \<^verbatim>\<open>main\<close>.\<close>

definition main_job :: addr where
  "main_job = 0"

text \<open>What the environment decides in one round of the loop.\<close>

record round =
  sweep :: "wres list"
  intr :: bool
  answ :: answers

datatype 's outcome = Next bytes 's | Quit 's | Stuck

definition reap_phase :: "wres list \<Rightarrow> 'e shell \<Rightarrow> 'e shell" where
  "reap_phase ws s =
     (case jobs_reap ws (tab s) of
        (ws', t', out) \<Rightarrow> emit (map (EWait None) (consumed ws ws') @ map EOut out) (s\<lparr>tab := t'\<rparr>))"

definition main_round :: "os \<Rightarrow> round \<Rightarrow> bytes \<Rightarrow> unit shell \<Rightarrow> unit shell outcome" where
  "main_round os r inp s =
     (let s1 = emit [EOut ''# ''] (reap_phase (sweep r) s) in
      if intr r then Next inp (emit [EOut [newline]] s1)
      else
        case fgets (YASH_MAX_LINE + 2) inp of
          None \<Rightarrow> Quit s1
        | Some (l, inp') \<Rightarrow>
            (case parse_line main_job (Some (line_text l)) (zero_job ()) of
               (st, job) \<Rightarrow>
                 if st \<noteq> PARSE_OK then Next inp' s1
                 else
                   (case builtin_try (waits (answ r)) job s1 of
                      None \<Rightarrow> Stuck
                    | Some (True, s2) \<Rightarrow> Next inp' s2
                    | Some (False, s2) \<Rightarrow>
                        (case exec_job os (answ r) job s2 of None \<Rightarrow> Stuck | Some s3 \<Rightarrow> Next inp' s3))))"

definition main_exit :: "unit shell \<Rightarrow> unit shell" where
  "main_exit s =
     (let s1 = emit [EOut [newline]] s in
      case jobs_kill_all (tab s1) of
        (gs, t) \<Rightarrow> emit (map (\<lambda>g. EKill g SIGKILL) gs) (s1\<lparr>tab := t\<rparr>))"

text \<open>\<open>Next\<close>: the rounds are used up and the shell is at its prompt; \<open>Quit\<close>: it has exited.\<close>

fun main_loop :: "os \<Rightarrow> round list \<Rightarrow> bytes \<Rightarrow> unit shell \<Rightarrow> unit shell outcome" where
  "main_loop os [] inp s = Next inp s"
| "main_loop os (r # rs) inp s =
     (case main_round os r inp s of
        Next inp' s' \<Rightarrow> main_loop os rs inp' s'
      | Quit s' \<Rightarrow> Quit (main_exit s')
      | Stuck \<Rightarrow> Stuck)"

definition main :: "os \<Rightarrow> pid \<Rightarrow> round list \<Rightarrow> bytes \<Rightarrow> unit shell \<Rightarrow> unit shell outcome" where
  "main os getpid rs inp s = main_loop os rs inp ((sig_init_shell getpid s)\<lparr>tab := jobs_init\<rparr>)"

section \<open>The books\<close>

text \<open>
  \<open>F\<close> are the pids ever forked and \<open>K\<close> the living children with their groups. The table agrees with
  the kernel (\<open>link\<close>), every living child belongs to a job of the table, and its process group is
  the one the job records.
\<close>

definition book :: "pid set \<Rightarrow> (pid \<rightharpoonup> pid) \<Rightarrow> 'e jobtab \<Rightarrow> bool" where
  "book F K t \<longleftrightarrow> tab_inv t \<and> link (dom K) t
     \<and> (\<forall>(a, j) \<in> set t. pgid j \<in> set (job_pids j) \<and> set (job_pids j) \<subseteq> F
          \<and> (\<forall>p \<in> set (job_pids j). \<forall>g. K p = Some g \<longrightarrow> g = pgid j))
     \<and> (\<forall>p. K p \<noteq> None \<longrightarrow> (\<exists>(a, j) \<in> set t. p \<in> set (job_pids j)))"

lemma consumed_append [simp]: "consumed (us @ ws) ws = us"
  by (simp add: consumed_def)

lemma reap_loop_suffix: "reap_loop ws t = (ws', t') \<Longrightarrow> \<exists>us. ws = us @ ws'"
  by (induction ws t rule: reap_loop.induct) auto

lemma reap_loop_after:
  assumes "reap_loop ws t = (ws', t')" and "honest_from past (map (EWait None) (consumed ws ws'))"
  shows "after_events (dom (kids past)) ws = Some (dom (kids (past @ map (EWait None) (consumed ws ws'))))"
  using assms
proof (induction ws t arbitrary: past rule: reap_loop.induct)
  case (2 p st ws t)
  then obtain us where us: "ws = us @ ws'" using reap_loop_suffix by fastforce
  then have c: "consumed (WChange p st # ws) ws' = WChange p st # us" "consumed ws ws' = us"
    using consumed_append [of "WChange p st # us" ws'] by simp_all
  let ?past = "past @ [EWait None (WChange p st)]"
  have h: "kids past p \<noteq> None" "honest_from ?past (map (EWait None) us)"
    using 2(3) by (simp_all add: c)
  have "dom (kids ?past) = (if st = WExited then dom (kids past) - {p} else dom (kids past))"
    by (cases st) auto
  moreover have "after_events (dom (kids ?past)) ws = Some (dom (kids (?past @ map (EWait None) us)))"
    using "2.IH" [of ?past] "2.prems"(1) h(2) unfolding c by simp
  ultimately show ?case using h(1) by (auto simp: c)
qed (auto simp: consumed_def)

lemma kids_waits:
  "kids (past @ map (EWait g) us) p = kids past p \<or> kids (past @ map (EWait g) us) p = None"
proof (induction us arbitrary: past)
  case (Cons u us)
  have "kids (past @ [EWait g u]) p = kids past p \<or> kids (past @ [EWait g u]) p = None"
    by (cases "(EWait g u, kids past)" rule: kstep.cases) (auto simp: kids_append)
  with Cons [of "past @ [EWait g u]"] show ?case by auto
qed simp

lemma forked_waits [simp]: "forked (map (EWait g) us) = {}"
  by (auto simp: forked_def)

lemma book_reap:
  assumes "book F (kids past) t" and "jobs_reap ws t = (ws', t', out)"
    and "honest_from past (map (EWait None) (consumed ws ws'))"
  shows "book F (kids (past @ map (EWait None) (consumed ws ws'))) t'"
proof -
  let ?K = "kids past" and ?K' = "kids (past @ map (EWait None) (consumed ws ws'))"
  obtain u where u: "reap_loop ws t = (ws', u)"
    using assms(2) by (auto simp: jobs_reap_def split: prod.splits)
  have L: "tab_inv t" "link (dom ?K) t" using assms(1) by (auto simp: book_def)
  note R = jobs_reap_keeps [OF L reap_loop_after [OF u assms(3)] assms(2)]
  then have from_t: "\<exists>j. (a, j) \<in> set t \<and> job_pids j' = job_pids j \<and> pgid j' = pgid j" if "(a, j') \<in> set t'" for a j'
    using that by blast
  have keep: "?K' p = ?K p \<or> ?K' p = None" for p by (rule kids_waits)
  have old: "pgid j \<in> set (job_pids j) \<and> set (job_pids j) \<subseteq> F
      \<and> (\<forall>p \<in> set (job_pids j). \<forall>g. ?K' p = Some g \<longrightarrow> g = pgid j)" if "(a, j) \<in> set t" for a j
  proof -
    have "?K p = Some g" if "?K' p = Some g" for p g using keep [of p] that by simp
    moreover have "pgid j \<in> set (job_pids j) \<and> set (job_pids j) \<subseteq> F
        \<and> (\<forall>p \<in> set (job_pids j). \<forall>g. ?K p = Some g \<longrightarrow> g = pgid j)"
      using assms(1) that unfolding book_def by blast
    ultimately show ?thesis by simp
  qed
  have "\<exists>(a, j) \<in> set t'. p \<in> set (job_pids j)" if "?K' p \<noteq> None" for p
  proof -
    from that keep [of p] have "?K p \<noteq> None" by auto
    then obtain a j where aj: "(a, j) \<in> set t" "p \<in> set (job_pids j)"
      using assms(1) by (auto simp: book_def)
    have "(a, j) \<in> set (filter (\<lambda>(a, j). \<exists>p \<in> set (job_pids j). p \<in> dom ?K') t)"
      using aj that by auto
    from imageI [OF this, of fst] have "a \<in> set (map fst t')" using R by simp
    then obtain j' where j': "(a, j') \<in> set t'" by auto
    from from_t [OF this] obtain k where "(a, k) \<in> set t" "job_pids j' = job_pids k" by blast
    moreover from this have "k = j"
      using aj(1) L(1) eq_key_imp_eq_value [of t a k j] by (simp add: tab_inv_def)
    ultimately have "p \<in> set (job_pids j')" using aj(2) by simp
    with j' show ?thesis by (intro bexI [of _ "(a, j')"]) simp_all
  qed
  moreover have "\<forall>(a, j) \<in> set t'. pgid j \<in> set (job_pids j) \<and> set (job_pids j) \<subseteq> F
      \<and> (\<forall>p \<in> set (job_pids j). \<forall>g. ?K' p = Some g \<longrightarrow> g = pgid j)"
  proof clarify
    fix a j' assume "(a, j') \<in> set t'"
    from from_t [OF this] obtain j where "(a, j) \<in> set t" "job_pids j' = job_pids j" "pgid j' = pgid j" by blast
    with old show "pgid j' \<in> set (job_pids j') \<and> set (job_pids j') \<subseteq> F
      \<and> (\<forall>p \<in> set (job_pids j'). \<forall>g. ?K' p = Some g \<longrightarrow> g = pgid j')" by simp
  qed
  ultimately show ?thesis using R by (simp add: book_def)
qed

subsection \<open>The foreground wait\<close>

lemma jobs_wait_fg_suffix: "jobs_wait_fg ws j = Some (ws', j') \<Longrightarrow> \<exists>us. ws = us @ ws'"
proof (induction ws arbitrary: j)
  case Nil
  then show ?case by (auto simp: jobs_wait_fg.simps split: if_splits)
next
  case (Cons w ws)
  have "ws' = w # ws \<or> ws' = ws \<or> (\<exists>k. jobs_wait_fg ws k = Some (ws', j'))"
    using Cons.prems by (auto simp: jobs_wait_fg_Cons split: if_splits wres.splits errno.splits wstatus.splits)
  then show ?case
  proof (elim disjE exE)
    fix k assume "jobs_wait_fg ws k = Some (ws', j')"
    from Cons.IH [OF this] obtain us where "ws = us @ ws'" by blast
    then have "w # ws = (w # us) @ ws'" by simp
    then show ?thesis by blast
  next
    assume "ws' = ws" then have "w # ws = [w] @ ws'" by simp
    then show ?thesis by blast
  qed auto
qed

lemma jobs_wait_fg_head:
  assumes "jobs_wait_fg (w # ws) j = Some (ws', j')" and "nlive j > 0"
  shows "\<exists>us. consumed (w # ws) ws' = w # us"
proof -
  have "ws' = ws \<or> (\<exists>k. jobs_wait_fg ws k = Some (ws', j'))"
    using assms by (auto simp: jobs_wait_fg_Cons split: wres.splits errno.splits wstatus.splits)
  then obtain us where "ws = us @ ws'" using jobs_wait_fg_suffix by fastforce
  then show ?thesis using consumed_append [of "w # us" ws'] by simp
qed

text \<open>The wait seen from the kernel: \<open>K\<close> before, \<open>K'\<close> after, for the job \<open>j\<close> whose group is \<open>g\<close>.\<close>

definition waited :: "(pid \<rightharpoonup> pid) \<Rightarrow> (pid \<rightharpoonup> pid) \<Rightarrow> 'e job_scheme \<Rightarrow> 'e job_scheme \<Rightarrow> bool" where
  "waited K K' j j' \<longleftrightarrow> j' = j\<lparr>nlive := nlive j', state := state j'\<rparr> \<and> nlive j' = alive_count (dom K') j
     \<and> (state j' = JOB_DONE \<longleftrightarrow> nlive j' = 0) \<and> (\<forall>p. K' p = K p \<or> K' p = None \<and> p \<in> set (job_pids j))"

definition group_of :: "(pid \<rightharpoonup> pid) \<Rightarrow> pid \<Rightarrow> 'e job_scheme \<Rightarrow> bool" where
  "group_of K g j \<longleftrightarrow> distinct (job_pids j) \<and> nlive j = alive_count (dom K) j
     \<and> (\<forall>p. K p = Some g \<longleftrightarrow> p \<in> set (job_pids j) \<and> K p \<noteq> None)"

lemma job_pids_status [simp]:
  "job_pids (j\<lparr>nlive := n\<rparr>) = job_pids j" "job_pids (j\<lparr>state := st\<rparr>) = job_pids j"
  "job_pids (j\<lparr>background := b\<rparr>) = job_pids j"
  by (simp_all add: job_pids_def)

lemma alive_count_status [simp]:
  "alive_count A (j\<lparr>nlive := n\<rparr>) = alive_count A j" "alive_count A (j\<lparr>state := st\<rparr>) = alive_count A j"
  "alive_count A (j\<lparr>background := b\<rparr>) = alive_count A j"
  by (simp_all add: alive_count_def)

lemma group_of_exit:
  assumes "group_of K g j" and "K p = Some g"
  shows "group_of (K(p := None)) g (j\<lparr>nlive := nlive j - 1\<rparr>)"
proof -
  have "p \<in> set (job_pids j)" "p \<in> dom K" using assms by (auto simp: group_of_def)
  then have "alive_count (dom K - {p}) j = alive_count (dom K) j - 1"
    using assms(1) filter_remove_count [of "job_pids j" p "dom K"] by (simp add: group_of_def alive_count_def)
  then show ?thesis using assms by (auto simp: group_of_def)
qed

lemma waited_trans:
  assumes "waited K1 K' (j\<lparr>nlive := n\<rparr>) j'"
    and keep: "\<And>p. K1 p = K p \<or> K1 p = None \<and> p \<in> set (job_pids j)"
  shows "waited K K' j j'"
proof -
  have "K' p = K p \<or> K' p = None \<and> p \<in> set (job_pids j)" for p
    using assms(1) keep [of p] unfolding waited_def by (metis job_pids_status(1))
  moreover from assms(1) have "j' = j\<lparr>nlive := nlive j', state := state j'\<rparr>"
    unfolding waited_def by (elim conjE) simp
  ultimately show ?thesis using assms(1) by (simp add: waited_def)
qed

lemma wait_fg_waited:
  assumes "jobs_wait_fg ws j = Some (ws', j')" and "group_of (kids past) g j"
    and "honest_from past (map (EWait (Some g)) (consumed ws ws'))"
  shows "waited (kids past) (kids (past @ map (EWait (Some g)) (consumed ws ws'))) j j'"
  using assms
proof (induction ws arbitrary: j past)
  case Nil
  then show ?case
    by (auto simp: jobs_wait_fg.simps consumed_def waited_def group_of_def alive_count_def split: if_splits)
next
  case (Cons w ws)
  show ?case
  proof (cases "nlive j > 0")
    case False
    with Cons.prems show ?thesis
      by (auto simp: jobs_wait_fg.simps consumed_def waited_def group_of_def alive_count_def)
  next
    case True
    have step: "waited (kids past) (kids (past @ map (EWait (Some g)) (consumed (w # ws) ws'))) j j'"
      if k: "jobs_wait_fg ws (j\<lparr>nlive := n\<rparr>) = Some (ws', j')"
        "group_of (kids (past @ [EWait (Some g) w])) g (j\<lparr>nlive := n\<rparr>)"
        "\<And>p. kids (past @ [EWait (Some g) w]) p = kids past p \<or> kids (past @ [EWait (Some g) w]) p = None \<and> p \<in> set (job_pids j)"
      for n
    proof -
      obtain us where us: "ws = us @ ws'" using jobs_wait_fg_suffix [OF k(1)] by blast
      have c: "consumed (w # ws) ws' = w # us" "consumed ws ws' = us"
        using consumed_append [of "w # us" ws'] us by simp_all
      have "waited (kids (past @ [EWait (Some g) w])) (kids ((past @ [EWait (Some g) w]) @ map (EWait (Some g)) us)) (j\<lparr>nlive := n\<rparr>) j'"
        using Cons.IH [OF k(1,2)] Cons.prems(3) unfolding c by simp
      from waited_trans [OF this k(3)] show ?thesis by (simp add: c)
    qed
    have last: "consumed (w # ws) ws = [w]" using consumed_append [of "[w]" ws] by simp
    have jn: "j\<lparr>nlive := nlive j\<rparr> = j" by simp
    have heads: "allowed past (EWait (Some g) w)"
      using jobs_wait_fg_head [OF Cons.prems(1) True] Cons.prems(3) by auto
    note G = Cons.prems(2)
    show ?thesis
    proof (cases w)
      case WNothing
      with step [of "nlive j"] Cons.prems True show ?thesis by (simp add: jobs_wait_fg_Cons)
    next
      case (WError e)
      show ?thesis
      proof (cases e)
        case EINTR
        with WError step [of "nlive j"] Cons.prems True show ?thesis by (simp add: jobs_wait_fg_Cons)
      next
        case ECHILD
        with WError heads G have "alive_count (dom (kids past)) j = 0"
          by (auto simp: group_of_def alive_count_zero domIff)
        with G True show ?thesis by (simp add: group_of_def)
      qed
    next
      case (WChange p st)
      with heads have p: "kids past p = Some g" "st \<noteq> WContinued" by simp_all
      show ?thesis
      proof (cases st)
        case WStopped
        with WChange Cons.prems(1) True have "ws' = ws" "j' = j\<lparr>state := JOB_STOPPED\<rparr>"
          by (auto simp: jobs_wait_fg_Cons)
        with WChange WStopped G True last show ?thesis by (simp add: waited_def group_of_def)
      next
        case WExited
        have "p \<in> set (job_pids j)" using G p(1) by (simp add: group_of_def)
        with WChange WExited Cons.prems(1) True p step [of "nlive j - 1"] group_of_exit [OF G p(1)]
        show ?thesis by (simp add: jobs_wait_fg_Cons)
      qed (use p in simp)
    qed
  qed
qed

subsection \<open>Updating, removing and adding a job\<close>

lemma book_unique:
  assumes "book F K t" and "(a, j) \<in> set t" and "(b, k) \<in> set t" and "a = b \<or> set (job_pids j) \<inter> set (job_pids k) \<noteq> {}"
  shows "a = b \<and> j = k"
proof -
  have d: "distinct (map fst t)" "distinct (concat (map (job_pids \<circ> snd) t))"
    using assms(1) by (auto simp: book_def tab_inv_def link_def)
  show ?thesis
  proof (cases "a = b")
    case True
    then show ?thesis using eq_key_imp_eq_value [of t a j k] d(1) assms(2,3) by simp
  next
    case False
    with assms(4) obtain p where "p \<in> set (job_pids j)" "p \<in> set (job_pids k)" by auto
    with distinct_concat_unique [OF d(2) assms(2,3), of p] show ?thesis by simp
  qed
qed

lemma set_upd_job: "(b, k') \<in> set (upd_job a f t) \<longleftrightarrow> (\<exists>k. (b, k) \<in> set t \<and> k' = (if b = a then f k else k))"
  by (auto simp: upd_job_def split: if_splits) (auto intro: rev_image_eqI)

lemma alive_count_cong: "(\<And>p. p \<in> set (job_pids j) \<Longrightarrow> p \<in> A \<longleftrightarrow> p \<in> B) \<Longrightarrow> alive_count A j = alive_count B j"
  unfolding alive_count_def by (intro arg_cong [of _ _ "\<lambda>xs. int (length xs)"] filter_cong) auto

lemma job_pids_keeps: "keeps_frame f \<Longrightarrow> job_pids (f j) = job_pids j"
  by (simp add: keeps_frame_def job_pids_def)

lemma book_upd:
  assumes B: "book F K t" and f: "keeps_frame f" "\<And>j. pgid (f j) = pgid j" and j: "(a, j) \<in> set t"
    and "nlive (f j) = alive_count (dom K') j" and "state (f j) = JOB_DONE \<longleftrightarrow> nlive (f j) = 0"
    and K': "\<And>p. K' p = K p \<or> K' p = None \<and> p \<in> set (job_pids j)"
  shows "book F K' (upd_job a f t)"
proof -
  let ?t = "upd_job a f t"
  have mapd: "map (job_pids \<circ> snd) ?t = map (job_pids \<circ> snd) t"
    using job_pids_keeps [OF f(1)] by (auto simp: upd_job_def)
  have dom: "0 \<notin> dom K'"
    using B K' [of 0] by (auto simp: book_def link_def domIff)
  have one: "nlive k' = alive_count (dom K') k' \<and> (state k' = JOB_DONE \<longleftrightarrow> nlive k' = 0) \<and> pgid k' \<in> set (job_pids k')
      \<and> set (job_pids k') \<subseteq> F \<and> (\<forall>p \<in> set (job_pids k'). \<forall>g. K' p = Some g \<longrightarrow> g = pgid k')"
    if k': "(b, k') \<in> set ?t" for b k'
  proof -
    obtain k where k: "(b, k) \<in> set t" "k' = (if b = a then f k else k)" using k' set_upd_job by blast
    have old: "nlive k = alive_count (dom K) k" "state k = JOB_DONE \<longleftrightarrow> nlive k = 0" "pgid k \<in> set (job_pids k)"
      "set (job_pids k) \<subseteq> F" "\<forall>p \<in> set (job_pids k). \<forall>g. K p = Some g \<longrightarrow> g = pgid k"
      using B k(1) unfolding book_def link_def by blast+
    have grpk: "\<forall>p \<in> set (job_pids k). \<forall>g. K' p = Some g \<longrightarrow> g = pgid k"
      using old(5) K' by (metis option.distinct(1))
    show ?thesis
    proof (cases "b = a")
      case True
      with book_unique [OF B j k(1)] have "k = j" by simp
      with True k(2) have e: "k' = f j" by simp
      have c: "alive_count A (f j) = alive_count A j" for A
        using job_pids_keeps [OF f(1)] by (simp add: alive_count_def)
      show ?thesis
        unfolding e job_pids_keeps [OF f(1)] f(2) c
        using assms(5,6) old(3-5) grpk unfolding \<open>k = j\<close> by blast
    next
      case False
      with book_unique [OF B j k(1)] have "set (job_pids j) \<inter> set (job_pids k) = {}" by blast
      then have "K' p = K p" if "p \<in> set (job_pids k)" for p using K' [of p] that by blast
      then have "alive_count (dom K') k = alive_count (dom K) k"
        by (intro alive_count_cong) (simp add: domIff)
      then have n: "nlive k = alive_count (dom K') k" using old(1) by simp
      have e: "k' = k" using False k(2) by simp
      show ?thesis unfolding e using n old(2-4) grpk by blast
    qed
  qed
  have track: "\<exists>(b, k) \<in> set ?t. p \<in> set (job_pids k)" if "K' p \<noteq> None" for p
  proof -
    from that K' [of p] have "K p \<noteq> None" by auto
    then obtain b k where k: "(b, k) \<in> set t" "p \<in> set (job_pids k)" using B unfolding book_def by blast
    then have "(b, if b = a then f k else k) \<in> set ?t" using set_upd_job by blast
    moreover have "p \<in> set (job_pids (if b = a then f k else k))" using k(2) job_pids_keeps [OF f(1)] by simp
    ultimately show ?thesis by blast
  qed
  have "tab_inv ?t" using upd_job_inv [OF f(1)] B by (simp add: book_def)
  moreover have "link (dom K') ?t" using B dom one by (auto simp: link_def book_def mapd)
  ultimately show ?thesis using one track unfolding book_def by blast
qed

lemma book_remove:
  assumes B: "book F K t" and j: "(a, j) \<in> set t" and "alive_count (dom K) j = 0"
  shows "book F K (jobs_remove a t)"
proof -
  have d: "distinct (map fst t)" using B by (simp add: book_def tab_inv_def)
  have rem: "jobs_remove a t = filter (\<lambda>e. fst e \<noteq> a) t" using jobs_remove_filter [OF d] .
  have "\<exists>(b, k) \<in> set (jobs_remove a t). p \<in> set (job_pids k)" if "K p \<noteq> None" for p
  proof -
    obtain b k where k: "(b, k) \<in> set t" "p \<in> set (job_pids k)" using B \<open>K p \<noteq> None\<close> unfolding book_def by blast
    have "b \<noteq> a"
      using book_unique [OF B j k(1)] assms(3) k(2) that by (auto simp: alive_count_zero domIff)
    with k show ?thesis unfolding rem by (intro bexI [of _ "(b, k)"]) simp_all
  qed
  moreover have "tab_inv (jobs_remove a t)" "link (dom K) (jobs_remove a t)"
    using B tab_inv_filter link_filter unfolding book_def rem by auto
  ultimately show ?thesis
    using B unfolding book_def rem by (simp add: case_prod_beta)
qed

definition bk :: "'e shell \<Rightarrow> bool" where
  "bk s \<longleftrightarrow> book (forked (trace s)) (kids (trace s)) (tab s)"

text \<open>Who holds the terminal after a trace.\<close>

definition term_of :: "event list \<Rightarrow> pid" where
  "term_of es = fold (\<lambda>e g. case e of ETerm h \<Rightarrow> h | _ \<Rightarrow> g) es 0"

lemma term_of_snoc [simp]: "term_of (es @ [ETerm g]) = g"
  by (simp add: term_of_def)

lemma term_of_other:
  assumes "\<forall>g. ETerm g \<notin> set us"
  shows "term_of (es @ us) = term_of es"
proof -
  have "fold (\<lambda>e g. case e of ETerm h \<Rightarrow> h | _ \<Rightarrow> g) us x = x" for x
    using assms by (induction us arbitrary: x) (auto split: event.splits)
  then show ?thesis by (simp add: term_of_def)
qed

lemma job_at_eq: "book F K t \<Longrightarrow> (a, j) \<in> set t \<Longrightarrow> job_at a t = j"
  by (simp add: job_at_def book_def tab_inv_def)

lemma upd_job_const:
  assumes "book F K t" and "(a, j) \<in> set t"
  shows "upd_job a (\<lambda>_. f j) t = upd_job a f t"
proof -
  have "f j = f k" if "(a, k) \<in> set t" for k using book_unique [OF assms that] by simp
  then show ?thesis unfolding upd_job_def by (intro map_cong) auto
qed

lemma book_group_of:
  assumes B: "book F K t" and j: "(a, j) \<in> set t"
  shows "group_of K (pgid j) j"
proof -
  have facts: "pgid k \<in> set (job_pids k)" "\<And>p g. p \<in> set (job_pids k) \<Longrightarrow> K p = Some g \<Longrightarrow> g = pgid k"
    if "(b, k) \<in> set t" for b k
    using B that unfolding book_def by blast+
  have "distinct (job_pids j)" "nlive j = alive_count (dom K) j"
    using B j by (auto simp: book_def link_def distinct_concat_iff)
  moreover have "p \<in> set (job_pids j)" if p: "K p = Some (pgid j)" for p
  proof -
    obtain b k where k: "(b, k) \<in> set t" "p \<in> set (job_pids k)" using B p unfolding book_def by blast
    have "pgid j = pgid k" using facts(2) [OF k p] .
    then have "pgid j \<in> set (job_pids j) \<inter> set (job_pids k)" using facts(1) [OF j] facts(1) [OF k(1)] by simp
    then have "set (job_pids j) \<inter> set (job_pids k) \<noteq> {}" by blast
    with book_unique [OF B j k(1)] k(2) show ?thesis by simp
  qed
  ultimately show ?thesis
    using facts(2) [OF j] unfolding group_of_def by auto
qed

lemma wait_and_reclaim_bk:
  assumes W: "wait_and_reclaim ws a s = Some s'" and B: "bk s" and j: "(a, j) \<in> set (tab s)"
    and H: "honest (trace s')" and "shell_pgid s > 0"
  shows "bk s' \<and> term_of (trace s') = shell_pgid s"
proof -
  let ?F = "forked (trace s)" and ?K = "kids (trace s)"
  have B': "book ?F ?K (tab s)" using B by (simp add: bk_def)
  note ja = job_at_eq [OF B' j]
  from W obtain ws' j' where w: "jobs_wait_fg ws j = Some (ws', j')"
    by (auto simp: wait_and_reclaim_def ja Let_def split: option.splits)
  let ?es = "map (EWait (Some (pgid j))) (consumed ws ws')"
  let ?t = "upd_job a (\<lambda>_. j') (tab s)"
  have s': "tab s' = (if state j' = JOB_DONE then jobs_remove a ?t else ?t)"
    "trace s' = trace s @ ?es @ [ETerm (shell_pgid s)]"
    using W w assms(5) by (auto simp: wait_and_reclaim_def ja Let_def)
  let ?K' = "kids (trace s @ ?es)"
  have wt: "waited ?K ?K' j j'"
    using H by (intro wait_fg_waited [OF w book_group_of [OF B' j]]) (simp add: s')
  let ?f = "\<lambda>k. k\<lparr>nlive := nlive j', state := state j'\<rparr>"
  have fj: "?f j = j'" using wt unfolding waited_def by auto
  have t: "?t = upd_job a ?f (tab s)" using upd_job_const [OF B' j, of ?f] unfolding fj .
  have new: "book ?F ?K' ?t"
    unfolding t using wt j by (intro book_upd [OF B']) (auto simp: keeps_frame_def waited_def)
  have "book ?F ?K' (tab s')"
  proof (cases "state j' = JOB_DONE")
    case True
    have "(a, j') \<in> set ?t" using j set_upd_job by fastforce
    moreover have "alive_count (dom ?K') j' = 0"
      using wt True alive_count_status unfolding waited_def by (metis)
    ultimately show ?thesis using book_remove [OF new] True s'(1) by simp
  qed (use new s' in simp)
  moreover have "kids (trace s') = ?K'" "forked (trace s') = ?F" by (simp_all add: s' kids_append)
  ultimately show ?thesis
    using term_of_snoc [of "trace s @ ?es" "shell_pgid s"] by (simp add: bk_def s')
qed

lemma job_pids_rebase [simp]: "job_pids ((rebase_pointers a j)\<lparr>jid := n\<rparr>) = job_pids j"
  by (simp add: job_pids_def take_cmds_rebase comp_def)

lemma fork_done_job_pids:
  assumes "fork_done fk piped 0 j s m es pg j' s'" and "\<forall>k. fk k \<noteq> 0"
  shows "job_pids j' = map fk [0..<m]"
proof -
  have "job_pids j' = filter (\<lambda>p. p \<noteq> 0) (pids_of j')"
    by (simp add: job_pids_def pids_of_def)
  then show ?thesis using assms by (simp add: fork_done_def filter_map comp_def)
qed

text \<open>The pids the table lists, also those of dead processes of a job that is still there.\<close>

definition listed :: "'e jobtab \<Rightarrow> pid set" where
  "listed t = (\<Union>(a, j) \<in> set t. set (job_pids j))"

text \<open>A new job with the new processes \<open>ps\<close>, the first of them the leader of their group.\<close>

lemma book_snoc:
  assumes B: "book F K t" and N: "set ps \<inter> listed t = {}" "distinct ps" "0 \<notin> set ps" "ps \<noteq> []"
    and K': "K' = (\<lambda>p. if p \<in> set ps then Some (hd ps) else K p)" and inv: "tab_inv (t @ [(a, J)])"
    and J: "job_pids J = ps" "state J = JOB_RUNNING" "nlive J = int (length ps)" "pgid J = hd ps"
  shows "book (F \<union> set ps) K' (t @ [(a, J)])"
proof -
  have old: "nlive k = alive_count (dom K) k" "state k = JOB_DONE \<longleftrightarrow> nlive k = 0" "pgid k \<in> set (job_pids k)"
      "set (job_pids k) \<subseteq> F" "\<forall>p \<in> set (job_pids k). \<forall>g. K p = Some g \<longrightarrow> g = pgid k"
    if "(b, k) \<in> set t" for b k
    using B that unfolding book_def link_def by blast+
  have same: "K' p = K p" if "(b, k) \<in> set t" "p \<in> set (job_pids k)" for b k p
    using N(1) that by (auto simp: K' listed_def)
  have cnt: "alive_count (dom K') k = alive_count (dom K) k" if "(b, k) \<in> set t" for b k
    using same [OF that] by (intro alive_count_cong) (simp add: domIff)
  have "filter (\<lambda>p. p \<in> dom K') ps = ps" by (intro filter_True) (auto simp: K')
  then have newj: "alive_count (dom K') J = int (length ps)" by (simp add: alive_count_def J)
  have L: "link (dom K) t" using B by (simp add: book_def)
  then have "0 \<notin> dom K'" using N(3) by (auto simp: link_def K' split: if_splits)
  moreover have "set (concat (map (job_pids \<circ> snd) t)) = listed t" by (auto simp: listed_def)
  then have "distinct (concat (map (job_pids \<circ> snd) (t @ [(a, J)])))" using L N J(1) by (auto simp: link_def)
  moreover have "nlive k = alive_count (dom K') k \<and> (state k = JOB_DONE \<longleftrightarrow> nlive k = 0)"
    if "(b, k) \<in> set (t @ [(a, J)])" for b k
    using that old(1,2) cnt newj J N(4) by auto
  ultimately have link: "link (dom K') (t @ [(a, J)])" by (auto simp: link_def)
  have "pgid k \<in> set (job_pids k) \<and> set (job_pids k) \<subseteq> F \<union> set ps
      \<and> (\<forall>p \<in> set (job_pids k). \<forall>g. K' p = Some g \<longrightarrow> g = pgid k)" if k: "(b, k) \<in> set (t @ [(a, J)])" for b k
  proof (cases "(b, k) \<in> set t")
    case True
    show ?thesis using old(3-5) [OF True] same [OF True] by auto
  qed (use k J N(4) in \<open>auto simp: K'\<close>)
  moreover have "\<exists>(b, k) \<in> set (t @ [(a, J)]). p \<in> set (job_pids k)" if "K' p \<noteq> None" for p
    using that B J(1) unfolding book_def K' by (cases "p \<in> set ps") auto
  ultimately show ?thesis using inv link unfolding book_def by blast
qed

lemma book_add:
  assumes B: "bk s" and F: "fork_done fk piped 0 proto s m es pg j1 (emit es s)" and "\<forall>k. fk k \<noteq> 0"
    and "m > 0" and "honest_from (trace s) es" and "state proto = JOB_RUNNING"
    and add: "jobs_add h (j1\<lparr>pgid := pg\<rparr>) (tab s) = (Some a, t')" and "a \<notin> fst ` set (tab s)"
    and U: "forked es \<inter> listed (tab s) = {}"
  shows "book (forked (trace s @ es)) (kids (trace s @ es)) t' \<and> (\<exists>j. (a, j) \<in> set t')"
proof -
  let ?ps = "map fk [0..<m]"
  have h: "h = Some a" using add by (auto simp: jobs_add_def Let_def split: if_splits option.splits)
  then obtain n where t': "t' = tab s @ [(a, (rebase_pointers a (j1\<lparr>pgid := pg\<rparr>))\<lparr>jid := n\<rparr>)]"
    using add by (auto simp: jobs_add_def Let_def split: if_splits)
  define J where "J = (rebase_pointers a (j1\<lparr>pgid := pg\<rparr>))\<lparr>jid := n\<rparr>"
  have pj: "job_pids J = ?ps"
    using fork_done_job_pids [OF F assms(3)] by (simp add: J_def) (simp add: job_pids_def)
  have hd: "hd ?ps = fk 0" using assms(4) by (simp add: upt_conv_Cons)
  have K': "kids (trace s @ es) = (\<lambda>p. if p \<in> set ?ps then Some (hd ?ps) else kids (trace s) p)"
    unfolding hd using F by (simp add: fork_done_def fun_eq_iff)
  have fo: "forked (trace s @ es) = forked (trace s) \<union> set ?ps" using F by (simp add: fork_done_def)
  have N: "set ?ps \<inter> listed (tab s) = {}" "distinct ?ps" "0 \<notin> set ?ps" "?ps \<noteq> []"
    using F U assms(3-5) by (auto simp: fork_done_def)
  have st: "state J = JOB_RUNNING" "nlive J = int (length ?ps)" "pgid J = hd ?ps"
    unfolding hd using F assms(4,6) same_text_fields(5) [of proto j1] by (simp_all add: J_def fork_done_def)
  have inv: "tab_inv (tab s @ [(a, J)])"
    using jobs_add_inv [of "tab s" h "j1\<lparr>pgid := pg\<rparr>"] B h assms(8) add by (simp add: bk_def book_def t' J_def)
  have "book (forked (trace s @ es)) (kids (trace s @ es)) t'"
    unfolding fo t' J_def [symmetric] using B st
    by (intro book_snoc [OF _ N K' inv pj]) (simp_all add: bk_def)
  then show ?thesis by (auto simp: t')
qed

subsection \<open>Every operation of the shell\<close>

text \<open>
  The shell between two calls: the books agree, the terminal is the shell's, and its descriptor
  table is the one it started with.
\<close>

definition at_prompt :: "fdtab \<Rightarrow> 'e shell \<Rightarrow> bool" where
  "at_prompt t0 s \<longleftrightarrow> bk s \<and> term_of (trace s) = shell_pgid s \<and> shell_pgid s > 0 \<and> fdt s = t0"

definition overflow :: event where
  "overflow = EErr ''yash: too many jobs''"

text \<open>The answers \<^verbatim>\<open>fork\<close> and \<^verbatim>\<open>malloc\<close> may give.\<close>

definition answers_ok :: "answers \<Rightarrow> 'e shell \<Rightarrow> bool" where
  "answers_ok ans s \<longleftrightarrow> (\<forall>k. forks ans k \<noteq> 0) \<and> (\<forall>a. heap ans = Some a \<longrightarrow> a \<notin> fst ` set (tab s))"

lemma wait_and_reclaim_prompt:
  assumes "wait_and_reclaim ws a s = Some s'" and "bk s" and "(a, j) \<in> set (tab s)"
    and "honest (trace s')" and "shell_pgid s > 0" and "fdt s = t0"
  shows "at_prompt t0 s'"
  using wait_and_reclaim_bk [OF assms(1-5)] wait_and_reclaim_frame [OF assms(1)] assms(5,6)
  by (simp add: at_prompt_def)

lemma exec_added_prompt:
  assumes P: "at_prompt t0 s" and F: "fork_done fk piped 0 proto s m es pg j1 (emit es s)" and fk: "\<forall>k. fk k \<noteq> 0"
    and "m > 0" and run: "state proto = JOB_RUNNING"
    and add: "jobs_add h (j1\<lparr>pgid := pg\<rparr>) (tab s) = (Some a, t')" and fresh: "a \<notin> fst ` set (tab s)"
    and s': "if background (job_at a t') then s' = (emit es s)\<lparr>tab := t'\<rparr>
      else wait_and_reclaim ws a (sig_give_terminal (pgid (job_at a t')) ((emit es s)\<lparr>tab := t'\<rparr>)) = Some s'"
    and H: "honest (trace s')" and U: "forked es \<inter> listed (tab s) = {}"
  shows "at_prompt t0 s'"
proof -
  let ?s = "(emit es s)\<lparr>tab := t'\<rparr>"
  let ?g = "sig_give_terminal (pgid (job_at a t')) ?s"
  have B: "bk s" "term_of (trace s) = shell_pgid s" "shell_pgid s > 0" "fdt s = t0"
    using P by (auto simp: at_prompt_def)
  have quiet: "\<forall>g. ETerm g \<notin> set es" using F by (simp add: fork_done_def)
  have "\<exists>us. trace s' = trace s @ es @ us"
  proof (cases "background (job_at a t')")
    case False
    with s' have "wait_and_reclaim ws a ?g = Some s'" by simp
    from wait_and_reclaim_frame [OF this] show ?thesis by auto
  qed (use s' in simp)
  then have hes: "honest_from (trace s) es" using H by auto
  have book: "book (forked (trace s @ es)) (kids (trace s @ es)) t'" "\<exists>j. (a, j) \<in> set t'"
    using book_add [OF B(1) F fk assms(4) hes run add fresh U] by simp_all
  show ?thesis
  proof (cases "background (job_at a t')")
    case True
    with s' B book term_of_other [OF quiet] show ?thesis by (simp add: at_prompt_def bk_def)
  next
    case False
    obtain j where j: "(a, j) \<in> set t'" using book(2) by blast
    have "bk ?g" using book(1) by (simp add: bk_def kids_append)
    moreover have "wait_and_reclaim ws a ?g = Some s'" using False s' by simp
    ultimately show ?thesis using j B H by (intro wait_and_reclaim_prompt [of ws a ?g s' j]) simp_all
  qed
qed

lemma exec_job_prompt:
  assumes E: "exec_job os ans proto s = Some s'" and P: "at_prompt t0 s" and "fresh_job pa proto"
    and "answers_ok ans s" and "std_open t0" and "3 \<le> fd_max os" and "no_pipe_ends t0"
    and H: "honest (trace s')" and O: "overflow \<notin> set (trace s')"
    and U: "forked (drop (length (trace s)) (trace s')) \<inter> listed (tab s) = {}"
  shows "at_prompt t0 s'"
proof -
  have fk: "\<forall>k. forks ans k \<noteq> 0" using assms(4) by (simp add: answers_ok_def)
  have B: "bk s" "term_of (trace s) = shell_pgid s" "shell_pgid s > 0" "fdt s = t0"
    using P by (auto simp: at_prompt_def)
  then have fd: "std_open (fdt s)" "no_pipe_ends (fdt s)" using assms(5,7) by simp_all
  show ?thesis
    using E assms(3) fk fd(1) assms(6) fd(2)
  proof (cases rule: exec_job_cases)
    case nopipe
    then show ?thesis using B term_of_other [of "[EErr ''pipe'']" "trace s"] by (simp add: at_prompt_def bk_def kids_append)
  next
    case (forked m es pg j1)
    obtain r t' where add: "jobs_add (heap ans) (j1\<lparr>pgid := pg\<rparr>) (tab s) = (r, t')" by (metis prod.exhaust)
    have quiet: "\<forall>g. ETerm g \<notin> set es" using forked(1) by (simp add: fork_done_def)
    show ?thesis
    proof (cases "m = 0")
      case True
      then have "kids (trace s @ es) = kids (trace s)" "Yash_Exec.forked es = {}"
        using forked(1) by (auto simp: fork_done_def fun_eq_iff)
      with True forked(2) B term_of_other [OF quiet] show ?thesis by (simp add: at_prompt_def bk_def)
    next
      case False
      show ?thesis
      proof (cases r)
        case None
        with forked(2) False add O show ?thesis by (simp add: overflow_def)
      next
        case (Some a)
        then have "heap ans = Some a"
          using add by (auto simp: jobs_add_def Let_def split: if_splits option.splits)
        then have fresh: "a \<notin> fst ` set (tab s)" using assms(4) by (simp add: answers_ok_def)
        have run: "state proto = JOB_RUNNING" using assms(3) by (simp add: fresh_job_def)
        obtain us where "trace s' = trace s @ es @ us"
        proof (cases "background (job_at a t')")
          case False
          with forked(2) \<open>m \<noteq> 0\<close> add Some have "wait_and_reclaim (waits ans) a
              (sig_give_terminal (pgid (job_at a t')) ((emit es s)\<lparr>tab := t'\<rparr>)) = Some s'" by simp
          from wait_and_reclaim_frame [OF this] show ?thesis by (auto intro: that)
        qed (use forked(2) False add Some that [of "[]"] in simp)
        then have "Yash_Exec.forked es \<inter> listed (tab s) = {}" using U by auto
        then show ?thesis
          using forked(2) False add Some exec_added_prompt [OF P forked(1) fk _ run _ fresh _ H] by simp
      qed
    qed
  qed
qed

text \<open>Events that change neither the children nor the terminal.\<close>

definition silent :: "event \<Rightarrow> bool" where
  "silent e \<longleftrightarrow> (case e of EOut _ \<Rightarrow> True | EErr _ \<Rightarrow> True | EKill _ _ \<Rightarrow> True | _ \<Rightarrow> False)"

lemma silent_facts:
  assumes "\<forall>e \<in> set us. silent e"
  shows "kids (es @ us) = kids es" "forked us = {}" "term_of (es @ us) = term_of es"
proof -
  have "fold kstep us K = K" for K
    using assms by (induction us arbitrary: K) (auto simp: silent_def split: event.splits)
  then show "kids (es @ us) = kids es" by (simp add: kids_append)
  show "forked us = {}" using assms by (force simp: forked_def silent_def)
  show "term_of (es @ us) = term_of es" using assms by (intro term_of_other) (force simp: silent_def)
qed

lemma emit_silent_prompt:
  "\<forall>e \<in> set us. silent e \<Longrightarrow> at_prompt t0 (emit us s) = at_prompt t0 s"
  by (simp add: at_prompt_def bk_def silent_facts)

lemma reap_phase_prompt:
  assumes "at_prompt t0 s" and "honest (trace (reap_phase ws s))"
  shows "at_prompt t0 (reap_phase ws s)"
proof -
  obtain ws' t' out where r: "jobs_reap ws (tab s) = (ws', t', out)" by (metis prod_cases3)
  let ?es = "map (EWait None) (consumed ws ws')"
  let ?s = "emit ?es (s\<lparr>tab := t'\<rparr>)"
  have e: "reap_phase ws s = emit (map EOut out) ?s" by (simp add: reap_phase_def r)
  have "book (forked (trace s)) (kids (trace s @ ?es)) t'"
    using assms e by (intro book_reap [OF _ r]) (auto simp: at_prompt_def bk_def)
  then have "at_prompt t0 ?s"
    using assms(1) term_of_other [of ?es "trace s"] by (auto simp: at_prompt_def bk_def)
  then show ?thesis unfolding e by (subst emit_silent_prompt) (auto simp: silent_def)
qed

lemma current_in_table: "jobs_current t = Some a \<Longrightarrow> \<exists>j. (a, j) \<in> set t \<and> state j \<noteq> JOB_DONE"
  unfolding jobs_current_def last_such_Some_iff live_iff by auto

lemma stopped_in_table: "jobs_recent_stopped t = Some a \<Longrightarrow> \<exists>j. (a, j) \<in> set t \<and> state j = JOB_STOPPED"
  unfolding jobs_recent_stopped_def last_such_Some_iff by auto

lemma book_upd_same:
  assumes "book F K t" and "(a, j) \<in> set t" and "state j \<noteq> JOB_DONE"
    and "keeps_frame f" "\<And>j. pgid (f j) = pgid j" "\<And>j. nlive (f j) = nlive j" and "state (f j) \<noteq> JOB_DONE"
  shows "book F K (upd_job a f t)"
proof -
  have "nlive j = alive_count (dom K) j" "nlive j \<noteq> 0"
    using assms(1-3) unfolding book_def link_def by blast+
  then show ?thesis using assms by (intro book_upd [OF assms(1)]) auto
qed

lemma do_fg_prompt:
  assumes "do_fg ws s = Some s'" and P: "at_prompt t0 s" and H: "honest (trace s')"
  shows "at_prompt t0 s'"
proof (cases "jobs_current (tab s)")
  case (Some a)
  have B: "bk s" "shell_pgid s > 0" "fdt s = t0" using P by (auto simp: at_prompt_def)
  obtain j where j: "(a, j) \<in> set (tab s)" "state j \<noteq> JOB_DONE" using current_in_table [OF Some] by blast
  let ?f = "\<lambda>j. j\<lparr>background := False\<rparr>" and ?g = "\<lambda>j. j\<lparr>state := JOB_RUNNING\<rparr>"
  let ?t = "upd_job a ?g (upd_job a ?f (tab s))"
  have ja: "job_at a (tab s) = j" using job_at_eq B(1) j(1) unfolding bk_def by blast
  have 1: "book (forked (trace s)) (kids (trace s)) (upd_job a ?f (tab s))"
    using B(1) j unfolding bk_def by (intro book_upd_same) (auto simp: keeps_frame_def)
  have j1: "(a, ?f j) \<in> set (upd_job a ?f (tab s))" using j(1) set_upd_job by fastforce
  have 2: "book (forked (trace s)) (kids (trace s)) ?t"
    using j(2) by (intro book_upd_same [OF 1 j1]) (auto simp: keeps_frame_def)
  have j2: "(a, ?g (?f j)) \<in> set ?t" using j1 set_upd_job by fastforce
  obtain s5 where s5: "wait_and_reclaim ws a s5 = Some s'" "tab s5 = ?t" "fdt s5 = fdt s" "shell_pgid s5 = shell_pgid s"
    "kids (trace s5) = kids (trace s)" "forked (trace s5) = forked (trace s)"
    using assms(1) Some unfolding do_fg_def
    by (cases "state j = JOB_STOPPED"; cases "pgid j > 0") (auto simp: ja Let_def kids_append)
  then show ?thesis
    using 2 j2 B H by (intro wait_and_reclaim_prompt [OF s5(1) _ _ H]) (auto simp: bk_def)
qed (use assms in \<open>auto simp: do_fg_def\<close>)

lemma do_bg_prompt:
  assumes P: "at_prompt t0 s"
  shows "at_prompt t0 (do_bg s)"
proof (cases "jobs_recent_stopped (tab s)")
  case (Some a)
  obtain j where j: "(a, j) \<in> set (tab s)" "state j = JOB_STOPPED" using stopped_in_table [OF Some] by blast
  let ?f = "\<lambda>j. j\<lparr>state := JOB_RUNNING, background := True\<rparr>"
  have "book (forked (trace s)) (kids (trace s)) (upd_job a ?f (tab s))"
    using P j unfolding at_prompt_def bk_def by (intro book_upd_same) (auto simp: keeps_frame_def)
  then have 1: "at_prompt t0 (s\<lparr>tab := upd_job a ?f (tab s)\<rparr>)" using P by (simp add: at_prompt_def bk_def)
  obtain us where "do_bg s = emit us (s\<lparr>tab := upd_job a ?f (tab s)\<rparr>)" "\<forall>e \<in> set us. silent e"
    using Some by (simp add: do_bg_def Let_def) (auto simp: emit_def silent_def)
  then show ?thesis using 1 emit_silent_prompt by metis
qed (use P in \<open>auto simp: do_bg_def\<close>)

lemma builtin_try_prompt:
  assumes "builtin_try ws job s = Some (b, s')" and P: "at_prompt t0 s" and H: "honest (trace s')"
  shows "at_prompt t0 s' \<and> (\<not> b \<longrightarrow> s' = s)"
proof -
  have "at_prompt t0 (emit (map EOut (jobs_print (tab s))) s)"
    using P by (subst emit_silent_prompt) (auto simp: silent_def)
  then show ?thesis
    using assms do_fg_prompt [OF _ P H] do_bg_prompt [OF P]
    by (auto simp: builtin_try_def Let_def split: if_splits)
qed

subsection \<open>The loop\<close>

lemma line_text_no_NUL: "NUL \<notin> set (line_text l)"
  by (auto simp: line_text_def dest!: set_takeWhileD)

definition outcome_shell :: "'s outcome \<Rightarrow> 's option" where
  "outcome_shell r = (case r of Next inp s \<Rightarrow> Some s | Quit s \<Rightarrow> Some s | Stuck \<Rightarrow> None)"

lemma exec_job_extends:
  assumes "exec_job os ans proto s = Some s'" and "fresh_job pa proto" and "\<forall>k. forks ans k \<noteq> 0"
    and "std_open (fdt s)" and "3 \<le> fd_max os" and "no_pipe_ends (fdt s)"
  shows "\<exists>us. trace s' = trace s @ us"
  using assms
proof (cases rule: exec_job_cases)
  case (forked m es pg j1)
  obtain r t' where add: "jobs_add (heap ans) (j1\<lparr>pgid := pg\<rparr>) (tab s) = (r, t')" by (metis prod.exhaust)
  show ?thesis
  proof (cases "m = 0 \<or> r = None \<or> background (job_at (the r) t')")
    case True
    with forked(2) add show ?thesis by (cases r) (auto split: if_splits)
  next
    case False
    with forked(2) add have "wait_and_reclaim (waits ans) (the r)
        (sig_give_terminal (pgid (job_at (the r) t')) ((emit es s)\<lparr>tab := t'\<rparr>)) = Some s'" by auto
    from wait_and_reclaim_frame [OF this] show ?thesis by auto
  qed
qed simp

lemma do_fg_extends: "do_fg ws s = Some s' \<Longrightarrow> \<exists>us. trace s' = trace s @ us"
  unfolding do_fg_def Let_def
  by (auto split: option.splits if_splits dest!: wait_and_reclaim_frame)

lemma builtin_try_extends:
  assumes "builtin_try ws job s = Some (b, s')"
  shows "\<exists>us. trace s' = trace s @ us"
proof -
  have "\<exists>us. trace (do_bg s) = trace s @ us" by (auto simp: do_bg_def Let_def split: option.split)
  then show ?thesis
    using assms do_fg_extends by (auto simp: builtin_try_def Let_def split: if_splits)
qed

text \<open>
  What the kernel and the library promise about a round, and the two ways in which the shell can lose
  track of a child in spite of that: \<^verbatim>\<open>jobs_add\<close> refuses a job whose processes run already
  (20 jobs, or no memory; both print \<^verbatim>\<open>too many jobs\<close>), or \<^verbatim>\<open>fork\<close> gives a new process the id of a dead one that a job of the
  table still lists.
\<close>

definition kernel_ok :: "os \<Rightarrow> round \<Rightarrow> bytes \<Rightarrow> unit shell \<Rightarrow> bool" where
  "kernel_ok os r inp s \<longleftrightarrow> answers_ok (answ r) (reap_phase (sweep r) s)
     \<and> (\<forall>s'. outcome_shell (main_round os r inp s) = Some s' \<longrightarrow> honest (trace s'))"

definition gap :: "os \<Rightarrow> round \<Rightarrow> bytes \<Rightarrow> unit shell \<Rightarrow> bool" where
  "gap os r inp s \<longleftrightarrow> (case outcome_shell (main_round os r inp s) of None \<Rightarrow> False
     | Some s' \<Rightarrow> overflow \<in> set (trace s')
         \<or> forked (drop (length (trace s)) (trace s')) \<inter> listed (tab (reap_phase (sweep r) s)) \<noteq> {})"

definition round_ok :: "os \<Rightarrow> round \<Rightarrow> bytes \<Rightarrow> unit shell \<Rightarrow> bool" where
  "round_ok os r inp s \<longleftrightarrow> kernel_ok os r inp s \<and> \<not> gap os r inp s"

definition sane :: "os \<Rightarrow> fdtab \<Rightarrow> bool" where
  "sane os t0 \<longleftrightarrow> std_open t0 \<and> no_pipe_ends t0 \<and> 3 \<le> fd_max os"

lemma later_forks: "length es \<le> length us \<Longrightarrow> forked (drop (length us) vs) \<subseteq> forked (drop (length es) vs)"
  using set_drop_subset_set_drop [of "length es" "length us" vs] by (auto simp: forked_def)

lemma main_round_prompt:
  assumes P: "at_prompt t0 s" and S: "sane os t0" and R: "round_ok os r inp s"
    and O: "outcome_shell (main_round os r inp s) = Some s'"
  shows "at_prompt t0 s'"
proof -
  let ?s1 = "emit [EOut ''# ''] (reap_phase (sweep r) s)"
  have H: "honest (trace s')" "overflow \<notin> set (trace s')" using R O by (auto simp: round_ok_def kernel_ok_def gap_def)
  have prompt1: "at_prompt t0 ?s1" if "honest (trace ?s1)"
    using that P reap_phase_prompt [of t0 s "sweep r"] by (subst emit_silent_prompt) (auto simp: silent_def)
  have A: "answers_ok (answ r) ?s1" using R by (simp add: round_ok_def kernel_ok_def answers_ok_def)
  consider (line) "s' = emit [EOut [newline]] ?s1" | (quit) "s' = ?s1"
    | (blt) job where "builtin_try (waits (answ r)) job ?s1 = Some (True, s')"
    | (run) l job s2 where "parse_line main_job (Some (line_text l)) (zero_job ()) = (PARSE_OK, job)"
        "builtin_try (waits (answ r)) job ?s1 = Some (False, s2)" "exec_job os (answ r) job s2 = Some s'"
    using O unfolding main_round_def Let_def outcome_shell_def
    by (auto split: if_splits option.splits prod.splits bool.splits)
  then show ?thesis
  proof cases
    case line
    then have "honest (trace ?s1)" using H(1) by simp
    then show ?thesis unfolding line using prompt1 by (subst emit_silent_prompt) (auto simp: silent_def)
  next
    case quit
    then show ?thesis using prompt1 H by simp
  next
    case blt
    then obtain us where "trace s' = trace ?s1 @ us" using builtin_try_extends by blast
    then have "honest (trace ?s1)" using H(1) by (simp del: emit_simps)
    with blt H prompt1 builtin_try_prompt show ?thesis by blast
  next
    case run
    have fresh: "fresh_job main_job job" using parse_line_fresh [OF line_text_no_NUL run(1)] .
    have s2: "s2 = ?s1" using run(2) by (auto simp: builtin_try_def Let_def split: if_splits)
    have P0: "std_open (fdt ?s1)" "no_pipe_ends (fdt ?s1)" "3 \<le> fd_max os"
      using P S by (auto simp: at_prompt_def sane_def reap_phase_def split: prod.split)
    obtain us where "trace s' = trace ?s1 @ us"
      using exec_job_extends [OF run(3) fresh, unfolded s2, OF _ P0(1,3,2)] A by (auto simp: answers_ok_def)
    then have h1: "honest (trace ?s1)" using H(1) by (simp del: emit_simps)
    have U: "forked (drop (length (trace ?s1)) (trace s')) \<inter> listed (tab ?s1) = {}"
      using R O later_forks [of "trace s" "trace ?s1" "trace s'"] by (auto simp: round_ok_def gap_def reap_phase_def split: prod.splits)
    show ?thesis
      using exec_job_prompt [OF run(3), unfolded s2, OF prompt1 [OF h1] fresh A _ _ _ H U] S by (simp add: sane_def)
  qed
qed

text \<open>The rounds of the shell as a system with an invariant.\<close>

definition shell_step :: "os \<Rightarrow> round \<Rightarrow> bytes \<times> unit shell \<Rightarrow> bytes \<times> unit shell" where
  "shell_step os r st = (case main_round os r (fst st) (snd st) of
     Next inp' s' \<Rightarrow> (inp', s') | Quit s' \<Rightarrow> (fst st, s') | Stuck \<Rightarrow> st)"

interpretation shell_rounds: inv_system "\<lambda>st. sane os t0 \<and> at_prompt t0 (snd st)"
    "\<lambda>r st. round_ok os r (fst st) (snd st)" "shell_step os" for os t0
proof
  fix st r assume "sane os t0 \<and> at_prompt t0 (snd st)" "round_ok os r (fst st) (snd st)"
  then show "sane os t0 \<and> at_prompt t0 (snd (shell_step os r st))"
    using main_round_prompt [of t0 "snd st" os r "fst st"]
    by (auto simp: shell_step_def outcome_shell_def split: outcome.splits)
qed

fun rounds_ok :: "os \<Rightarrow> round list \<Rightarrow> bytes \<Rightarrow> unit shell \<Rightarrow> bool" where
  "rounds_ok os [] inp s \<longleftrightarrow> True"
| "rounds_ok os (r # rs) inp s \<longleftrightarrow> round_ok os r inp s
     \<and> (case main_round os r inp s of Next inp' s' \<Rightarrow> rounds_ok os rs inp' s' | _ \<Rightarrow> True)"

text \<open>The same for all rounds of a run.\<close>

fun kernel_run :: "os \<Rightarrow> round list \<Rightarrow> bytes \<Rightarrow> unit shell \<Rightarrow> bool" where
  "kernel_run os [] inp s \<longleftrightarrow> True"
| "kernel_run os (r # rs) inp s \<longleftrightarrow> kernel_ok os r inp s
     \<and> (case main_round os r inp s of Next inp' s' \<Rightarrow> kernel_run os rs inp' s' | _ \<Rightarrow> True)"

fun gap_run :: "os \<Rightarrow> round list \<Rightarrow> bytes \<Rightarrow> unit shell \<Rightarrow> bool" where
  "gap_run os [] inp s \<longleftrightarrow> False"
| "gap_run os (r # rs) inp s \<longleftrightarrow> gap os r inp s
     \<or> (case main_round os r inp s of Next inp' s' \<Rightarrow> gap_run os rs inp' s' | _ \<Rightarrow> False)"

lemma rounds_ok_iff: "rounds_ok os rs inp s \<longleftrightarrow> kernel_run os rs inp s \<and> \<not> gap_run os rs inp s"
  by (induction rs arbitrary: inp s) (auto simp: round_ok_def split: outcome.splits)

lemma round_run:
  assumes "round_ok os r inp s" and "shell_rounds.run os (shell_step os r (inp, s)) rs st"
  shows "shell_rounds.run os (inp, s) (r # rs) st"
  using assms by (intro shell_rounds.run_Cons) simp_all

lemma main_loop_run:
  "rounds_ok os rs inp s \<Longrightarrow> main_loop os rs inp s = Next inp' s' \<Longrightarrow> shell_rounds.run os (inp, s) rs (inp', s')"
proof (induction rs arbitrary: inp s)
  case Nil
  then show ?case by (simp add: shell_rounds.run_Nil)
next
  case (Cons r rs)
  then obtain inp1 s1 where n: "main_round os r inp s = Next inp1 s1" by (auto split: outcome.splits)
  with Cons have "shell_rounds.run os (inp1, s1) rs (inp', s')" by simp
  then show ?case using Cons.prems(1) n by (intro round_run) (simp_all add: shell_step_def)
qed

lemma main_loop_quit:
  "rounds_ok os rs inp s \<Longrightarrow> main_loop os rs inp s = Quit s' \<Longrightarrow>
   \<exists>pre inp1 s1. shell_rounds.run os (inp, s) pre (inp1, s1) \<and> s' = main_exit s1"
proof (induction rs arbitrary: inp s)
  case (Cons r rs)
  show ?case
  proof (cases "main_round os r inp s")
    case (Next inp1 s1)
    with Cons.prems Cons.IH [of inp1 s1] obtain pre inp2 s2 where
      run: "shell_rounds.run os (inp1, s1) pre (inp2, s2)" "s' = main_exit s2" by auto
    then have "shell_rounds.run os (inp, s) (r # pre) (inp2, s2)"
      using Cons.prems(1) Next by (intro round_run) (simp_all add: shell_step_def)
    with run(2) show ?thesis by blast
  next
    case (Quit s1)
    then have "shell_rounds.run os (inp, s) [r] (inp, s1)"
      using Cons.prems(1) by (intro round_run) (simp_all add: shell_step_def shell_rounds.run_Nil)
    with Quit Cons.prems(2) show ?thesis by auto
  qed (use Cons.prems in simp)
qed simp

lemma start_prompt:
  fixes s :: "unit shell"
  assumes "getpid > 0" and "trace s = []"
  shows "at_prompt (fdt s) ((sig_init_shell getpid s)\<lparr>tab := jobs_init\<rparr>)"
proof -
  let ?s = "(sig_init_shell getpid s)\<lparr>tab := jobs_init\<rparr>"
  have "trace ?s = [ESetpgid getpid getpid, ETerm getpid]" "fdt ?s = fdt s" "shell_pgid ?s = getpid"
    using assms(2) by (simp_all add: sig_init_shell_def Let_def set_handler_def)
  moreover have "kids [ESetpgid getpid getpid, ETerm getpid] = Map.empty" by (simp add: kids_def)
  moreover have "book {} Map.empty (jobs_init :: unit jobtab)"
    using jobs_init_inv by (simp add: book_def link_def) (simp add: jobs_init_def)
  ultimately show ?thesis using assms(1) by (simp add: at_prompt_def bk_def term_of_def)
qed

text \<open>
  C1. At every prompt, unless \<^verbatim>\<open>jobs_add\<close> refused a job after its processes had been forked
  (with 20 jobs in the table, or when \<^verbatim>\<open>malloc\<close> failed), or
  \<^verbatim>\<open>fork\<close> gave a process the id of a dead one that a job of the table still listed, the shell's
  books are right: its job table obeys the table invariant, records for each job exactly the children
  that are alive, each in the job's process group, no living child is missing, the terminal belongs to
  the shell, and its descriptors are those it was started with. Of the kernel only documented behaviour
  is assumed, and both exceptions are shown to be real below.
\<close>

theorem main_keeps_books:
  assumes "main os getpid rs inp s = Next inp' s'" and "getpid > 0" and "trace s = []" and "sane os (fdt s)"
    and "kernel_run os rs inp ((sig_init_shell getpid s)\<lparr>tab := jobs_init\<rparr>)"
  shows "gap_run os rs inp ((sig_init_shell getpid s)\<lparr>tab := jobs_init\<rparr>)
    \<or> book (forked (trace s')) (kids (trace s')) (tab s') \<and> term_of (trace s') = shell_pgid s' \<and> fdt s' = fdt s"
proof (rule disj_imp [THEN iffD2], rule impI)
  let ?s = "(sig_init_shell getpid s)\<lparr>tab := jobs_init\<rparr>"
  assume "\<not> gap_run os rs inp ?s"
  with assms(5) have "rounds_ok os rs inp ?s" by (simp add: rounds_ok_iff)
  then have "shell_rounds.run os (inp, ?s) rs (inp', s')"
    using main_loop_run [of os rs inp ?s] assms(1) by (simp add: main_def)
  from shell_rounds.run_inv [OF this, of "fdt s"]
  show "book (forked (trace s')) (kids (trace s')) (tab s') \<and> term_of (trace s') = shell_pgid s' \<and> fdt s' = fdt s"
    using start_prompt [OF assms(2,3)] assms(4) by (simp add: at_prompt_def bk_def)
qed

text \<open>
  C2. With the same two exceptions (a job refused by \<^verbatim>\<open>jobs_add\<close>, the id of a dead process still listed
  given to a new one), no child survives the shell: when it exits, every process group with a living
  child has been sent SIGKILL.
\<close>

theorem main_exit_kills_all:
  assumes "main os getpid rs inp s = Quit s'" and "getpid > 0" and "trace s = []" and "sane os (fdt s)"
    and "kernel_run os rs inp ((sig_init_shell getpid s)\<lparr>tab := jobs_init\<rparr>)"
  shows "gap_run os rs inp ((sig_init_shell getpid s)\<lparr>tab := jobs_init\<rparr>)
    \<or> (\<forall>p g. kids (trace s') p = Some g \<longrightarrow> EKill (- g) SIGKILL \<in> set (trace s')) \<and> tab s' = []"
proof (rule disj_imp [THEN iffD2], rule impI)
  assume "\<not> gap_run os rs inp ((sig_init_shell getpid s)\<lparr>tab := jobs_init\<rparr>)"
  with assms(5) have ok: "rounds_ok os rs inp ((sig_init_shell getpid s)\<lparr>tab := jobs_init\<rparr>)" by (simp add: rounds_ok_iff)
  obtain pre inp1 s1 where run: "shell_rounds.run os (inp, (sig_init_shell getpid s)\<lparr>tab := jobs_init\<rparr>) pre (inp1, s1)"
    and s': "s' = main_exit s1"
    using main_loop_quit [OF ok] assms(1) by (auto simp: main_def)
  from shell_rounds.run_inv [OF run, of "fdt s"] have B: "book (forked (trace s1)) (kids (trace s1)) (tab s1)"
    using start_prompt [OF assms(2,3)] assms(4) by (simp add: at_prompt_def bk_def)
  let ?es = "EOut [newline] # map (\<lambda>(a, j). EKill (- pgid j) SIGKILL) (tab s1)"
  have t: "trace s' = trace s1 @ ?es" "tab s' = []"
    by (simp_all add: s' main_exit_def jobs_kill_all_def comp_def case_prod_beta)
  have "kids (trace s') = kids (trace s1)" unfolding t by (intro silent_facts(1)) (auto simp: silent_def)
  moreover have "EKill (- g) SIGKILL \<in> set ?es" if K: "kids (trace s1) p = Some g" for p g
  proof -
    obtain a j where j: "(a, j) \<in> set (tab s1)" "p \<in> set (job_pids j)" using B K unfolding book_def by blast
    then have "g = pgid j" using B K unfolding book_def by blast
    with j(1) show ?thesis by force
  qed
  ultimately show "(\<forall>p g. kids (trace s') p = Some g \<longrightarrow> EKill (- g) SIGKILL \<in> set (trace s')) \<and> tab s' = []" using t by auto
qed

text \<open>
  C37. The guarantee needs room in the table. When it already holds 20 jobs, the processes of the next
  line have been forked by the time \<^verbatim>\<open>jobs_add\<close> refuses the job: the first child is alive,
  no job of the table records it, and the exit of the shell does not kill its group.
\<close>

theorem exec_job_full_table_orphans:
  assumes "exec_job os ans proto s = Some s'" and "fresh_job pa proto" and "ncmds proto = 1"
    and "\<forall>k. forks ans k > 0" and "sane os (fdt s)" and "bk s" and "forks ans 0 \<notin> forked (trace s)"
    and "length (tab s) \<ge> YASH_MAX_JOBS"
  shows "kids (trace s') (forks ans 0) = Some (forks ans 0) \<and> tab s' = tab s
    \<and> (\<exists>es. trace (main_exit s') = trace s' @ es \<and> EKill (- forks ans 0) SIGKILL \<notin> set es)"
proof -
  have pos: "\<forall>k. forks ans k \<noteq> 0" "\<not> forks ans k < 0" for k
    using assms(4) by (simp_all add: order.strict_implies_not_eq order_less_imp_not_less) (metis less_irrefl)
  have io: "std_open (fdt s)" "3 \<le> fd_max os" "no_pipe_ends (fdt s)" using assms(5) by (auto simp: sane_def)
  have full: "jobs_add h k (tab s) = (None, tab s)" for h k using assms(8) by (simp add: jobs_add_def)
  from assms(1,2) pos(1) io obtain m es pg j1 where
    F: "fork_done (forks ans) (ncmds proto = 2) 0 proto s m es pg j1 (emit es s)"
    and s': "s' = (if m = 0 then emit es s else emit (es @ [overflow]) s)"
  proof (cases rule: exec_job_cases)
    case nopipe
    with assms(3) show ?thesis by simp
  next
    case (forked m es pg j1)
    from forked(2) show ?thesis
      by (intro that [OF forked(1)]) (simp add: full overflow_def split: if_splits)
  qed
  have "m = 1" using F assms(3) pos(2) [of m] by (auto simp: fork_done_def)
  then have "kids (trace s @ es) (forks ans 0) = Some (forks ans 0)" using F by (simp add: fork_done_def)
  then have 1: "kids (trace s') (forks ans 0) = Some (forks ans 0)" "tab s' = tab s"
    using s' \<open>m = 1\<close> silent_facts(1) [of "[overflow]" "trace s @ es"] by (auto simp: silent_def overflow_def)
  have "pgid j \<noteq> forks ans 0" if "(a, j) \<in> set (tab s)" for a j
  proof -
    have "pgid j \<in> forked (trace s)" using that assms(6) unfolding bk_def book_def by blast
    then show ?thesis using assms(7) by auto
  qed
  then have "EKill (- forks ans 0) SIGKILL \<notin> set (EOut [newline] # map (\<lambda>(a, j). EKill (- pgid j) SIGKILL) (tab s'))"
    unfolding 1(2) by fastforce
  then show ?thesis
    using 1 by (intro conjI exI) (auto simp: main_exit_def jobs_kill_all_def comp_def case_prod_beta)
qed

section \<open>A concrete session\<close>

definition demo_round :: round where
  "demo_round = \<lparr>sweep = [], intr = False, answ = demo_answers\<rparr>"

definition demo_eof :: round where
  "demo_eof = demo_round\<lparr>answ := demo_answers\<lparr>heap := None\<rparr>\<rparr>"

lemma demo_sleep:
  "parse_line main_job (Some (line_text (''sleep 5 &'' @ [newline]))) (zero_job ()) = (PARSE_OK, demo_job ''sleep 5 &'')"
  "ncmds (demo_job ''sleep 5 &'') = 1" "background (demo_job ''sleep 5 &'')"
  "builtin_try ws (demo_job ''sleep 5 &'') s = Some (False, s)" "fresh_job 0 (demo_job ''sleep 5 &'')"
proof -
  have ok: "fst (parse_line 0 (Some ''sleep 5 &'') (zero_job ())) = PARSE_OK" by code_simp
  have "line_text (''sleep 5 &'' @ [newline]) = ''sleep 5 &''" by (simp add: line_text_def)
  with ok show "parse_line main_job (Some (line_text (''sleep 5 &'' @ [newline]))) (zero_job ()) = (PARSE_OK, demo_job ''sleep 5 &'')"
    by (simp add: main_job_def demo_job_def prod_eq_iff)
  show "ncmds (demo_job ''sleep 5 &'') = 1" by code_simp
  show "background (demo_job ''sleep 5 &'')" by code_simp
  show "fresh_job 0 (demo_job ''sleep 5 &'')" using ok by (intro demo_job_fresh) simp
  have "str_at (buf (demo_job ''sleep 5 &'')) (the (argv (cmds (demo_job ''sleep 5 &'') ! 0) ! 0)) = ''sleep''" by code_simp
  then show "builtin_try ws (demo_job ''sleep 5 &'') s = Some (False, s)" by (simp add: builtin_try_def)
qed

lemma demo_exec:
  assumes "tab s = []"
  shows "\<exists>c e t'. exec_job demo_os demo_answers (demo_job ''sleep 5 &'') s
    = Some ((emit [EFork 100 c e, ESetpgid 100 100] s)\<lparr>tab := [(4, t')]\<rparr>) \<and> state t' = JOB_RUNNING"
proof -
  let ?j = "demo_job ''sleep 5 &''"
  have n: "ncmds ?j = Suc 0" "background ?j" using demo_sleep by simp_all
  have r: "state ?j = JOB_RUNNING" "nlive ?j = 0" using demo_sleep(5) by (auto simp: fresh_job_def)
  show ?thesis
    using n r assms
    by (simp add: exec_job_def fork_loop.simps demo_answers_def Let_def upd_cmd_def jobs_add_def yash_limits job_at_def)
      (intro exI, rule conjI, rule refl, simp)
qed

definition demo_start :: "unit shell" where
  "demo_start = (sig_init_shell 50 demo_shell)\<lparr>tab := jobs_init\<rparr>"

lemma demo_start_facts:
  "tab demo_start = []" "trace demo_start = [ESetpgid 50 50, ETerm 50]" "fdt demo_start = demo_fds"
  by (simp_all add: demo_start_def sig_init_shell_def set_handler_def demo_shell_def jobs_init_def Let_def)

lemma reap_sweep_idle: "\<forall>(a, j) \<in> set rest. state j \<noteq> JOB_DONE \<Longrightarrow> reap_sweep rest t out = (t, out)"
  by (induction rest t out rule: reap_sweep.induct) auto

lemma reap_nothing: "\<forall>(a, j) \<in> set (tab s). state j \<noteq> JOB_DONE \<Longrightarrow> reap_phase [] s = s"
  by (simp add: reap_phase_def jobs_reap_def consumed_def reap_sweep_idle)

lemma demo_rounds:
  "\<exists>c e t'. let s1 = (emit [EOut ''# '', EFork 100 c e, ESetpgid 100 100] demo_start)\<lparr>tab := [(4, t')]\<rparr>
     in main_round demo_os demo_round (''sleep 5 &'' @ [newline]) demo_start = Next [] s1
        \<and> main_round demo_os demo_eof [] s1 = Quit (emit [EOut ''# ''] s1) \<and> state t' = JOB_RUNNING"
proof -
  let ?s = "emit [EOut ''# ''] demo_start"
  obtain c e t' where ex: "exec_job demo_os demo_answers (demo_job ''sleep 5 &'') ?s
      = Some ((emit [EFork 100 c e, ESetpgid 100 100] ?s)\<lparr>tab := [(4, t')]\<rparr>)" "state t' = JOB_RUNNING"
    using demo_exec [of ?s] by (auto simp: demo_start_facts)
  have fg: "fgets (YASH_MAX_LINE + 2) (''sleep 5 &'' @ [newline]) = Some (''sleep 5 &'' @ [newline], [])"
    by (simp add: fgets_def YASH_MAX_LINE_def)
  have "reap_phase [] demo_start = demo_start" by (rule reap_nothing) (simp add: demo_start_facts)
  then have "main_round demo_os demo_round (''sleep 5 &'' @ [newline]) demo_start
      = Next [] ((emit [EOut ''# '', EFork 100 c e, ESetpgid 100 100] demo_start)\<lparr>tab := [(4, t')]\<rparr>)"
    unfolding main_round_def demo_round_def round.select_convs fg option.case prod.case demo_sleep(1)
    by (simp add: demo_sleep(4) ex(1))
  moreover have "main_round demo_os demo_eof [] s1 = Quit (emit [EOut ''# ''] s1)"
    if "s1 = (emit [EOut ''# '', EFork 100 c e, ESetpgid 100 100] demo_start)\<lparr>tab := [(4, t')]\<rparr>" for s1
    using that ex(2) reap_nothing [of s1] by (simp add: main_round_def demo_eof_def demo_round_def fgets_def)
  ultimately show ?thesis using ex(2) unfolding Let_def by blast
qed

lemma demo_session:
  "\<exists>s1 s2. main_round demo_os demo_round (''sleep 5 &'' @ [newline]) demo_start = Next [] s1
     \<and> main_round demo_os demo_eof [] s1 = Quit s2 \<and> kids (trace s2) = [100 \<mapsto> 100]
     \<and> rounds_ok demo_os [demo_round, demo_eof] (''sleep 5 &'' @ [newline]) demo_start"
proof -
  obtain c e t' s1 where s1: "s1 = (emit [EOut ''# '', EFork 100 c e, ESetpgid 100 100] demo_start)\<lparr>tab := [(4, t')]\<rparr>"
    and r1: "main_round demo_os demo_round (''sleep 5 &'' @ [newline]) demo_start = Next [] s1"
    and r2: "main_round demo_os demo_eof [] s1 = Quit (emit [EOut ''# ''] s1)" and run: "state t' = JOB_RUNNING"
    using demo_rounds unfolding Let_def by blast
  have t1: "trace s1 = [ESetpgid 50 50, ETerm 50, EOut ''# '', EFork 100 c e, ESetpgid 100 100]"
    by (simp add: s1 demo_start_facts)
  have reap: "reap_phase [] demo_start = demo_start" "reap_phase [] s1 = s1"
    using run by (auto intro!: reap_nothing simp: s1 demo_start_facts)
  have ans: "answers_ok demo_answers demo_start"
    by (simp add: answers_ok_def demo_answers_def demo_start_facts)
  have h: "honest (trace s1 @ [EOut ''# ''])" "overflow \<notin> set (trace s1 @ [EOut ''# ''])"
    by (simp_all add: honest_def t1 overflow_def kids_def)
  have "round_ok demo_os demo_round (''sleep 5 &'' @ [newline]) demo_start"
    unfolding round_ok_def kernel_ok_def gap_def r1
    using h by (simp add: outcome_shell_def demo_round_def reap ans demo_start_facts listed_def)
  moreover have "round_ok demo_os demo_eof [] s1"
    unfolding round_ok_def kernel_ok_def gap_def r2 using h by (simp add: outcome_shell_def demo_eof_def demo_round_def reap)
      (simp add: answers_ok_def demo_answers_def)
  moreover have "kids (trace s1 @ [EOut ''# '']) = [100 \<mapsto> 100]"
    by (simp add: t1 kids_def)
  ultimately show ?thesis using r1 r2 by auto
qed

lemma demo_sane: "sane demo_os (fdt demo_shell)"
  by (simp add: sane_def demo_fds_facts demo_os_def demo_shell_def)

theorem main_keeps_books_witness:
  "\<exists>s'. main demo_os 50 [demo_round] (''sleep 5 &'' @ [newline]) demo_shell = Next [] s' \<and> fdt s' = demo_fds"
proof -
  obtain s1 where s1: "main_round demo_os demo_round (''sleep 5 &'' @ [newline]) demo_start = Next [] s1"
    and ok: "rounds_ok demo_os [demo_round, demo_eof] (''sleep 5 &'' @ [newline]) demo_start"
    using demo_session by blast
  have m: "main demo_os 50 [demo_round] (''sleep 5 &'' @ [newline]) demo_shell = Next [] s1"
    unfolding main_def demo_start_def [symmetric] by (simp del: append.simps add: s1)
  have ok1: "rounds_ok demo_os [demo_round] (''sleep 5 &'' @ [newline]) ((sig_init_shell 50 demo_shell)\<lparr>tab := jobs_init\<rparr>)"
    unfolding demo_start_def [symmetric] using ok s1 by (simp del: append.simps)
  have t: "trace demo_shell = []" by (simp add: demo_shell_def)
  from main_keeps_books [OF m _ t demo_sane] ok1 m show ?thesis by (auto simp: rounds_ok_iff demo_shell_def)
qed

theorem main_exit_kills_all_witness:
  "\<exists>s'. main demo_os 50 [demo_round, demo_eof] (''sleep 5 &'' @ [newline]) demo_shell = Quit s'
     \<and> kids (trace s') 100 = Some 100 \<and> EKill (- 100) SIGKILL \<in> set (trace s')"
proof -
  obtain s1 s2 where s1: "main_round demo_os demo_round (''sleep 5 &'' @ [newline]) demo_start = Next [] s1"
    and s2: "main_round demo_os demo_eof [] s1 = Quit s2" "kids (trace s2) = [100 \<mapsto> 100]"
    and ok: "rounds_ok demo_os [demo_round, demo_eof] (''sleep 5 &'' @ [newline]) demo_start"
    using demo_session by blast
  have m: "main demo_os 50 [demo_round, demo_eof] (''sleep 5 &'' @ [newline]) demo_shell = Quit (main_exit s2)"
    unfolding main_def demo_start_def [symmetric] by (simp del: append.simps add: s1 s2)
  have t: "trace demo_shell = []" by (simp add: demo_shell_def)
  have "kids (trace (main_exit s2)) = kids (trace s2)"
    unfolding main_exit_def Let_def by (simp add: jobs_kill_all_def, rule silent_facts(1)) (auto simp: silent_def)
  then have k: "kids (trace (main_exit s2)) 100 = Some 100" using s2(2) by simp
  from main_exit_kills_all [OF m _ t demo_sane] ok [unfolded demo_start_def rounds_ok_iff] k m show ?thesis by auto
qed

definition demo_fork :: "nat \<Rightarrow> event" where
  "demo_fork n = EFork (200 + int n) ((proc.truncate demo_shell)\<lparr>grp := 200 + int n\<rparr>) (Exit 0)"

definition demo_full :: "unit shell" where
  "demo_full = demo_shell\<lparr>tab := map (\<lambda>n. (10 + n, one_job (1 + int n) [200 + int n])) [0..<20],
     trace := map demo_fork [0..<20]\<rparr>"

lemma demo_full_kids: "kids (map demo_fork [0..<m]) p = (if 200 \<le> p \<and> p < 200 + int m then Some p else None)"
  by (induction m) (auto simp: kids_def demo_fork_def)

lemma demo_full_forked: "forked (map demo_fork [0..<m]) = {200..<200 + int m}"
  by (induction m) (auto simp: demo_fork_def)

lemma demo_full_bk: "bk demo_full"
proof -
  let ?t = "map (\<lambda>n. (10 + n, one_job (1 + int n) [200 + int n])) [0..<20]"
  let ?K = "kids (map demo_fork [0..<20])"
  have inv: "tab_inv ?t"
    by (auto simp: tab_inv_def yash_limits distinct_map comp_def sorted_wrt_map intro!: inj_onI)
  have "concat (map (job_pids \<circ> snd) ?t) = map (\<lambda>n. 200 + int n) [0..<20]"
    by (simp add: comp_def)
  moreover have "distinct (map (\<lambda>n. 200 + int n) [0..<20])" by (auto simp: distinct_map intro: inj_onI)
  ultimately have "link (dom ?K) ?t"
    by (auto simp: link_def domIff demo_full_kids alive_count_def)
  moreover have "\<exists>(a, j) \<in> set ?t. p \<in> set (job_pids j)" if "?K p \<noteq> None" for p
  proof -
    from that have "200 \<le> p" "p < 220" by (auto simp: demo_full_kids split: if_splits)
    then show ?thesis by (auto intro!: bexI [of _ "nat (p - 200)"])
  qed
  moreover have "pgid (one_job n [p]) = p" for n p by (simp add: one_job_def)
  ultimately show ?thesis
    using inv by (auto simp: bk_def demo_full_def book_def demo_full_forked demo_full_kids split: if_splits)
qed

theorem exec_job_full_table_orphans_witness:
  "\<exists>s'. exec_job demo_os demo_answers (demo_job ''sleep 5 &'') demo_full = Some s' \<and> kids (trace s') 100 = Some 100"
proof -
  let ?j = "demo_job ''sleep 5 &''"
  have n: "ncmds ?j = Suc 0" "nlive ?j = 0" using demo_sleep(2,5) by (auto simp: fresh_job_def)
  then have "exec_job demo_os demo_answers ?j demo_full \<noteq> None"
    by (simp add: exec_job_def fork_loop.simps demo_answers_def Let_def upd_cmd_def jobs_add_def yash_limits demo_full_def)
  then obtain s' where s': "exec_job demo_os demo_answers ?j demo_full = Some s'" by blast
  have ok: "ncmds ?j = 1" "\<forall>k. forks demo_answers k > 0" "sane demo_os (fdt demo_full)"
    "forks demo_answers 0 \<notin> forked (trace demo_full)" "YASH_MAX_JOBS \<le> length (tab demo_full)"
    using n demo_sane by (simp_all add: demo_answers_def demo_full_def demo_full_forked yash_limits)
  from exec_job_full_table_orphans [OF s' demo_sleep(5) ok(1-3) demo_full_bk ok(4,5)] s'
  show ?thesis by (auto simp: demo_answers_def)
qed

lemma jobs_find_pid_append:
  "jobs_find_pid p (xs @ ys) = (case jobs_find_pid p xs of None \<Rightarrow> jobs_find_pid p ys | Some a \<Rightarrow> Some a)"
  by (induction p xs rule: jobs_find_pid.induct) auto

text \<open>A single command in the background is forked and recorded.\<close>

lemma exec_job_background:
  assumes "ncmds proto = 1" and "background proto" and "nlive proto = 0" and "length (cmds proto) = 2" and "forks ans 0 > 0"
    and "length (tab s) < YASH_MAX_JOBS" and "heap ans = Some b" and "b \<notin> fst ` set (tab s)"
  obtains c e J where "exec_job os ans proto s
      = Some ((emit [EFork (forks ans 0) c e, ESetpgid (forks ans 0) (forks ans 0)] s)\<lparr>tab := tab s @ [(b, J)]\<rparr>)"
    and "job_pids J = [forks ans 0]" and "pgid J = forks ans 0" and "state J = state proto"
proof -
  let ?p = "forks ans 0"
  let ?j = "(upd_cmd 0 (\<lambda>c. c\<lparr>cmd_pid := ?p\<rparr>) proto)\<lparr>nlive := 1, pgid := ?p\<rparr>"
  let ?J = "(rebase_pointers b ?j)\<lparr>jid := (if tab s = [] then 1 else jid (snd (last (tab s))) + 1)\<rparr>"
  obtain x y where cs: "cmds proto = [x, y]" using assms(4) by (auto simp: length_Suc_conv numeral_2_eq_2)
  have n: "ncmds proto = Suc 0" using assms(1) by simp
  have "map_of (tab s) b = None" using assms(8) by (simp add: map_of_eq_None_iff)
  then have at: "job_at b (tab s @ [(b, k)]) = k" for k by (simp add: job_at_def map_add_def)
  have loop: "\<exists>c e. fork_loop os (forks ans) (-1, -1) 0 0 proto (s\<lparr>fdt := fdt s\<rparr>)
      = (?p, (upd_cmd 0 (\<lambda>c. c\<lparr>cmd_pid := ?p\<rparr>) proto)\<lparr>nlive := 1\<rparr>, emit [EFork ?p c e, ESetpgid ?p ?p] s)"
    using n assms(3,5) by (simp add: fork_loop.simps Let_def upd_cmd_def) blast
  then obtain c e where L: "fork_loop os (forks ans) (-1, -1) 0 0 proto (s\<lparr>fdt := fdt s\<rparr>)
      = (?p, (upd_cmd 0 (\<lambda>c. c\<lparr>cmd_pid := ?p\<rparr>) proto)\<lparr>nlive := 1\<rparr>, emit [EFork ?p c e, ESetpgid ?p ?p] s)" by blast
  have add: "jobs_add (heap ans) ?j (tab s) = (Some b, tab s @ [(b, ?J)])" using assms(6,7) by (simp add: jobs_add_def)
  have bg: "background ?J" using assms(2) by (simp add: upd_cmd_def)
  have "exec_job os ans proto s = Some ((emit [EFork ?p c e, ESetpgid ?p ?p] s)\<lparr>tab := tab s @ [(b, ?J)]\<rparr>)"
    unfolding exec_job_def using n L add bg at by (simp add: Let_def del: shell.update_convs)
  moreover have "job_pids ?J = [?p]" unfolding job_pids_rebase using n cs assms(5) by (simp add: job_pids_def upd_cmd_def)
  moreover have "pgid ?J = ?p" "state ?J = state proto" by (simp_all add: upd_cmd_def)
  ultimately show thesis using that by blast
qed

text \<open>What the next sweep does when the new process ends: the report goes to the older job.\<close>

lemma reap_reused:
  assumes B: "book F K t" and "\<forall>(c, m) \<in> set t. state m \<noteq> JOB_DONE" and j: "(a, j) \<in> set t"
    and p: "p \<in> set (job_pids j)" and "nlive j = 1" and b: "b \<notin> fst ` set t" and J: "state J \<noteq> JOB_DONE"
  shows "jobs_reap [WChange p WExited, WNothing] (t @ [(b, J)])
    = ([], filter (\<lambda>(c, m). c \<noteq> a) t @ [(b, J)], [jobs_print_one j (CHR ''-'') ''Done''])"
proof -
  let ?j = "j\<lparr>nlive := 0, state := JOB_DONE\<rparr>" and ?u = "upd_job a (note_status WExited) (t @ [(b, J)])"
  have d: "distinct (map fst (t @ [(b, J)]))" using B b by (simp add: book_def tab_inv_def)
  have ab: "a \<noteq> b" using b j by force
  obtain c where c: "jobs_find_pid p t = Some c"
    using jobs_find_pid_None [of p t a j] j p by (cases "jobs_find_pid p t") auto
  have "p \<noteq> 0" using p by (auto simp: job_pids_def)
  with jobs_find_pid_Some [OF c] obtain m where "(c, m) \<in> set t" "p \<in> set (job_pids m)" by blast
  with book_unique [OF B j] p have "c = a" by blast
  with c have f: "jobs_find_pid p (t @ [(b, J)]) = Some a" by (simp add: jobs_find_pid_append)
  have u: "?u = map (\<lambda>(c, m). if c = a then (a, ?j) else (c, m)) t @ [(b, J)]"
  proof -
    have "m = j" if "(a, m) \<in> set t" for m using book_unique [OF B j that] by simp
    then show ?thesis using ab assms(5) by (auto simp: upd_job_def note_status_def)
  qed
  have one: "filter (\<lambda>(c, m). c = a) t = [(a, j)]" using filter_key [OF _ j] d by simp
  have "filter (\<lambda>(c, m). state m \<noteq> JOB_DONE) (map (\<lambda>(c, m). if c = a then (a, ?j) else (c, m)) xs)
      = filter (\<lambda>(c, m). c \<noteq> a) xs" if "set xs \<subseteq> set t" for xs
    using that assms(2) by (induction xs) auto
  moreover have "filter (\<lambda>(c, m). state m = JOB_DONE) (map (\<lambda>(c, m). if c = a then (a, ?j) else (c, m)) xs)
      = map (\<lambda>_. (a, ?j)) (filter (\<lambda>(c, m). c = a) xs)" if "set xs \<subseteq> set t" for xs
    using that assms(2) by (induction xs) auto
  moreover have "done_mark ?u = CHR ''-''" using J unfolding u by (auto simp: done_mark_def)
  moreover have "jobs_print_one ?j mk st = jobs_print_one j mk st" for mk st by (simp add: jobs_print_one_def)
  moreover have "distinct (map fst ?u)" using d by simp
  ultimately have "reap_sweep ?u ?u [] = (filter (\<lambda>(c, m). c \<noteq> a) t @ [(b, J)], [jobs_print_one j (CHR ''-'') ''Done''])"
    unfolding reap_sweep_eq [OF \<open>distinct (map fst ?u)\<close>] using J one unfolding u by simp
  then show ?thesis by (simp add: jobs_reap_def reap_event_def f)
qed

text \<open>
  C36. The guarantee needs ids that are not reused while a job lists them. A job of the table has one
  living process left and lists a dead one; the next command line, run in the background, is given the
  id of the dead one, which \<^verbatim>\<open>fork\<close> may do. When that new process ends, all the kernel's answers
  being as documented, the sweep prints the older job as done and drops it: its process is alive, no
  job of the table lists it, and the exit of the shell does not kill its group. The new job, whose
  process is gone, stays in the table.
\<close>

theorem exec_job_pid_reuse_orphans:
  assumes "exec_job os ans proto s = Some s'" and "fresh_job pa proto" and "ncmds proto = 1" and "background proto"
    and "bk s" and "honest (trace s)" and "\<forall>(c, m) \<in> set (tab s). state m \<noteq> JOB_DONE"
    and "length (tab s) < YASH_MAX_JOBS" and "heap ans = Some b" and "b \<notin> fst ` set (tab s)"
    and "(a, j) \<in> set (tab s)" and "nlive j = 1" and "q \<in> set (job_pids j)" and "q \<in> dom (kids (trace s))"
    and "forks ans 0 > 0" and "forks ans 0 \<in> set (job_pids j)"
    and "forks ans 0 \<notin> dom (kids (trace s))" and "forks ans 0 \<notin> ran (kids (trace s))"
    and "s2 = reap_phase [WChange (forks ans 0) WExited, WNothing] s'"
  shows "honest (trace s2) \<and> EOut (jobs_print_one j (CHR ''-'') ''Done'') \<in> set (drop (length (trace s')) (trace s2))
    \<and> kids (trace s2) q = Some (pgid j) \<and> q \<notin> listed (tab s2)
    \<and> (\<exists>es. trace (main_exit s2) = trace s2 @ es \<and> EKill (- pgid j) SIGKILL \<notin> set es)
    \<and> kids (trace s2) (forks ans 0) = None \<and> b \<in> fst ` set (tab s2)"
proof -
  let ?p = "forks ans 0" and ?K = "kids (trace s)"
  have B: "book (forked (trace s)) ?K (tab s)" using assms(5) by (simp add: bk_def)
  have pr: "nlive proto = 0" "length (cmds proto) = 2" "state proto = JOB_RUNNING"
    using assms(2) by (auto simp: fresh_job_def job_denotes_def YASH_MAX_CMDS_def)
  obtain c e J where E: "exec_job os ans proto s = Some ((emit [EFork ?p c e, ESetpgid ?p ?p] s)\<lparr>tab := tab s @ [(b, J)]\<rparr>)"
    and J: "job_pids J = [?p]" "pgid J = ?p" "state J = JOB_RUNNING"
    using exec_job_background [OF assms(3,4) pr(1,2) assms(15,8-10)] pr(3) by metis
  have s': "trace s' = trace s @ [EFork ?p c e, ESetpgid ?p ?p]" "tab s' = tab s @ [(b, J)]" using assms(1) E by auto
  have K': "kids (trace s') = ?K(?p \<mapsto> ?p)" by (simp add: s' kids_append)
  have R: "jobs_reap [WChange ?p WExited, WNothing] (tab s')
      = ([], filter (\<lambda>(c, m). c \<noteq> a) (tab s) @ [(b, J)], [jobs_print_one j (CHR ''-'') ''Done''])"
    unfolding s' using reap_reused [OF B assms(7,11,16,12,10)] J(3) by simp
  let ?es = "[EWait None (WChange ?p WExited), EWait None WNothing, EOut (jobs_print_one j (CHR ''-'') ''Done'')]"
  have s2: "trace s2 = trace s' @ ?es" "tab s2 = filter (\<lambda>(c, m). c \<noteq> a) (tab s) @ [(b, J)]"
    unfolding assms(19) reap_phase_def R by (simp_all add: consumed_def)
  have K2: "kids (trace s2) = ?K(?p := None)" unfolding s2 by (simp add: kids_append) (simp add: K')
  have qp: "q \<noteq> ?p" using assms(14,17) by auto
  have gr: "?K q = Some (pgid j)" using B assms(11,13,14) unfolding book_def by blast
  have gp: "pgid j \<noteq> ?p" using gr assms(18) by (auto simp: ran_def)
  have pj: "pgid j \<in> set (job_pids j)" using B assms(11) unfolding book_def by blast
  have other: "set (job_pids j) \<inter> set (job_pids m) = {}" "pgid m \<in> set (job_pids m)" if "(d, m) \<in> set (tab s)" "d \<noteq> a" for d m
    using book_unique [OF B assms(11) that(1)] that B unfolding book_def by blast+
  have "honest (trace s2)" using assms(6,15,17,18) by (simp add: s2 s' K' [unfolded s'])
  moreover have "kids (trace s2) q = Some (pgid j)" using K2 gr qp by simp
  moreover have "q \<notin> listed (tab s2)" using other(1) assms(13) qp J(1) by (auto simp: listed_def s2)
  moreover have "pgid m \<noteq> pgid j" if "(d, m) \<in> set (tab s2)" for d m
  proof (cases "(d, m) \<in> set (tab s) \<and> d \<noteq> a")
    case True
    then show ?thesis using other [of d m] pj by (metis disjoint_iff)
  qed (use that gp J(2) in \<open>auto simp: s2\<close>)
  then have "EKill (- pgid j) SIGKILL \<notin> set (EOut [newline] # map (\<lambda>(a, j). EKill (- pgid j) SIGKILL) (tab s2))" by force
  then have "\<exists>es. trace (main_exit s2) = trace s2 @ es \<and> EKill (- pgid j) SIGKILL \<notin> set es"
    by (intro exI conjI) (auto simp: main_exit_def jobs_kill_all_def comp_def case_prod_beta)
  ultimately show ?thesis using K2 by (simp add: s2(1)) (simp add: s2(2))
qed

definition demo_reused :: "unit shell" where
  "demo_reused = demo_shell\<lparr>tab := [(7, (one_job 1 [90, 91])\<lparr>nlive := 1\<rparr>)],
     trace := [EFork 90 ((proc.truncate demo_shell)\<lparr>grp := 90\<rparr>) (Exit 0), EFork 91 ((proc.truncate demo_shell)\<lparr>grp := 90\<rparr>) (Exit 0),
       EWait None (WChange 91 WExited)]\<rparr>"

theorem exec_job_pid_reuse_orphans_witness:
  "\<exists>s'. exec_job demo_os (demo_answers\<lparr>forks := (\<lambda>_. 91)\<rparr>) (demo_job ''sleep 5 &'') demo_reused = Some s'
     \<and> kids (trace (reap_phase [WChange 91 WExited, WNothing] s')) 90 = Some 90
     \<and> 90 \<notin> listed (tab (reap_phase [WChange 91 WExited, WNothing] s'))"
proof -
  let ?j = "demo_job ''sleep 5 &''" and ?ans = "demo_answers\<lparr>forks := (\<lambda>_. 91)\<rparr>" and ?k = "(one_job 1 [90, 91])\<lparr>nlive := 1\<rparr>"
  have n: "ncmds ?j = 1" "background ?j" "nlive ?j = 0" "length (cmds ?j) = 2"
    using demo_sleep(2,3,5) by (auto simp: fresh_job_def job_denotes_def YASH_MAX_CMDS_def)
  have t: "tab demo_reused = [(7, ?k)]" by (simp add: demo_reused_def)
  have K: "kids (trace demo_reused) = [90 \<mapsto> 90]" "forked (trace demo_reused) = {90, 91}"
    by (auto simp: demo_reused_def kids_def)
  have k: "job_pids ?k = [90, 91]" "pgid ?k = 90" "job_owned 7 ?k" "jid ?k = 1"
    using one_job_simps(4) [of 7 1 "[90, 91]"] by (simp_all add: job_owned_def) (simp add: one_job_def)
  have bk: "bk demo_reused"
    by (simp add: bk_def book_def tab_inv_def link_def alive_count_def t K k yash_limits)
  have h: "honest (trace demo_reused)" by (simp add: demo_reused_def honest_def kids_def)
  obtain s' where s': "exec_job demo_os ?ans ?j demo_reused = Some s'"
    using exec_job_background [OF n, of ?ans demo_reused 4] by (auto simp: t demo_answers_def yash_limits)
  from exec_job_pid_reuse_orphans [OF s' demo_sleep(5) n(1,2) bk h, of 4 7 ?k 90] s' show ?thesis
    by (auto simp: t K k yash_limits demo_answers_def)
qed

end
