(* ===== verification/Yashd_Wire.thy ===== *)
theory Yashd_Wire
  imports Yash_Shell "HOL-Library.Monad_Syntax"
begin

text \<open>
  The wire of Project 2: the constants of \<^verbatim>\<open>protocol.h\<close>, the output and input half of a
  session (\<^verbatim>\<open>session_write\<close> to \<^verbatim>\<open>session_readsocket\<close> in
  \<^verbatim>\<open>session.c\<close>) and the message functions of the client (\<^verbatim>\<open>send_all\<close> to
  \<^verbatim>\<open>send_line\<close> in \<^verbatim>\<open>client.c\<close>). What the kernel answers to
  \<^verbatim>\<open>read\<close> and \<^verbatim>\<open>write\<close> on the socket is an input of the model: a list that is
  consumed from the front. A call made when the list is used up never returns (\<open>None\<close>). The
  flag \<open>eintr\<close> says whether \<^verbatim>\<open>errno\<close> holds \<^verbatim>\<open>EINTR\<close>; a successful call
  leaves it alone, as the C library does. The calls whose results the code ignores (\<^verbatim>\<open>setpgid\<close>,
  \<^verbatim>\<open>kill\<close>, \<^verbatim>\<open>close\<close>) are taken to succeed, so the flag is up whenever
  \<^verbatim>\<open>errno\<close> is \<^verbatim>\<open>EINTR\<close>, and possibly also after a failure of one of these.
\<close>

section \<open>protocol.h\<close>

definition YASH_PORT :: nat where "YASH_PORT = 3820"
definition YASHD_SOCK_PATH :: string where "YASHD_SOCK_PATH = ''/tmp/yashd.sock''"

definition MSG_CMD :: string where "MSG_CMD = ''CMD ''"
definition MSG_CTL :: string where "MSG_CTL = ''CTL ''"
definition MSG_PREFIX_LEN :: nat where "MSG_PREFIX_LEN = 4"

definition CTL_INT :: char where "CTL_INT = CHR ''c''"
definition CTL_STOP :: char where "CTL_STOP = CHR ''z''"
definition CTL_EOF :: char where "CTL_EOF = CHR ''d''"

definition YASH_PROMPT :: string where "YASH_PROMPT = [CHR 0x0A, CHR ''#'', CHR '' '']"

definition YASH_BUF_SIZE :: nat where "YASH_BUF_SIZE = 4096"

lemmas protocol_defs = MSG_CMD_def MSG_CTL_def MSG_PREFIX_LEN_def CTL_INT_def CTL_STOP_def CTL_EOF_def

abbreviation LF :: char where "LF \<equiv> CHR 0x0A"
abbreviation CR :: char where "CR \<equiv> CHR 0x0D"

text \<open>\<^verbatim>\<open>strncmp(line, prefix, n) == 0\<close> where the prefix has \<open>n\<close> bytes.\<close>

definition starts_with :: "string \<Rightarrow> string \<Rightarrow> bool" where
  "starts_with line pre \<longleftrightarrow> take (length pre) line = pre"

section \<open>The kernel's answers\<close>

datatype rd = RData bytes | REof | RIntr | RErr
datatype wr = WrSome nat | WrIntr | WrErr

text \<open>
  \<^verbatim>\<open>read(fd, p, room)\<close>: the bytes delivered (none at the end of the stream), or \<open>None\<close> inside for
  \<^verbatim>\<open>-1\<close>, with the answers that are left and \<open>eintr\<close>. What does not fit stays in the kernel.
\<close>

fun c_read :: "nat \<Rightarrow> rd list \<Rightarrow> bool \<Rightarrow> (bytes option \<times> rd list \<times> bool) option" where
  "c_read room [] ei = None"
| "c_read room (RData bs # rs) ei =
     (if length bs \<le> room then Some (Some bs, rs, ei)
      else Some (Some (take room bs), RData (drop room bs) # rs, ei))"
| "c_read room (REof # rs) ei = Some (Some [], REof # rs, ei)"
| "c_read room (RIntr # rs) ei = Some (None, rs, True)"
| "c_read room (RErr # rs) ei = Some (None, rs, False)"

text \<open>
  A loop over \<^verbatim>\<open>write\<close> until everything is out: the result, the bytes that went out, the answers
  that are left and \<open>eintr\<close>.
\<close>

fun put_loop :: "bytes \<Rightarrow> wr list \<Rightarrow> bool \<Rightarrow> (int \<times> bytes \<times> wr list \<times> bool) option" where
  "put_loop bs ws ei =
     (if bs = [] then Some (0, [], ws, ei)
      else case ws of
             [] \<Rightarrow> None
           | WrSome n # ws' \<Rightarrow>
               map_option (\<lambda>(r, out, rest). (r, take n bs @ out, rest)) (put_loop (drop n bs) ws' ei)
           | WrIntr # ws' \<Rightarrow> put_loop bs ws' True
           | WrErr # ws' \<Rightarrow> Some (-1, [], ws', False))"

declare put_loop.simps [simp del]

section \<open>session.c: output\<close>

record sess =
  cfd :: int
  peer_ip :: string
  peer_port :: nat
  inbuf :: bytes
  quit :: bool
  eintr :: bool
  rds :: "rd list"
  wrs :: "wr list"
  sent :: bytes

definition session_write :: "bytes \<Rightarrow> 's sess_scheme \<Rightarrow> (int \<times> 's sess_scheme) option" where
  "session_write bs s =
     map_option (\<lambda>(r, out, ws, ei).
         (r, s\<lparr>quit := (quit s \<or> r < 0), eintr := ei, wrs := ws, sent := sent s @ out\<rparr>))
       (put_loop bs (wrs s) (eintr s))"

definition session_puts :: "string \<Rightarrow> 's sess_scheme \<Rightarrow> (int \<times> 's sess_scheme) option" where
  "session_puts str s = session_write str s"

text \<open>The argument is the text the format expands to; the local array holds 328 bytes.\<close>

definition session_printf :: "string \<Rightarrow> 's sess_scheme \<Rightarrow> (int \<times> 's sess_scheme) option" where
  "session_printf txt s =
     (let n = length txt; size = YASH_MAX_LINE + 128 in
      if n = 0 then Some (0, s)
      else session_write (take (if n \<ge> size then size - 1 else n) txt) s)"

definition session_prompt :: "'s sess_scheme \<Rightarrow> (int \<times> 's sess_scheme) option" where
  "session_prompt s = session_puts YASH_PROMPT s"

section \<open>session.c: input\<close>

text \<open>
  \<open>inbuf\<close> is the first \<^verbatim>\<open>inlen\<close> bytes of the array. The line is the C string that is left in
  the caller's array of \<open>n\<close> bytes.
\<close>

definition buf_take_line :: "nat \<Rightarrow> 's sess_scheme \<Rightarrow> (string \<times> 's sess_scheme) option" where
  "buf_take_line n s =
     (let len = length (takeWhile (\<lambda>c. c \<noteq> LF) (inbuf s)) in
      if len = length (inbuf s) then None
      else
        let len' = (if len \<ge> n then n - 1 else len);
            line = take len' (inbuf s);
            line' = (if len' > 0 \<and> line ! (len' - 1) = CR then take (len' - 1) line else line)
        in Some (cstr line' 0, s\<lparr>inbuf := drop (len + 1) (inbuf s)\<rparr>))"

definition buf_fill :: "'s sess_scheme \<Rightarrow> (int \<times> 's sess_scheme) option" where
  "buf_fill s =
     (if length (inbuf s) = YASH_BUF_SIZE then Some (-1, s\<lparr>inbuf := []\<rparr>)
      else
        map_option (\<lambda>(r, rs, ei).
            case r of None \<Rightarrow> (-1, s\<lparr>eintr := ei, rds := rs\<rparr>)
            | Some bs \<Rightarrow> (int (length bs), s\<lparr>inbuf := inbuf s @ bs, eintr := ei, rds := rs\<rparr>))
          (c_read (YASH_BUF_SIZE - length (inbuf s)) (rds s) (eintr s)))"

partial_function (option) session_readsocket ::
  "nat \<Rightarrow> 's sess_scheme \<Rightarrow> (int \<times> string \<times> 's sess_scheme) option" where
  "session_readsocket n s =
     (case buf_take_line n s of
        Some (line, s') \<Rightarrow> Some (1, line, s')
      | None \<Rightarrow>
          do {
            (r, s1) \<leftarrow> buf_fill s;
            if r = 0 then Some (0, [], s1)
            else if r < 0 then
              (if eintr s1 then session_readsocket n s1 else Some (-1, [], s1))
            else session_readsocket n s1
          })"

section \<open>client.c: messages\<close>

record net =
  n_wrs :: "wr list"
  n_eintr :: bool
  n_sent :: bytes

definition send_all :: "bytes \<Rightarrow> 'n net_scheme \<Rightarrow> (int \<times> 'n net_scheme) option" where
  "send_all bs c =
     map_option (\<lambda>(r, out, ws, ei). (r, c\<lparr>n_wrs := ws, n_eintr := ei, n_sent := n_sent c @ out\<rparr>))
       (put_loop bs (n_wrs c) (n_eintr c))"

definition send_msg :: "string \<Rightarrow> string \<Rightarrow> 'n net_scheme \<Rightarrow> (int \<times> 'n net_scheme) option" where
  "send_msg prefix body c =
     (let msg = prefix @ body @ [LF]; n = length msg in
      if n = 0 then Some (0, c)
      else send_all (take (if n \<ge> YASH_BUF_SIZE then YASH_BUF_SIZE - 1 else n) msg) c)"

fun push_tail :: "char \<times> char \<times> char \<Rightarrow> bytes \<Rightarrow> char \<times> char \<times> char" where
  "push_tail t [] = t"
| "push_tail (t0, t1, t2) (b # bs) = push_tail (t1, t2, b) bs"

definition prompt_tail :: "char \<times> char \<times> char \<Rightarrow> bool" where
  "prompt_tail t = (case t of (t0, t1, t2) \<Rightarrow> t0 = LF \<and> t1 = CHR ''#'' \<and> t2 = CHR '' '')"

definition send_line :: "string \<Rightarrow> bool \<Rightarrow> 'n net_scheme \<Rightarrow> (bool \<times> bool \<times> 'n net_scheme) option" where
  "send_line line prompt c =
     (if prompt then
        (if line = ''quit'' then Some (True, prompt, c)
         else do { (_, c1) \<leftarrow> send_msg MSG_CMD line c; Some (False, False, c1) })
      else do { (_, c1) \<leftarrow> send_msg [] line c; Some (False, prompt, c1) })"

section \<open>What is written\<close>

text \<open>The answers to \<^verbatim>\<open>write\<close> let \<open>n\<close> bytes through before anything fails.\<close>

fun lets_through :: "nat \<Rightarrow> wr list \<Rightarrow> bool" where
  "lets_through n ws =
     (n = 0 \<or> (case ws of [] \<Rightarrow> False | WrSome k # ws' \<Rightarrow> lets_through (n - k) ws'
               | WrIntr # ws' \<Rightarrow> lets_through n ws' | WrErr # ws' \<Rightarrow> False))"

declare lets_through.simps [simp del]

lemma put_loop_step [simp]:
  "put_loop [] ws ei = Some (0, [], ws, ei)"
  "bs \<noteq> [] \<Longrightarrow> put_loop bs [] ei = None"
  "bs \<noteq> [] \<Longrightarrow> put_loop bs (WrSome n # ws) ei =
     map_option (\<lambda>(r, out, rest). (r, take n bs @ out, rest)) (put_loop (drop n bs) ws ei)"
  "bs \<noteq> [] \<Longrightarrow> put_loop bs (WrIntr # ws) ei = put_loop bs ws True"
  "bs \<noteq> [] \<Longrightarrow> put_loop bs (WrErr # ws) ei = Some (-1, [], ws, False)"
  by (subst put_loop.simps, simp)+

lemma put_loop_ok:
  "lets_through (length bs) ws \<Longrightarrow> \<exists>ws' ei'. put_loop bs ws ei = Some (0, bs, ws', ei')"
proof (induction bs ws ei rule: put_loop.induct)
  case (1 bs ws ei)
  show ?case
  proof (cases "bs = []")
    case False
    then obtain w ws' where ws: "ws = w # ws'" "w \<noteq> WrErr"
      using 1(3) by (subst (asm) lets_through.simps) (auto split: list.splits wr.splits)
    show ?thesis
    proof (cases w)
      case (WrSome k)
      with 1(3) False ws have "lets_through (length (drop k bs)) ws'"
        by (subst (asm) lets_through.simps) simp
      with 1(1) [OF False ws(1) WrSome] obtain ws2 ei2 where
        "put_loop (drop k bs) ws' ei = Some (0, drop k bs, ws2, ei2)" by blast
      with False ws WrSome show ?thesis by simp
    next
      case WrIntr
      with 1(3) False ws have "lets_through (length bs) ws'"
        by (subst (asm) lets_through.simps) simp
      with 1(2) [OF False ws(1) WrIntr] False ws WrIntr show ?thesis by simp
    qed (use ws in simp)
  qed simp
qed

text \<open>Whatever the answers are, what went out is a prefix, and all of it when the result is 0.\<close>

lemma put_loop_prefix:
  "put_loop bs ws ei = Some (r, out, ws', ei')
    \<Longrightarrow> (r = 0 \<and> out = bs \<or> r = -1 \<and> (\<exists>k. out = take k bs))"
proof (induction bs ws ei arbitrary: r out rule: put_loop.induct)
  case (1 bs ws ei)
  show ?case
  proof (cases "bs = [] \<or> ws = []")
    case True
    with 1(3) show ?thesis by (cases "bs = []") auto
  next
    case False
    then obtain w ws1 where ws: "ws = w # ws1" by (cases ws) auto
    show ?thesis
    proof (cases w)
      case (WrSome k)
      with 1(3) False ws obtain out1 where run: "put_loop (drop k bs) ws1 ei = Some (r, out1, ws', ei')"
        and out: "out = take k bs @ out1"
        by auto
      from 1(1) [OF _ ws WrSome run] False
      have "r = 0 \<and> out1 = drop k bs \<or> r = -1 \<and> (\<exists>m. out1 = take m (drop k bs))" by simp
      with out show ?thesis by (metis append_take_drop_id take_add)
    next
      case WrIntr
      with 1(3) False ws have "put_loop bs ws1 True = Some (r, out, ws', ei')"
        by simp
      with 1(2) [OF _ ws WrIntr] False show ?thesis by simp
    next
      case WrErr
      with 1(3) False ws show ?thesis by (auto intro: exI [of _ 0])
    qed
  qed
qed

text \<open>What \<^verbatim>\<open>session_write\<close> does to the session: only the output side and \<open>quit\<close> change.\<close>

definition output_only :: "'s sess_scheme \<Rightarrow> 's sess_scheme \<Rightarrow> bool" where
  "output_only s s' \<longleftrightarrow>
     (\<exists>q ei ws out. s' = s\<lparr>quit := (quit s \<or> q), eintr := ei, wrs := ws, sent := sent s @ out\<rparr>)"

lemma output_only_refl: "output_only s s"
  unfolding output_only_def by (rule exI [of _ False], rule exI [of _ "eintr s"], rule exI [of _ "wrs s"], rule exI [of _ "[]"]) simp

lemma session_write_output: "session_write bs s = Some (r, s') \<Longrightarrow> output_only s s'"
  unfolding session_write_def output_only_def by auto

lemma session_puts_output: "session_puts bs s = Some (r, s') \<Longrightarrow> output_only s s'"
  unfolding session_puts_def by (rule session_write_output)

lemma session_printf_output: "session_printf bs s = Some (r, s') \<Longrightarrow> output_only s s'"
  unfolding session_printf_def Let_def
  by (auto split: if_splits intro: session_write_output output_only_refl)

lemma session_prompt_output: "session_prompt s = Some (r, s') \<Longrightarrow> output_only s s'"
  unfolding session_prompt_def by (rule session_puts_output)

lemma session_write_all:
  assumes "lets_through (length bs) (wrs s)"
  shows "\<exists>s'. session_write bs s = Some (0, s') \<and> sent s' = sent s @ bs \<and> quit s' = quit s \<and> output_only s s'"
proof -
  obtain ws ei where "put_loop bs (wrs s) (eintr s) = Some (0, bs, ws, ei)"
    using put_loop_ok [OF assms] by blast
  then have "session_write bs s = Some (0, s\<lparr>quit := (quit s \<or> (0::int) < 0), eintr := ei, wrs := ws, sent := sent s @ bs\<rparr>)"
    by (simp add: session_write_def)
  then show ?thesis using session_write_output by fastforce
qed

section \<open>Lines are found whatever the chunks\<close>

text \<open>The bytes that are still to be read before the stream ends or fails.\<close>

fun stream_of :: "rd list \<Rightarrow> bytes" where
  "stream_of [] = []"
| "stream_of (RData bs # rs) = bs @ stream_of rs"
| "stream_of (RIntr # rs) = stream_of rs"
| "stream_of (REof # rs) = []"
| "stream_of (RErr # rs) = []"

definition pending :: "'s sess_scheme \<Rightarrow> bytes" where
  "pending s = inbuf s @ stream_of (rds s)"

definition buf_ok :: "'s sess_scheme \<Rightarrow> bool" where
  "buf_ok s \<longleftrightarrow> length (inbuf s) \<le> YASH_BUF_SIZE \<and> RData [] \<notin> set (rds s)"

text \<open>The line as the handlers see it: without the newline and one carriage return before it.\<close>

definition strip_cr :: "bytes \<Rightarrow> bytes" where
  "strip_cr l = (if l \<noteq> [] \<and> last l = CR then butlast l else l)"

lemma takeWhile_LF: "LF \<notin> set l \<Longrightarrow> takeWhile (\<lambda>c. c \<noteq> LF) (l @ LF # m) = l"
  by (induction l) auto

lemma buf_take_line_None: "buf_take_line n s = None \<longleftrightarrow> LF \<notin> set (inbuf s)"
proof -
  have "length (takeWhile (\<lambda>c. c \<noteq> LF) (inbuf s)) = length (inbuf s) \<longleftrightarrow> LF \<notin> set (inbuf s)"
    using takeWhile_length_less_iff [of "\<lambda>c. c \<noteq> LF" "inbuf s"] length_takeWhile_le [of "\<lambda>c. c \<noteq> LF" "inbuf s"]
    by (auto simp: less_le)
  then show ?thesis by (simp add: buf_take_line_def Let_def)
qed

lemma buf_take_line_Some:
  assumes "inbuf s = l @ LF # m" and "LF \<notin> set l" and "length l < n"
  shows "buf_take_line n s = Some (cstr (strip_cr l) 0, s\<lparr>inbuf := m\<rparr>)"
proof -
  have tw: "takeWhile (\<lambda>c. c \<noteq> LF) (inbuf s) = l" using assms by (simp add: takeWhile_LF)
  have sc: "(if length l > 0 \<and> l ! (length l - 1) = CR then take (length l - 1) l else l) = strip_cr l"
    by (cases l rule: rev_cases) (auto simp: strip_cr_def)
  have ib: "take (length l) (inbuf s) = l" "drop (length l + 1) (inbuf s) = m" "length l \<noteq> length (inbuf s)"
    "\<not> n \<le> length l"
    using assms by simp_all
  show ?thesis unfolding buf_take_line_def tw Let_def by (simp only: ib if_False sc)
qed

lemma buf_take_line_input:
  assumes "buf_take_line n s = Some (line, s')"
  shows "\<exists>l m. inbuf s = l @ LF # m \<and> LF \<notin> set l \<and> s' = s\<lparr>inbuf := m\<rparr>"
proof -
  have "LF \<in> set (inbuf s)" using assms buf_take_line_None [of n s] by auto
  then obtain l m where lm: "inbuf s = l @ LF # m" "LF \<notin> set l" by (metis split_list_first)
  then have tw: "takeWhile (\<lambda>c. c \<noteq> LF) (inbuf s) = l" by (simp add: takeWhile_LF)
  show ?thesis using assms lm unfolding buf_take_line_def tw Let_def by (auto split: if_splits)
qed

text \<open>A step of the loop that takes bytes in keeps what is pending.\<close>

definition fills :: "'s sess_scheme \<Rightarrow> int \<Rightarrow> 's sess_scheme \<Rightarrow> bool" where
  "fills s r s' \<longleftrightarrow> s' = s\<lparr>inbuf := inbuf s', eintr := eintr s', rds := rds s'\<rparr>
    \<and> pending s' = pending s \<and> buf_ok s'
    \<and> (r > 0 \<or> r < 0 \<and> eintr s')
    \<and> length (stream_of (rds s')) + length (rds s') < length (stream_of (rds s)) + length (rds s)"

lemma fill_step:
  assumes "buf_fill s = Some (r, s\<lparr>inbuf := ib, eintr := ei, rds := rs\<rparr>)"
    and "fills s r (s\<lparr>inbuf := ib, eintr := ei, rds := rs\<rparr>)"
  shows "\<exists>r s'. buf_fill s = Some (r, s') \<and> fills s r s'"
  using assms by blast

lemma buf_fill_pending:
  assumes "buf_ok s" and "length (inbuf s) < YASH_BUF_SIZE" and "inbuf s \<noteq> pending s"
  shows "\<exists>r s'. buf_fill s = Some (r, s') \<and> fills s r s'"
proof (cases "rds s")
  case (Cons a rs)
  show ?thesis
  proof (cases a)
    case (RData bs)
    with assms Cons have ne: "bs \<noteq> []" by (auto simp: buf_ok_def)
    let ?room = "YASH_BUF_SIZE - length (inbuf s)"
    show ?thesis
    proof (cases "length bs \<le> ?room")
      case True
      show ?thesis
        by (rule fill_step [of _ "int (length bs)" rs "eintr s" "inbuf s @ bs"])
          (use assms True ne Cons RData in \<open>auto simp: buf_fill_def pending_def buf_ok_def fills_def\<close>)
    next
      case False
      show ?thesis
        by (rule fill_step [of _ "int ?room" "RData (drop ?room bs) # rs" "eintr s" "inbuf s @ take ?room bs"])
          (use assms False ne Cons RData in \<open>auto simp: buf_fill_def pending_def buf_ok_def min_def fills_def\<close>)
    qed
  next
    case RIntr
    show ?thesis
      by (rule fill_step [of _ "-1" rs True "inbuf s"])
        (use assms Cons RIntr in \<open>auto simp: buf_fill_def pending_def buf_ok_def fills_def\<close>)
  qed (use assms(3) Cons in \<open>simp_all add: pending_def\<close>)
qed (use assms(3) in \<open>simp add: pending_def\<close>)

text \<open>Only the input side of a session has changed.\<close>

definition input_only :: "'s sess_scheme \<Rightarrow> 's sess_scheme \<Rightarrow> bool" where
  "input_only s s' \<longleftrightarrow> s' = s\<lparr>inbuf := inbuf s', eintr := eintr s', rds := rds s'\<rparr>"

lemma input_only_refl [simp]: "input_only s s"
  by (simp add: input_only_def)

lemma input_only_trans [trans]: "input_only s s' \<Longrightarrow> input_only s' s'' \<Longrightarrow> input_only s s''"
  unfolding input_only_def by (cases s, cases s', cases s'') simp

lemma split_at_newline:
  assumes "u @ v = l @ LF # rest" and "LF \<notin> set l"
  shows "(\<exists>m. u = l @ LF # m \<and> rest = m @ v) \<or> (LF \<notin> set u \<and> (\<exists>k. l = u @ k \<and> v = k @ LF # rest))"
proof -
  from assms(1) consider (a) m where "u = l @ m" "m @ v = LF # rest"
    | (b) k where "l = u @ k" "v = k @ LF # rest"
    by (auto simp: append_eq_append_conv2)
  then show ?thesis
  proof cases
    case a
    then show ?thesis using assms(2) by (cases m) auto
  next
    case b
    then show ?thesis using assms(2) by auto
  qed
qed

lemma readsocket_line:
  assumes "pending s = l @ LF # rest" and "LF \<notin> set l" and "length l < YASH_BUF_SIZE" and "buf_ok s"
  shows "\<exists>s'. session_readsocket YASH_BUF_SIZE s = Some (1, cstr (strip_cr l) 0, s')
    \<and> pending s' = rest \<and> buf_ok s' \<and> input_only s s'"
  using assms
proof (induction "length (stream_of (rds s)) + length (rds s)" arbitrary: s rule: less_induct)
  case less
  from split_at_newline [of "inbuf s" "stream_of (rds s)" l rest] less.prems(1,2)
  consider (here) m where "inbuf s = l @ LF # m" "rest = m @ stream_of (rds s)"
    | (more) k where "LF \<notin> set (inbuf s)" "l = inbuf s @ k" "stream_of (rds s) = k @ LF # rest"
    unfolding pending_def by blast
  then show ?case
  proof cases
    case here
    have "session_readsocket YASH_BUF_SIZE s = Some (1, cstr (strip_cr l) 0, s\<lparr>inbuf := m\<rparr>)"
      using buf_take_line_Some [OF here(1) less.prems(2,3)] by (simp add: session_readsocket.simps)
    then show ?thesis using here less.prems(4) by (auto simp: pending_def buf_ok_def input_only_def)
  next
    case more
    then have "length (inbuf s) < YASH_BUF_SIZE" "inbuf s \<noteq> pending s"
      using less.prems(3) by (auto simp: pending_def)
    then obtain r s1 where fill: "buf_fill s = Some (r, s1)" and f: "fills s r s1"
      using buf_fill_pending [OF less.prems(4)] by blast
    have smaller: "length (stream_of (rds s1)) + length (rds s1) < length (stream_of (rds s)) + length (rds s)"
      using f by (simp add: fills_def)
    have "pending s1 = l @ LF # rest" "buf_ok s1" using f less.prems(1) by (simp_all add: fills_def)
    from less.hyps [OF smaller this(1) less.prems(2,3) this(2)]
    obtain s' where s': "session_readsocket YASH_BUF_SIZE s1 = Some (1, cstr (strip_cr l) 0, s')"
      "pending s' = rest" "buf_ok s'" "input_only s1 s'" by blast
    have "session_readsocket YASH_BUF_SIZE s = session_readsocket YASH_BUF_SIZE s1"
      using f more(1) by (subst session_readsocket.simps) (auto simp: buf_take_line_None [THEN iffD2] fill fills_def)
    moreover have "input_only s s1" using f by (simp add: fills_def input_only_def)
    ultimately show ?thesis using s' input_only_trans by metis
  qed
qed

end
