(* ===== verification/Yashd_Session.thy ===== *)
theory Yashd_Session
  imports Yashd_Wire
begin

text \<open>
  One client of the daemon (Project 2): the job table of \<^verbatim>\<open>jobs.c\<close>, the children of
  \<^verbatim>\<open>exec.c\<close>, the builtins of \<^verbatim>\<open>builtins.c\<close>, the log entry of
  \<^verbatim>\<open>log.c\<close> and the dispatch and main loop of \<^verbatim>\<open>session.c\<close>, each operation
  on the \<^verbatim>\<open>session_t\<close> it is given. The state of a session is the record below: the fields of
  \<^verbatim>\<open>session_t\<close>, the process it runs in (\<open>self\<close>: descriptors, signals, group), the answers
  the kernel is still to give, and what has been done so far: system calls on processes in \<open>tr\<close>,
  writes to a command's stdin in \<open>fed\<close>, log entries in \<open>logged\<close>. The parser, the redirections and
  the part of the job table that carried over from Project 1 are the definitions of
  \<^verbatim>\<open>Yash_Parse\<close>, \<^verbatim>\<open>Yash_Exec\<close> and \<^verbatim>\<open>Yash_Jobs\<close>, at the job type with
  \<^verbatim>\<open>infd\<close>. Operations that differ from Project 1 carry the suffix \<open>_d\<close>. \<open>None\<close> is a call
  that does not return.
\<close>

section \<open>State\<close>

text \<open>\<^verbatim>\<open>select\<close> on the socket: readable, the timeout, or interrupted.\<close>

datatype sel = SelReady | SelTimeout | SelIntr

record djob = job +
  infd :: int

type_synonym djobs = "(addr \<times> djob) list"

record dsess = sess +
  job_list :: djobs
  fg_job :: "addr option"
  self :: proc
  npipes :: nat
  log_on :: bool
  sels :: "sel list"
  pws :: "wr list"
  wts :: "wres list"
  fks :: "nat \<Rightarrow> pid"
  mlc :: "nat \<Rightarrow> addr option"
  pok :: "nat \<Rightarrow> bool"
  stamps :: "nat \<Rightarrow> string option"
  tr :: "event list"
  fed :: "(int \<times> bytes) list"
  logged :: "string list"

definition tick :: "(nat \<Rightarrow> 'a) \<Rightarrow> nat \<Rightarrow> 'a" where
  "tick f n = f (Suc n)"

definition d_emit :: "event list \<Rightarrow> dsess \<Rightarrow> dsess" where
  "d_emit es s = s\<lparr>tr := tr s @ es\<rparr>"

definition d_fdt :: "(fdtab \<Rightarrow> fdtab) \<Rightarrow> dsess \<Rightarrow> dsess" where
  "d_fdt f s = s\<lparr>self := (self s)\<lparr>fdt := f (fdt (self s))\<rparr>\<rparr>"

definition d_job :: "addr \<Rightarrow> (djob \<Rightarrow> djob) \<Rightarrow> dsess \<Rightarrow> dsess" where
  "d_job a f s = s\<lparr>job_list := upd_job a f (job_list s)\<rparr>"

abbreviation the_job :: "addr \<Rightarrow> dsess \<Rightarrow> djob" where
  "the_job a s \<equiv> job_at a (job_list s)"

text \<open>
  \<^verbatim>\<open>malloc\<close> for a job: it fails where \<open>mlc\<close> says so, and otherwise returns an address that
  no job of the table has; addresses are only ever compared.
\<close>

definition d_malloc :: "dsess \<Rightarrow> addr option" where
  "d_malloc s = map_option (\<lambda>k. k + Suc (fold max (map fst (job_list s)) 0)) (mlc s 0)"

section \<open>jobs.c\<close>

definition jobs_init_d :: "dsess \<Rightarrow> dsess" where
  "jobs_init_d s = s\<lparr>job_list := [], fg_job := None\<rparr>"

definition jobs_add_d :: "djob \<Rightarrow> dsess \<Rightarrow> addr option \<times> dsess" where
  "jobs_add_d proto s =
     (case jobs_add (d_malloc s) proto (job_list s) of
        (r, t) \<Rightarrow> (r, s\<lparr>job_list := t, mlc := tick (mlc s),
                     eintr := (eintr s \<and> (r \<noteq> None \<or> jobs_count (job_list s) \<ge> YASH_MAX_JOBS))\<rparr>))"

definition jobs_remove_d :: "addr \<Rightarrow> dsess \<Rightarrow> dsess" where
  "jobs_remove_d a s =
     (case map_of (job_list s) a of
        None \<Rightarrow> s
      | Some j \<Rightarrow>
          let s1 = s\<lparr>job_list := jobs_remove a (job_list s)\<rparr>;
              s2 = (if infd j \<ge> 0 then d_fdt (c_close (infd j)) s1 else s1)
          in if fg_job s2 = Some a then s2\<lparr>fg_job := None\<rparr> else s2)"

definition jobs_current_d :: "dsess \<Rightarrow> addr option" where
  "jobs_current_d s = jobs_current (job_list s)"

definition jobs_recent_stopped_d :: "dsess \<Rightarrow> addr option" where
  "jobs_recent_stopped_d s = jobs_recent_stopped (job_list s)"

definition jobs_find_pid_d :: "pid \<Rightarrow> dsess \<Rightarrow> addr option" where
  "jobs_find_pid_d p s = jobs_find_pid p (job_list s)"

definition clear_pid :: "pid \<Rightarrow> djob \<Rightarrow> djob" where
  "clear_pid p j =
     j\<lparr>cmds := map (\<lambda>c. if cmd_pid c = p then c\<lparr>cmd_pid := 0\<rparr> else c) (take (ncmds j) (cmds j))
              @ drop (ncmds j) (cmds j)\<rparr>"

text \<open>
  \<^verbatim>\<open>poll_job\<close> on the answers \<open>ws\<close> of \<^verbatim>\<open>waitpid(-pgid)\<close>: whether the job stopped, the
  answers left, \<open>eintr\<close> and the job. A polling call finds nothing where the answers are used up.
\<close>

fun poll_job :: "wres list \<Rightarrow> bool \<Rightarrow> bool \<Rightarrow> djob \<Rightarrow> (bool \<times> wres list \<times> bool \<times> djob) option" where
  "poll_job ws block ei j =
     (if \<not> nlive j > 0 then Some (False, ws, ei, j)
      else case ws of
             [] \<Rightarrow> if block then None else Some (False, [], ei, j)
           | WNothing # ws' \<Rightarrow> if block then poll_job ws' block ei j else Some (False, ws', ei, j)
           | WError EINTR # ws' \<Rightarrow> poll_job ws' block True j
           | WError ECHILD # ws' \<Rightarrow> Some (False, ws', False, j\<lparr>nlive := 0\<rparr>)
           | WChange p WStopped # ws' \<Rightarrow> Some (True, ws', ei, j\<lparr>state := JOB_STOPPED\<rparr>)
           | WChange p WContinued # ws' \<Rightarrow> poll_job ws' block ei (j\<lparr>state := JOB_RUNNING\<rparr>)
           | WChange p WExited # ws' \<Rightarrow>
               poll_job ws' block ei ((clear_pid p j)\<lparr>nlive := nlive (clear_pid p j) - 1\<rparr>))"

declare poll_job.simps [simp del]

text \<open>The same on the job at \<open>a\<close> in the session.\<close>

definition poll_at :: "addr \<Rightarrow> bool \<Rightarrow> dsess \<Rightarrow> (bool \<times> dsess) option" where
  "poll_at a block s =
     map_option (\<lambda>(stopped, ws, ei, j).
         (stopped, d_emit (map (EWait (Some (pgid (the_job a s)))) (consumed (wts s) ws))
                     (d_job a (\<lambda>_. j) (s\<lparr>eintr := ei, wts := ws\<rparr>))))
       (poll_job (wts s) block (eintr s) (the_job a s))"

definition jobs_print_one_d :: "djob \<Rightarrow> char \<Rightarrow> string \<Rightarrow> dsess \<Rightarrow> dsess option" where
  "jobs_print_one_d j mark status s = map_option snd (session_printf (jobs_print_one j mark status) s)"

text \<open>The two loops of \<^verbatim>\<open>jobs_reap\<close>, over the nodes in link order.\<close>

fun reap_poll :: "addr list \<Rightarrow> dsess \<Rightarrow> dsess option" where
  "reap_poll [] s = Some s"
| "reap_poll (a # as) s =
     (if state (the_job a s) \<noteq> JOB_DONE \<and> nlive (the_job a s) > 0 then
        do {
          (stopped, s1) \<leftarrow> poll_at a False s;
          reap_poll as (if \<not> stopped \<and> nlive (the_job a s1) = 0 then d_job a (\<lambda>j. j\<lparr>state := JOB_DONE\<rparr>) s1 else s1)
        }
      else reap_poll as s)"

fun reap_done :: "addr list \<Rightarrow> dsess \<Rightarrow> dsess option" where
  "reap_done [] s = Some s"
| "reap_done (a # as) s =
     (if state (the_job a s) = JOB_DONE then
        do {
          s1 \<leftarrow> jobs_print_one_d (the_job a s) (if jobs_current_d s = None then CHR ''+'' else CHR ''-'')
                  ''Done'' s;
          reap_done as (jobs_remove_d a s1)
        }
      else reap_done as s)"

definition jobs_reap_d :: "dsess \<Rightarrow> dsess option" where
  "jobs_reap_d s =
     do { s1 \<leftarrow> reap_poll (map fst (job_list s)) s; reap_done (map fst (job_list s1)) s1 }"

fun print_jobs :: "addr option \<Rightarrow> djobs \<Rightarrow> dsess \<Rightarrow> dsess option" where
  "print_jobs cur [] s = Some s"
| "print_jobs cur ((a, j) # t) s =
     do {
       s1 \<leftarrow> jobs_print_one_d j (if Some a = cur then CHR ''+'' else CHR ''-'')
               (if state j = JOB_STOPPED then ''Stopped'' else ''Running'') s;
       print_jobs cur t s1
     }"

definition jobs_print_d :: "dsess \<Rightarrow> dsess option" where
  "jobs_print_d s = print_jobs (jobs_current_d s) (job_list s) s"

text \<open>The inner loop of \<^verbatim>\<open>jobs_kill_all\<close>: blocking calls until the live count is 0.\<close>

fun kill_wait :: "wres list \<Rightarrow> bool \<Rightarrow> int \<Rightarrow> (wres list \<times> bool) option" where
  "kill_wait ws ei n =
     (if \<not> n > 0 then Some (ws, ei)
      else case ws of
             [] \<Rightarrow> None
           | WNothing # ws' \<Rightarrow> kill_wait ws' ei n
           | WError EINTR # ws' \<Rightarrow> kill_wait ws' True n
           | WError ECHILD # ws' \<Rightarrow> Some (ws', False)
           | WChange p WStopped # ws' \<Rightarrow> kill_wait ws' ei n
           | WChange p WContinued # ws' \<Rightarrow> kill_wait ws' ei n
           | WChange p WExited # ws' \<Rightarrow> kill_wait ws' ei (n - 1))"

declare kill_wait.simps [simp del]

fun kill_jobs :: "djobs \<Rightarrow> dsess \<Rightarrow> dsess option" where
  "kill_jobs [] s = Some s"
| "kill_jobs ((a, j) # t) s =
     (let s1 = d_emit [EKill (- pgid j) SIGKILL] s;
          s2 = (if infd j \<ge> 0 then d_fdt (c_close (infd j)) s1 else s1)
      in do {
           (ws, ei) \<leftarrow> kill_wait (wts s2) (eintr s2) (nlive j);
           kill_jobs t (d_emit (map (EWait (Some (pgid j))) (consumed (wts s2) ws)) (s2\<lparr>eintr := ei, wts := ws\<rparr>))
         })"

definition jobs_kill_all_d :: "dsess \<Rightarrow> dsess option" where
  "jobs_kill_all_d s = map_option (\<lambda>s1. s1\<lparr>job_list := [], fg_job := None\<rparr>) (kill_jobs (job_list s) s)"

section \<open>session.c: messages for a running command\<close>

text \<open>One \<^verbatim>\<open>write\<close> to a pipe: whether its result was not negative.\<close>

definition pipe_write :: "int \<Rightarrow> bytes \<Rightarrow> dsess \<Rightarrow> (bool \<times> dsess) option" where
  "pipe_write fd bs s =
     (case pws s of
        [] \<Rightarrow> None
      | WrSome n # ws \<Rightarrow> Some (True, s\<lparr>pws := ws, fed := fed s @ [(fd, take n bs)]\<rparr>)
      | WrIntr # ws \<Rightarrow> Some (False, s\<lparr>eintr := True, pws := ws\<rparr>)
      | WrErr # ws \<Rightarrow> Some (False, s\<lparr>eintr := False, pws := ws\<rparr>))"

definition close_infd :: "addr \<Rightarrow> dsess \<Rightarrow> dsess" where
  "close_infd a s = d_job a (\<lambda>j. j\<lparr>infd := -1\<rparr>) (d_fdt (c_close (infd (the_job a s))) s)"

definition handle_ctl :: "string \<Rightarrow> dsess \<Rightarrow> dsess" where
  "handle_ctl arg s =
     (case arg of
        [] \<Rightarrow> s
      | c # _ \<Rightarrow>
          if c = CTL_INT then
            (case fg_job s of None \<Rightarrow> s | Some a \<Rightarrow> d_emit [EKill (- pgid (the_job a s)) SIGINT] s)
          else if c = CTL_STOP then
            (case fg_job s of None \<Rightarrow> s | Some a \<Rightarrow> d_emit [EKill (- pgid (the_job a s)) SIGTSTP] s)
          else if c = CTL_EOF then
            (case fg_job s of
               None \<Rightarrow> s\<lparr>quit := True\<rparr>
             | Some a \<Rightarrow> if infd (the_job a s) \<ge> 0 then close_infd a s else s\<lparr>quit := True\<rparr>)
          else s)"

definition handle_text :: "string \<Rightarrow> dsess \<Rightarrow> dsess option" where
  "handle_text line s =
     (case fg_job s of
        None \<Rightarrow> Some s
      | Some a \<Rightarrow>
          if infd (the_job a s) < 0 then Some s
          else do {
            (ok1, s1) \<leftarrow> pipe_write (infd (the_job a s)) line s;
            (ok2, s2) \<leftarrow> (if ok1 then pipe_write (infd (the_job a s)) [LF] s1 else Some (False, s1));
            Some (if ok2 then s2 else close_infd a s2)
          })"

definition dispatch_running :: "string \<Rightarrow> dsess \<Rightarrow> dsess option" where
  "dispatch_running line s =
     (if starts_with line MSG_CTL then Some (handle_ctl (drop MSG_PREFIX_LEN line) s)
      else handle_text line s)"

partial_function (option) drain :: "dsess \<Rightarrow> dsess option" where
  "drain s =
     (case buf_take_line YASH_BUF_SIZE s of
        None \<Rightarrow> Some s
      | Some (line, s1) \<Rightarrow> do { s2 \<leftarrow> dispatch_running line s1; drain s2 })"

definition session_pump :: "dsess \<Rightarrow> (int \<times> dsess) option" where
  "session_pump s =
     do {
       s1 \<leftarrow> drain s;
       (case sels s1 of
          [] \<Rightarrow> None
        | r # rest \<Rightarrow>
            let s2 = s1\<lparr>sels := rest, eintr := (eintr s1 \<or> r = SelIntr)\<rparr> in
            if r \<noteq> SelReady then Some (1, s2)
            else do {
              (n, s3) \<leftarrow> buf_fill s2;
              if n = 0 then Some (0, s3)
              else do { s4 \<leftarrow> drain s3; Some (1, s4) }
            })
     }"

section \<open>jobs.c: the foreground wait\<close>

text \<open>One turn of the loop: service the socket and poll the job, or block once the session is ending.\<close>

definition wait_turn :: "addr \<Rightarrow> dsess \<Rightarrow> (bool \<times> dsess) option" where
  "wait_turn a s =
     (if \<not> quit s then
        do {
          (r, s1) \<leftarrow> session_pump s;
          poll_at a False
            (if r = 0 then d_emit [EKill (- pgid (the_job a s1)) SIGKILL] (s1\<lparr>quit := True\<rparr>) else s1)
        }
      else poll_at a True s)"

partial_function (option) wait_loop :: "addr \<Rightarrow> dsess \<Rightarrow> (bool \<times> dsess) option" where
  "wait_loop a s =
     (if \<not> nlive (the_job a s) > 0 then Some (False, s)
      else do {
        (stopped, s1) \<leftarrow> wait_turn a s;
        if stopped then Some (True, s1) else wait_loop a s1
      })"

definition jobs_wait_fg_d :: "addr \<Rightarrow> dsess \<Rightarrow> dsess option" where
  "jobs_wait_fg_d a s =
     map_option (\<lambda>(returned, s1). if returned then s1 else d_job a (\<lambda>j. j\<lparr>state := JOB_DONE\<rparr>) s1) (wait_loop a s)"

section \<open>exec.c\<close>

definition reset_child_signals :: "'p proc_scheme \<Rightarrow> 'p proc_scheme" where
  "reset_child_signals p =
     fold (\<lambda>sg. set_handler sg SIG_DFL)
       [SIGINT, SIGTSTP, SIGQUIT, SIGTTIN, SIGTTOU, SIGPIPE, SIGHUP, SIGCHLD] p"

text \<open>The pipe for the command's stdin; \<open>k\<close> tells it from the other sessions' and jobs' pipes.\<close>

definition c_inpipe :: "nat \<Rightarrow> nat \<Rightarrow> fdtab \<Rightarrow> ((int \<times> int) \<times> fdtab) option" where
  "c_inpipe lim k t =
     (case fd_alloc lim t of
        None \<Rightarrow> None
      | Some r \<Rightarrow>
          (case fd_alloc lim (t(r \<mapsto> InRead k)) of
             None \<Rightarrow> None
           | Some w \<Rightarrow> Some ((r, w), t(r \<mapsto> InRead k, w \<mapsto> InWrite k))))"

text \<open>The descriptors of command \<open>i\<close> up to the redirections.\<close>

definition child_fds :: "nat \<Rightarrow> nat \<Rightarrow> int \<times> int \<Rightarrow> int \<times> int \<Rightarrow> int \<Rightarrow> fdtab \<Rightarrow> fdtab" where
  "child_fds lim i inpipe fds cf t =
     (let t1 = (if i = 0 then snd (c_dup2 lim (fst inpipe) STDIN_FILENO t) else t);
          t2 = c_close (snd inpipe) (c_close (fst inpipe) t1);
          t3 = snd (c_dup2 lim cf STDOUT_FILENO t2);
          t4 = snd (c_dup2 lim cf STDERR_FILENO t3);
          t5 = child_pipe lim i fds t4
      in if cf > STDERR_FILENO then c_close cf t5 else t5)"

text \<open>\<^verbatim>\<open>redirect.c\<close> is the one of Project 1.\<close>

definition redirect_apply_d :: "os \<Rightarrow> bytes \<Rightarrow> cmd \<Rightarrow> proc \<Rightarrow> int \<times> proc" where
  "redirect_apply_d os b c p = redirect_apply os b c p"

definition exec_child_d ::
  "os \<Rightarrow> pid \<Rightarrow> nat \<Rightarrow> pid \<Rightarrow> int \<times> int \<Rightarrow> int \<times> int \<Rightarrow> int \<Rightarrow> bytes \<Rightarrow> cmd \<Rightarrow> proc \<Rightarrow> proc \<times> child_end" where
  "exec_child_d os mypid i pg inpipe fds cf b c p =
     (let p1 = p\<lparr>grp := (if pg = 0 then mypid else pg)\<rparr>;
          p2 = reset_child_signals p1;
          p3 = p2\<lparr>fdt := child_fds (fd_max os) i inpipe fds cf (fdt p2)\<rparr>
      in case redirect_apply_d os b c p3 of
           (r, p4) \<Rightarrow> if r < 0 then (p4, Exit 1) else (p4, c_execvp os (argv_strings b c)))"

function fork_loop_d ::
  "os \<Rightarrow> int \<times> int \<Rightarrow> int \<times> int \<Rightarrow> nat \<Rightarrow> pid \<Rightarrow> djob \<Rightarrow> dsess \<Rightarrow> pid \<times> djob \<times> dsess" where
  "fork_loop_d os inpipe fds i pg j s =
     (if i < ncmds j then
        (let pid = fks s 0; s0 = s\<lparr>fks := tick (fks s)\<rparr> in
         if pid < 0 then (pg, j, s0\<lparr>eintr := False\<rparr>)
         else
           let child = exec_child_d os pid i pg inpipe fds (cfd s) (buf j) (cmds j ! i) (self s);
               j1 = upd_cmd i (\<lambda>c. c\<lparr>cmd_pid := pid\<rparr>) j;
               pg1 = (if pg = 0 then pid else pg);
               s1 = d_emit [EFork pid (fst child) (snd child), ESetpgid pid pg1] s0
           in fork_loop_d os inpipe fds (i + 1) pg1 (j1\<lparr>nlive := nlive j1 + 1\<rparr>) s1)
      else (pg, j, s))"
  by pat_completeness auto

termination fork_loop_d
  by (relation "measure (\<lambda>(os, inpipe, fds, i, pg, j, s). ncmds j - i)") (auto simp: upd_cmd_def)

declare fork_loop_d.simps [simp del]

text \<open>The end of \<^verbatim>\<open>exec_job\<close> and of \<^verbatim>\<open>do_fg\<close>: wait in the foreground, drop a finished job.\<close>

definition run_fg :: "addr \<Rightarrow> dsess \<Rightarrow> dsess option" where
  "run_fg a s =
     do {
       s1 \<leftarrow> jobs_wait_fg_d a (s\<lparr>fg_job := Some a\<rparr>);
       (let s2 = s1\<lparr>fg_job := None\<rparr>
        in Some (if state (the_job a s2) = JOB_DONE then jobs_remove_d a s2 else s2))
     }"

text \<open>\<^verbatim>\<open>exec_job\<close> once the commands are forked, with the group \<open>pg\<close> and the live count in \<open>proto\<close>.\<close>

definition adopt_job :: "int \<times> int \<Rightarrow> pid \<Rightarrow> djob \<Rightarrow> dsess \<Rightarrow> dsess option" where
  "adopt_job inpipe pg proto s =
     (if nlive proto = 0 then Some (d_fdt (c_close (snd inpipe)) s)
      else
        let s1 = (if background proto then d_fdt (c_close (snd inpipe)) s else s);
            proto1 = proto\<lparr>pgid := pg, infd := (if background proto then -1 else snd inpipe)\<rparr>
        in case jobs_add_d proto1 s1 of
             (None, s2) \<Rightarrow>
               let s3 = d_emit [EKill (- pg) SIGKILL] s2
               in Some (if infd proto1 \<ge> 0 then d_fdt (c_close (infd proto1)) s3 else s3)
           | (Some a, s2) \<Rightarrow> if background (the_job a s2) then Some s2 else run_fg a s2)"

definition exec_job_d :: "os \<Rightarrow> djob \<Rightarrow> dsess \<Rightarrow> dsess option" where
  "exec_job_d os proto0 s =
     (let proto = proto0\<lparr>infd := -1\<rparr>;
          s0 = s\<lparr>pok := tick (pok s)\<rparr> in
      case (if pok s 0 then c_inpipe (fd_max os) (npipes s) (fdt (self s)) else None) of
        None \<Rightarrow> Some (s0\<lparr>eintr := False\<rparr>)
      | Some (inpipe, t) \<Rightarrow>
          let s1 = d_fdt (\<lambda>_. t) (s0\<lparr>npipes := npipes s + 1\<rparr>) in
          (case (if ncmds proto = 2 then
                   (if pok s1 0 then c_pipe (fd_max os) (fdt (self s1)) else None)
                 else Some ((-1, -1), fdt (self s1))) of
             None \<Rightarrow> Some (d_fdt (c_close (snd inpipe) \<circ> c_close (fst inpipe)) (s1\<lparr>pok := tick (pok s1), eintr := False\<rparr>))
           | Some (fds, t1) \<Rightarrow>
               let s2 = d_fdt (\<lambda>_. t1) (if ncmds proto = 2 then s1\<lparr>pok := tick (pok s1)\<rparr> else s1) in
               (case fork_loop_d os inpipe fds 0 0 proto s2 of
                  (pg, proto1, s3) \<Rightarrow>
                    let s4 = (if fst fds \<noteq> -1 then d_fdt (c_close (snd fds) \<circ> c_close (fst fds)) s3 else s3);
                        s5 = d_fdt (c_close (fst inpipe)) s4
                    in adopt_job inpipe pg proto1 s5)))"

section \<open>builtins.c\<close>

definition do_fg_d :: "dsess \<Rightarrow> dsess option" where
  "do_fg_d s =
     (case jobs_current_d s of
        None \<Rightarrow> Some s
      | Some a \<Rightarrow>
          do {
            (_, s1) \<leftarrow> session_printf (cstr (cmdline (the_job a s)) 0 @ [LF]) s;
            (let s2 = d_job a (\<lambda>j. j\<lparr>background := False\<rparr>) s1;
                 s3 = (if state (the_job a s2) = JOB_STOPPED then d_emit [EKill (- pgid (the_job a s2)) SIGCONT] s2
                       else s2)
             in run_fg a (d_job a (\<lambda>j. j\<lparr>state := JOB_RUNNING\<rparr>) s3))
          })"

definition do_bg_d :: "dsess \<Rightarrow> dsess option" where
  "do_bg_d s =
     (case jobs_recent_stopped_d s of
        None \<Rightarrow> Some s
      | Some a \<Rightarrow>
          let s1 = d_emit [EKill (- pgid (the_job a s)) SIGCONT] s;
              s2 = d_job a (\<lambda>j. j\<lparr>state := JOB_RUNNING, background := True\<rparr>) s1
          in jobs_print_one_d (the_job a s2) (CHR ''+'') ''Running'' s2)"

definition builtin_try_d :: "djob \<Rightarrow> dsess \<Rightarrow> (bool \<times> dsess) option" where
  "builtin_try_d job s =
     (if ncmds job \<noteq> 1 \<or> argc (cmds job ! 0) = 0 then Some (False, s)
      else
        let name = str_at (buf job) (the (argv (cmds job ! 0) ! 0))
        in if name = ''jobs'' then map_option (Pair True) (jobs_print_d s)
           else if name = ''fg'' then map_option (Pair True) (do_fg_d s)
           else if name = ''bg'' then map_option (Pair True) (do_bg_d s)
           else Some (False, s))"

section \<open>log.c\<close>

text \<open>\<open>stamps\<close>: the text of \<^verbatim>\<open>strftime\<close>, or nothing where the time cannot be had.\<close>

definition log_command :: "string \<Rightarrow> dsess \<Rightarrow> dsess" where
  "log_command line s =
     (if \<not> log_on s \<or> line = [] then s
      else
        let s1 = s\<lparr>stamps := tick (stamps s)\<rparr> in
        case stamps s 0 of
          None \<Rightarrow> s1
        | Some stamp \<Rightarrow>
            let entry = stamp @ '' yashd['' @ peer_ip s @ '':'' @ show_nat (peer_port s) @ '']: '' @ line @ [LF];
                n = length entry; sz = YASH_MAX_LINE + 128
            in s1\<lparr>logged := logged s @ [take (if n \<ge> sz then sz - 1 else n) entry]\<rparr>)"

section \<open>session.c: commands and the main loop\<close>

text \<open>\<^verbatim>\<open>parse_line\<close> of Project 2; the job it fills is a local of the caller.\<close>

definition parse_line_d :: "string \<Rightarrow> djob \<Rightarrow> parse_status \<times> djob" where
  "parse_line_d line j0 = parse_into (zero_job (djob.fields (-1))) 0 (Some line) j0"

definition handle_cmd :: "os \<Rightarrow> string \<Rightarrow> dsess \<Rightarrow> dsess option" where
  "handle_cmd os line s =
     (case parse_line_d line (zero_job (djob.fields 0)) of
        (st, job) \<Rightarrow>
          if st \<noteq> PARSE_OK then Some s
          else
            let s1 = log_command line s in
            if str_at (buf job) (the (argv (cmds job ! 0) ! 0)) = ''quit'' \<and> ncmds job = 1
            then Some (s1\<lparr>quit := True\<rparr>)
            else do {
              (done, s2) \<leftarrow> builtin_try_d job s1;
              if done then Some s2 else exec_job_d os job s2
            })"

definition dispatch :: "os \<Rightarrow> string \<Rightarrow> dsess \<Rightarrow> dsess option" where
  "dispatch os line s =
     (if starts_with line MSG_CMD then handle_cmd os (drop MSG_PREFIX_LEN line) s
      else if starts_with line MSG_CTL then Some (handle_ctl (drop MSG_PREFIX_LEN line) s)
      else handle_text line s)"

partial_function (option) session_loop :: "os \<Rightarrow> dsess \<Rightarrow> dsess option" where
  "session_loop os s =
     do {
       s1 \<leftarrow> jobs_reap_d s;
       (r, s2) \<leftarrow> session_prompt s1;
       if r < 0 then Some s2
       else do {
         (n, line, s3) \<leftarrow> session_readsocket YASH_BUF_SIZE s2;
         if n \<le> 0 then Some s3
         else do {
           s4 \<leftarrow> dispatch os line s3;
           if quit s4 then Some s4 else session_loop os s4
         }
       }
     }"

definition session_destroy :: "dsess \<Rightarrow> dsess option" where
  "session_destroy s = map_option (\<lambda>s1. d_fdt (c_close (cfd s1)) s1) (jobs_kill_all_d s)"

definition session_main :: "os \<Rightarrow> dsess \<Rightarrow> dsess option" where
  "session_main os s = do { s1 \<leftarrow> session_loop os s; session_destroy s1 }"

text \<open>
  \<^verbatim>\<open>session_create\<close>: the zeroed structure (nothing, if \<^verbatim>\<open>calloc\<close> fails) with the descriptor and
  the peer; the process and the answers to come are those of \<open>env\<close>.
\<close>

definition session_create :: "bool \<Rightarrow> int \<Rightarrow> string \<times> nat \<Rightarrow> dsess \<Rightarrow> dsess option" where
  "session_create calloc_ok fd peer env =
     (if \<not> calloc_ok then None
      else Some (jobs_init_d (env\<lparr>cfd := fd, peer_ip := fst peer, peer_port := snd peer, inbuf := [], quit := False\<rparr>)))"

end
