(* ===== verification/Yashd_Inv.thy ===== *)
theory Yashd_Inv
  imports Yashd_Session
begin

text \<open>
  The invariant of a session of the daemon, kept by every operation of \<^verbatim>\<open>Yashd_Session\<close>: the
  live count of a job is the number of its processes, no process of the session is without a job or a
  \<^verbatim>\<open>SIGKILL\<close>, and the descriptors of the daemon are those it had before the session plus one
  pipe end per job that still has an open stdin.
\<close>

section \<open>The kernel's side\<close>

definition ustep :: "event \<Rightarrow> (pid \<rightharpoonup> pid) \<Rightarrow> (pid \<rightharpoonup> pid)" where
  "ustep e U =
     (case e of
        EKill q sg \<Rightarrow> (if sg = SIGKILL then (\<lambda>p. if U p = Some (- q) then None else U p) else U)
      | _ \<Rightarrow> kstep e U)"

text \<open>The children that are alive and were never sent a \<^verbatim>\<open>SIGKILL\<close>, each with its group.\<close>

definition unkilled :: "event list \<Rightarrow> (pid \<rightharpoonup> pid)" where
  "unkilled es = fold ustep es Map.empty"

text \<open>
  What the kernel promises: \<^verbatim>\<open>fork\<close> returns a positive pid that is neither the pid nor the group of
  a child that has not been waited for (pids may be used again after that), a report is about a child
  of the group asked for, and \<^verbatim>\<open>ECHILD\<close> means that the group has no child left.
\<close>

fun fork_pids :: "event list \<Rightarrow> pid list" where
  "fork_pids [] = []"
| "fork_pids (EFork p c e # es) = p # fork_pids es"
| "fork_pids (_ # es) = fork_pids es"

fun d_allowed :: "event list \<Rightarrow> event \<Rightarrow> bool" where
  "d_allowed past (EFork p c e) \<longleftrightarrow>
     p > 0 \<and> kids past p = None \<and> (\<forall>q \<in> set (fork_pids past). kids past q \<noteq> Some p)"
| "d_allowed past (EWait (Some g) (WChange p st)) \<longleftrightarrow> kids past p = Some g"
| "d_allowed past (EWait (Some g) (WError ECHILD)) \<longleftrightarrow> (\<forall>q \<in> set (fork_pids past). kids past q \<noteq> Some g)"
| "d_allowed past e \<longleftrightarrow> True"

fun d_honest_from :: "event list \<Rightarrow> event list \<Rightarrow> bool" where
  "d_honest_from past [] \<longleftrightarrow> True"
| "d_honest_from past (e # es) \<longleftrightarrow> d_allowed past e \<and> d_honest_from (past @ [e]) es"

definition d_honest :: "event list \<Rightarrow> bool" where
  "d_honest es \<longleftrightarrow> d_honest_from [] es"

lemma fork_pids_forked: "set (fork_pids es) = forked es"
  by (induction es rule: fork_pids.induct) auto

lemma no_member_iff: "(\<forall>q \<in> set (fork_pids es). kids es q \<noteq> Some g) \<longleftrightarrow> (\<forall>q. kids es q \<noteq> Some g)"
  using kids_forked [of es] by (auto simp: fork_pids_forked)

lemma d_allowed_fork: "d_allowed past (EFork p c e) \<longleftrightarrow> p > 0 \<and> p \<notin> dom (kids past) \<and> p \<notin> ran (kids past)"
  unfolding d_allowed.simps no_member_iff by (auto simp: ran_def)

lemma d_allowed_none: "d_allowed past (EWait (Some g) (WError ECHILD)) \<longleftrightarrow> (\<forall>q. kids past q \<noteq> Some g)"
  unfolding d_allowed.simps no_member_iff ..

declare d_allowed.simps(1,3) [simp del] d_allowed_fork [simp] d_allowed_none [simp]

lemma d_honest_from_append [simp]:
  "d_honest_from past (xs @ ys) \<longleftrightarrow> d_honest_from past xs \<and> d_honest_from (past @ xs) ys"
  by (induction xs arbitrary: past) auto

lemma d_honest_append [simp]: "d_honest (xs @ ys) \<longleftrightarrow> d_honest xs \<and> d_honest_from xs ys"
  by (simp add: d_honest_def)

lemma unkilled_append: "unkilled (xs @ ys) = fold ustep ys (unkilled xs)"
  by (simp add: unkilled_def)

lemma unkilled_snoc [simp]: "unkilled (xs @ [e]) = ustep e (unkilled xs)"
  by (simp add: unkilled_append)

lemma kids_Nil [simp]: "kids [] = Map.empty"
  by (simp add: kids_def)

lemma unkilled_Nil [simp]: "unkilled [] = Map.empty"
  by (simp add: unkilled_def)

lemma finite_dom_upd: "finite (dom m) \<Longrightarrow> finite (dom (m(p := x)))"
  by (cases x) (simp_all add: dom_fun_upd)

lemma finite_kids [simp]: "finite (dom (kids es))"
proof (induction es rule: rev_induct)
  case (snoc e es)
  then show ?case
    by (cases "(e, kids es)" rule: kstep.cases) (simp_all add: finite_dom_upd del: fun_upd_apply)
qed simp

definition members :: "event list \<Rightarrow> pid \<Rightarrow> pid set" where
  "members es g = {p. kids es p = Some g}"

lemma finite_members [simp]: "finite (members es g)"
  by (rule finite_subset [OF _ finite_kids [of es]]) (auto simp: members_def)

text \<open>Events that change neither who is alive nor who was killed.\<close>

fun signal_only :: "event \<Rightarrow> bool" where
  "signal_only (EKill q sg) = (sg \<noteq> SIGKILL)"
| "signal_only e = False"

lemma kids_signals: "\<forall>e \<in> set es. signal_only e \<Longrightarrow> kids (past @ es) = kids past"
  by (induction es arbitrary: past rule: rev_induct) (auto simp: append_assoc [symmetric] simp del: append_assoc elim: signal_only.elims)

lemma unkilled_signals: "\<forall>e \<in> set es. signal_only e \<Longrightarrow> unkilled (past @ es) = unkilled past"
  by (induction es arbitrary: past rule: rev_induct)
    (auto simp: append_assoc [symmetric] ustep_def simp del: append_assoc elim: signal_only.elims)

section \<open>Bookkeeping of processes\<close>

text \<open>The groups and live counts of a table against the kernel's view.\<close>

definition acct :: "djobs \<Rightarrow> event list \<Rightarrow> bool" where
  "acct t es \<longleftrightarrow> distinct (map (pgid \<circ> snd) t)
     \<and> (\<forall>(a, j) \<in> set t. 0 < pgid j \<and> nlive j = int (card (members es (pgid j))))
     \<and> (\<forall>p g. unkilled es p = Some g \<longrightarrow> (\<exists>(a, j) \<in> set t. pgid j = g))"

text \<open>One entry of the table.\<close>

lemma table_split:
  assumes "distinct (map fst t)" and "a \<in> fst ` set t"
  obtains t1 j t2 where "t = t1 @ (a, j) # t2" "a \<notin> fst ` set t1" "a \<notin> fst ` set t2"
proof -
  from assms(2) obtain j where "(a, j) \<in> set t" by auto
  then obtain t1 t2 where "t = t1 @ (a, j) # t2" by (metis split_list)
  with assms(1) that show ?thesis by auto
qed

lemma upd_job_off: "a \<notin> fst ` set t \<Longrightarrow> upd_job a f t = t"
  by (induction t) (auto simp: upd_job_def)

lemma upd_job_at [simp]:
  assumes "a \<notin> fst ` set t1" and "a \<notin> fst ` set t2"
  shows "upd_job a f (t1 @ (a, j) # t2) = t1 @ (a, f j) # t2"
  using upd_job_off [OF assms(1), of f] upd_job_off [OF assms(2), of f] by (simp add: upd_job_def)

lemma map_of_at [simp]: "a \<notin> fst ` set t1 \<Longrightarrow> map_of (t1 @ (a, j) # t2) a = Some j"
  by (induction t1) auto

lemma job_at_at [simp]: "a \<notin> fst ` set t1 \<Longrightarrow> job_at a (t1 @ (a, j) # t2) = j"
  using map_of_at [of a t1 j t2] unfolding job_at_def by (metis option.sel)

lemma jobs_remove_at [simp]: "a \<notin> fst ` set t1 \<Longrightarrow> jobs_remove a (t1 @ (a, j) # t2) = t1 @ t2"
  by (induction t1) auto

lemma acct_upd:
  assumes "acct (t1 @ (a, j) # t2) es" and "pgid j' = pgid j"
    and "nlive j' = int (card (members es' (pgid j)))"
    and "\<And>g. g \<noteq> pgid j \<Longrightarrow> members es' g = members es g"
    and "\<And>p g. unkilled es' p = Some g \<Longrightarrow> unkilled es p = Some g"
  shows "acct (t1 @ (a, j') # t2) es'"
proof -
  have d: "distinct (map (pgid \<circ> snd) (t1 @ (a, j) # t2))" using assms(1) by (simp add: acct_def)
  have other: "pgid k \<noteq> pgid j" if "(b, k) \<in> set t1 \<union> set t2" for b k
    using d that by (force simp: image_iff)
  have "0 < pgid k \<and> nlive k = int (card (members es' (pgid k)))" if "(b, k) \<in> set (t1 @ (a, j') # t2)" for b k
    using that assms(1-4) other [of b k] by (fastforce simp: acct_def)
  moreover have "\<exists>(b, k) \<in> set (t1 @ (a, j') # t2). pgid k = g" if "unkilled es' p = Some g" for p g
    using assms(1,2) assms(5) [OF that] unfolding acct_def by fastforce
  moreover have "distinct (map (pgid \<circ> snd) (t1 @ (a, j') # t2))" using d assms(2) by simp
  ultimately show ?thesis unfolding acct_def by blast
qed

lemma acct_remove:
  assumes "acct (t1 @ (a, j) # t2) es" and "nlive j = 0" and "\<And>p g. unkilled es p = Some g \<Longrightarrow> kids es p = Some g"
  shows "acct (t1 @ t2) es"
proof -
  have "members es (pgid j) = {}" using assms(1,2) by (simp add: acct_def)
  then have "unkilled es p \<noteq> Some (pgid j)" for p using assms(3) [of p "pgid j"] by (auto simp: members_def)
  with assms(1) show ?thesis unfolding acct_def by (simp add: ball_Un bex_Un) metis
qed

lemma unkilled_kids: "unkilled es p = Some g \<Longrightarrow> kids es p = Some g"
proof (induction es arbitrary: p g rule: rev_induct)
  case (snoc e es)
  then show ?case
    by (cases "(e, kids es)" rule: kstep.cases) (auto simp: ustep_def split: if_splits)
qed simp

section \<open>Bookkeeping of descriptors\<close>

definition in_fds :: "djobs \<Rightarrow> int list" where
  "in_fds t = filter (\<lambda>n. 0 \<le> n) (map (infd \<circ> snd) t)"

lemma in_fds_simps [simp]:
  "in_fds [] = []" "in_fds (t1 @ t2) = in_fds t1 @ in_fds t2"
  "in_fds ((a, j) # t) = (if 0 \<le> infd j then infd j # in_fds t else in_fds t)"
  by (simp_all add: in_fds_def)

text \<open>\<open>base\<close>: the descriptors apart from the pipe ends kept for the jobs.\<close>

definition fds_ok :: "fdtab \<Rightarrow> djobs \<Rightarrow> fdtab \<Rightarrow> bool" where
  "fds_ok base t T \<longleftrightarrow> distinct (in_fds t)
     \<and> (\<forall>n \<in> set (in_fds t). base n = None \<and> (\<exists>k. T n = Some (InWrite k)))
     \<and> (\<forall>n. n \<notin> set (in_fds t) \<longrightarrow> T n = base n)"

lemma fds_ok_cong: "in_fds t' = in_fds t \<Longrightarrow> fds_ok base t' T = fds_ok base t T"
  by (simp add: fds_ok_def)

lemma fds_ok_upd:
  "fds_ok base (t1 @ (a, j) # t2) T \<Longrightarrow> infd j' = infd j \<Longrightarrow> fds_ok base (t1 @ (a, j') # t2) T"
  using fds_ok_cong [of "t1 @ (a, j') # t2" "t1 @ (a, j) # t2"] by simp

lemma fds_ok_close:
  "fds_ok base (t1 @ (a, j) # t2) T \<Longrightarrow> 0 \<le> infd j \<Longrightarrow> infd j' < 0
    \<Longrightarrow> fds_ok base (t1 @ (a, j') # t2) (c_close (infd j) T)"
  by (auto simp: fds_ok_def c_close_def)

lemma fds_ok_remove:
  "fds_ok base (t1 @ (a, j) # t2) T
    \<Longrightarrow> fds_ok base (t1 @ t2) (if 0 \<le> infd j then c_close (infd j) T else T)"
  by (auto simp: fds_ok_def c_close_def)

section \<open>The session invariant\<close>

definition dinv :: "fdtab \<Rightarrow> dsess \<Rightarrow> bool" where
  "dinv base s \<longleftrightarrow> acct (job_list s) (tr s) \<and> fds_ok base (job_list s) (fdt (self s))
     \<and> tab_inv (job_list s) \<and> length (inbuf s) \<le> YASH_BUF_SIZE"

text \<open>
  The invariant with the foreground job \<open>F\<close>, the addresses \<open>L\<close> of the table and a condition \<open>Phi\<close> on the
  live count and the state of each job.
\<close>

definition sinv :: "fdtab \<Rightarrow> addr list \<Rightarrow> addr option \<Rightarrow> (addr \<Rightarrow> int \<Rightarrow> job_state \<Rightarrow> bool) \<Rightarrow> dsess \<Rightarrow> bool" where
  "sinv base L F Phi s \<longleftrightarrow> dinv base s \<and> map fst (job_list s) = L \<and> fg_job s = F \<and> set_option F \<subseteq> set L
     \<and> (\<forall>(a, j) \<in> set (job_list s). Phi a (nlive j) (state j))"

definition grows :: "dsess \<Rightarrow> dsess \<Rightarrow> bool" where
  "grows s s' \<longleftrightarrow> cfd s' = cfd s \<and> (\<exists>es. tr s' = tr s @ es)"

text \<open>A step from \<open>s\<close> to \<open>s'\<close> that leads from \<open>P\<close> to \<open>Q\<close> under an honest kernel.\<close>

definition leads :: "(dsess \<Rightarrow> bool) \<Rightarrow> dsess \<Rightarrow> (dsess \<Rightarrow> bool) \<Rightarrow> dsess \<Rightarrow> bool" where
  "leads P s Q s' \<longleftrightarrow> grows s s' \<and> (P s \<longrightarrow> d_honest (tr s') \<longrightarrow> Q s')"

lemma leads_trans [trans]: "leads P s Q s' \<Longrightarrow> leads Q s' R s'' \<Longrightarrow> leads P s R s''"
  by (auto simp: leads_def grows_def)

lemma leads_refl [simp]: "leads P s P s"
  by (simp add: leads_def grows_def)

lemma leads_mono: "leads P s Q s' \<Longrightarrow> (\<And>x. P' x \<Longrightarrow> P x) \<Longrightarrow> (\<And>x. Q x \<Longrightarrow> Q' x) \<Longrightarrow> leads P' s Q' s'"
  by (auto simp: leads_def)

lemma leads_same:
  assumes "job_list s' = job_list s" and "fg_job s' = fg_job s" and "fdt (self s') = fdt (self s)" and "tr s' = tr s"
    and "cfd s' = cfd s" and "length (inbuf s) \<le> YASH_BUF_SIZE \<Longrightarrow> length (inbuf s') \<le> YASH_BUF_SIZE"
  shows "leads (sinv base L F Phi) s (sinv base L F Phi) s'"
  using assms by (auto simp: leads_def grows_def sinv_def dinv_def)

lemma leads_output: "output_only s s' \<Longrightarrow> leads (sinv base L F Phi) s (sinv base L F Phi) s'"
  unfolding output_only_def by (elim exE, rule leads_same) simp_all

lemma leads_emit:
  "\<forall>e \<in> set es. signal_only e \<Longrightarrow> leads (sinv base L F Phi) s (sinv base L F Phi) (d_emit es s)"
  by (auto simp: leads_def grows_def sinv_def dinv_def d_emit_def acct_def members_def kids_signals unkilled_signals)

lemma tab_inv_upd:
  assumes "tab_inv (t1 @ (a, j) # t2)" and "jid j' = jid j" and "job_owned a j \<Longrightarrow> job_owned a j'"
  shows "tab_inv (t1 @ (a, j') # t2)"
  using assms by (auto simp: tab_inv_def sorted_wrt_append)

text \<open>An update of one job that leaves its group, count and stdin alone.\<close>

lemma sinv_addrs: "sinv base L F Phi s \<Longrightarrow> fst ` set (job_list s) = set L"
  unfolding sinv_def by (metis set_map)

lemma sinv_split:
  assumes "sinv base L F Phi s" and "a \<in> set L"
  obtains t1 j t2 where "job_list s = t1 @ (a, j) # t2" "a \<notin> fst ` set t1" "a \<notin> fst ` set t2"
proof -
  have "distinct (map fst (job_list s))" using assms(1) unfolding sinv_def dinv_def tab_inv_def by blast
  moreover have "a \<in> fst ` set (job_list s)" using assms(2) sinv_addrs [OF assms(1)] by simp
  ultimately show ?thesis by (rule table_split) (rule that)
qed

lemma sinv_upd:
  assumes s: "sinv base L F Phi s" and t: "job_list s = t1 @ (a, j) # t2" "a \<notin> fst ` set t1" "a \<notin> fst ` set t2"
    and s': "job_list s' = t1 @ (a, j') # t2" "fg_job s' = fg_job s" "inbuf s' = inbuf s"
    and j': "pgid j' = pgid j" "jid j' = jid j" "job_owned a j \<Longrightarrow> job_owned a j'"
    and K: "nlive j' = int (card (members (tr s') (pgid j)))"
      "\<And>g. g \<noteq> pgid j \<Longrightarrow> members (tr s') g = members (tr s) g"
      "\<And>p g. unkilled (tr s') p = Some g \<Longrightarrow> unkilled (tr s) p = Some g"
    and T: "fds_ok base (t1 @ (a, j) # t2) (fdt (self s)) \<Longrightarrow> fds_ok base (t1 @ (a, j') # t2) (fdt (self s'))"
    and Psi: "\<And>b n st. Phi b n st \<Longrightarrow> b \<noteq> a \<Longrightarrow> Psi b n st"
      "Phi a (nlive j) (state j) \<Longrightarrow> Psi a (nlive j') (state j')"
  shows "sinv base L F Psi s'"
proof -
  have old: "acct (t1 @ (a, j) # t2) (tr s)" "fds_ok base (t1 @ (a, j) # t2) (fdt (self s))"
    "tab_inv (t1 @ (a, j) # t2)" "\<forall>(b, k) \<in> set (t1 @ (a, j) # t2). Phi b (nlive k) (state k)"
    using s unfolding sinv_def dinv_def t by blast+
  have "acct (t1 @ (a, j') # t2) (tr s')" using acct_upd [OF old(1) j'(1) K] .
  moreover have "tab_inv (t1 @ (a, j') # t2)" using tab_inv_upd [OF old(3) j'(2,3)] .
  moreover have "Psi b (nlive k) (state k)" if "(b, k) \<in> set (t1 @ (a, j') # t2)" for b k
  proof (cases "(b, k) = (a, j')")
    case False
    with that have "(b, k) \<in> set t1 \<union> set t2" by auto
    with t have "b \<noteq> a" by force
    moreover from \<open>(b, k) \<in> set t1 \<union> set t2\<close> old(4) have "Phi b (nlive k) (state k)" by auto
    ultimately show ?thesis by (rule Psi(1) [rotated])
  qed (use old(4) Psi(2) in auto)
  ultimately show ?thesis
    using s T [OF old(2)] unfolding sinv_def dinv_def s' t by auto
qed

lemma members_same: "sinv base L F Phi s \<Longrightarrow> job_list s = t1 @ (a, j) # t2
    \<Longrightarrow> nlive j = int (card (members (tr s) (pgid j)))"
  by (simp add: sinv_def dinv_def acct_def)

lemma leads_job:
  assumes "a \<in> set L"
    and f: "\<And>j :: djob. pgid (f j) = pgid j \<and> nlive (f j) = nlive j \<and> infd (f j) = infd j \<and> jid (f j) = jid j
           \<and> cmds (f j) = cmds j \<and> ncmds (f j) = ncmds j"
    and Psi: "\<And>b n st. Phi b n st \<Longrightarrow> b \<noteq> a \<Longrightarrow> Psi b n st"
      "\<And>j :: djob. Phi a (nlive j) (state j) \<Longrightarrow> Psi a (nlive j) (state (f j))"
  shows "leads (sinv base L F Phi) s (sinv base L F Psi) (d_job a f s)"
proof -
  have "sinv base L F Psi (d_job a f s)" if s: "sinv base L F Phi s"
  proof -
    obtain t1 j t2 where t: "job_list s = t1 @ (a, j) # t2" "a \<notin> fst ` set t1" "a \<notin> fst ` set t2"
      using sinv_split [OF s assms(1)] by blast
    show ?thesis
      by (rule sinv_upd [OF s t, where j' = "f j"])
        (use f [of j] Psi(1) Psi(2) [of j] t fds_ok_upd members_same [OF s t(1)] in \<open>auto simp: d_job_def job_owned_def\<close>)
  qed
  then show ?thesis by (simp add: leads_def grows_def d_job_def)
qed

section \<open>Messages for a running command\<close>

lemma leads_close_infd:
  assumes "a \<in> set L"
  shows "0 \<le> infd (the_job a s) \<Longrightarrow> leads (sinv base L F Phi) s (sinv base L F Phi) (close_infd a s)"
proof -
  assume open_end: "0 \<le> infd (the_job a s)"
  have "sinv base L F Phi (close_infd a s)" if s: "sinv base L F Phi s"
  proof -
    obtain t1 j t2 where t: "job_list s = t1 @ (a, j) # t2" "a \<notin> fst ` set t1" "a \<notin> fst ` set t2"
      using sinv_split [OF s assms(1)] by blast
    then have j: "the_job a s = j" by simp
    show ?thesis
      by (rule sinv_upd [OF s t, where j' = "j\<lparr>infd := -1\<rparr>"])
        (use t open_end fds_ok_close members_same [OF s t(1)] j in \<open>auto simp: close_infd_def d_fdt_def d_job_def job_owned_def\<close>)
  qed
  then show ?thesis by (simp add: leads_def grows_def close_infd_def d_job_def d_fdt_def)
qed

lemma leads_handle_ctl:
  assumes "set_option F \<subseteq> set L" and "fg_job s = F"
  shows "leads (sinv base L F Phi) s (sinv base L F Phi) (handle_ctl arg s)"
  using assms unfolding handle_ctl_def
  by (auto intro!: leads_emit leads_close_infd leads_same split: list.split option.split)

text \<open>What of a session the jobs depend on.\<close>

definition same_core :: "dsess \<Rightarrow> dsess \<Rightarrow> bool" where
  "same_core s s' \<longleftrightarrow> job_list s' = job_list s \<and> fg_job s' = fg_job s \<and> self s' = self s \<and> tr s' = tr s
     \<and> cfd s' = cfd s \<and> inbuf s' = inbuf s"

lemma leads_core: "same_core s s' \<Longrightarrow> leads (sinv base L F Phi) s (sinv base L F Phi) s'"
  unfolding same_core_def by (rule leads_same) auto

lemma pipe_write_frame: "pipe_write fd bs s = Some (r, s') \<Longrightarrow> same_core s s'"
  unfolding pipe_write_def same_core_def by (auto split: list.splits wr.splits)

lemma leads_handle_text:
  assumes "set_option F \<subseteq> set L" and "fg_job s = F" and "handle_text line s = Some s'"
  shows "leads (sinv base L F Phi) s (sinv base L F Phi) s'"
proof (cases F)
  case (Some a)
  show ?thesis
  proof (cases "infd (the_job a s) < 0")
    case False
    with assms Some obtain ok1 s1 ok2 s2 where w: "pipe_write (infd (the_job a s)) line s = Some (ok1, s1)"
      "(if ok1 then pipe_write (infd (the_job a s)) [LF] s1 else Some (False, s1)) = Some (ok2, s2)"
      "s' = (if ok2 then s2 else close_infd a s2)"
      unfolding handle_text_def by (auto split: Option.bind_splits)
    have "same_core s s1" using w(1) by (rule pipe_write_frame)
    moreover have "same_core s1 s2" using w(2) pipe_write_frame
      by (cases ok1) (auto simp: same_core_def)
    ultimately have c: "same_core s s2" by (simp add: same_core_def)
    then have "leads (sinv base L F Phi) s2 (sinv base L F Phi) s'"
      using w(3) False Some assms(1) by (auto simp: same_core_def intro!: leads_close_infd)
    with leads_core [OF c] show ?thesis by (rule leads_trans)
  qed (use assms Some in \<open>simp add: handle_text_def\<close>)
qed (use assms in \<open>simp add: handle_text_def\<close>)

lemma fg_close_infd [simp]: "fg_job (close_infd a s) = fg_job s"
  by (simp add: close_infd_def d_job_def d_fdt_def)

lemma fg_handle_ctl [simp]: "fg_job (handle_ctl arg s) = fg_job s"
  by (simp add: handle_ctl_def d_emit_def split: list.split option.split)

lemma fg_handle_text: "handle_text line s = Some s' \<Longrightarrow> fg_job s' = fg_job s"
  unfolding handle_text_def
  by (auto split: option.splits Option.bind_splits if_splits dest!: pipe_write_frame simp: same_core_def)

lemma dispatch_running_leads:
  assumes "dispatch_running line s = Some s'" and "set_option F \<subseteq> set L" and "fg_job s = F"
  shows "leads (sinv base L F Phi) s (sinv base L F Phi) s' \<and> fg_job s' = F"
  using assms leads_handle_ctl [OF assms(2,3)] leads_handle_text [OF assms(2,3)] fg_handle_text
  by (auto simp: dispatch_running_def split: if_splits)

lemma buf_take_line_leads:
  assumes "buf_take_line n s = Some (line, s')"
  shows "leads (sinv base L F Phi) s (sinv base L F Phi) s' \<and> fg_job s' = fg_job s"
  using buf_take_line_input [OF assms] by (auto intro!: leads_same)

lemma buf_fill_leads:
  assumes "buf_fill s = Some (r, s')"
  shows "leads (sinv base L F Phi) s (sinv base L F Phi) s' \<and> fg_job s' = fg_job s"
proof (cases "length (inbuf s) = YASH_BUF_SIZE")
  case True
  with assms show ?thesis by (auto simp: buf_fill_def intro!: leads_same)
next
  case False
  with assms obtain b rs ei where "c_read (YASH_BUF_SIZE - length (inbuf s)) (rds s) (eintr s) = Some (b, rs, ei)"
    "s' = (case b of None \<Rightarrow> s\<lparr>eintr := ei, rds := rs\<rparr> | Some bs \<Rightarrow> s\<lparr>inbuf := inbuf s @ bs, eintr := ei, rds := rs\<rparr>)"
    by (auto simp: buf_fill_def split: option.splits)
  moreover from this(1) have "length bs \<le> YASH_BUF_SIZE - length (inbuf s)" if "b = Some bs" for bs
    using that by (cases "rds s" rule: list.exhaust; cases "hd (rds s)") (auto split: if_splits)
  ultimately show ?thesis by (auto intro!: leads_same split: option.split)
qed

lemma drain_leads:
  assumes "drain s = Some s'" and "set_option F \<subseteq> set L" and "fg_job s = F"
  shows "leads (sinv base L F Phi) s (sinv base L F Phi) s' \<and> fg_job s' = F"
proof -
  have "fg_job s = F \<longrightarrow> leads (sinv base L F Phi) s (sinv base L F Phi) s' \<and> fg_job s' = F"
  proof (rule drain.raw_induct [OF _ assms(1)], intro impI)
    fix rec and s s' :: dsess
    assume IH: "\<And>x y. rec x = Some y \<Longrightarrow> fg_job x = F \<longrightarrow> leads (sinv base L F Phi) x (sinv base L F Phi) y \<and> fg_job y = F"
      and body: "(case buf_take_line YASH_BUF_SIZE s of None \<Rightarrow> Some s
          | Some (line, s1) \<Rightarrow> dispatch_running line s1 \<bind> rec) = Some s'" and fg: "fg_job s = F"
    show "leads (sinv base L F Phi) s (sinv base L F Phi) s' \<and> fg_job s' = F"
    proof (cases "buf_take_line YASH_BUF_SIZE s")
      case (Some q)
      then obtain line s1 where q: "buf_take_line YASH_BUF_SIZE s = Some (line, s1)" by (cases q) auto
      with body obtain s2 where d: "dispatch_running line s1 = Some s2" "rec s2 = Some s'"
        by (auto split: Option.bind_splits)
      note t = buf_take_line_leads [OF q, of base L F Phi]
      note u = dispatch_running_leads [OF d(1) assms(2), of base Phi]
      from t u IH [OF d(2)] fg show ?thesis by (metis leads_trans)
    qed (use body fg in simp)
  qed
  with assms(3) show ?thesis by simp
qed

end
