(* ===== verification/Yashd_Safe.thy ===== *)
theory Yashd_Safe
  imports Yashd_Inv
begin

text \<open>
  Every operation of a session keeps the session invariant: waiting, reaping, launching, the
  builtins, a message, the main loop, and the end of the session.
\<close>

section \<open>Polling a job\<close>

lemma poll_job_step [simp]:
  "\<not> nlive j > 0 \<Longrightarrow> poll_job ws b ei j = Some (False, ws, ei, j)"
  "nlive j > 0 \<Longrightarrow> poll_job [] b ei j = (if b then None else Some (False, [], ei, j))"
  "nlive j > 0 \<Longrightarrow> poll_job (WNothing # ws) b ei j = (if b then poll_job ws b ei j else Some (False, ws, ei, j))"
  "nlive j > 0 \<Longrightarrow> poll_job (WError EINTR # ws) b ei j = poll_job ws b True j"
  "nlive j > 0 \<Longrightarrow> poll_job (WError ECHILD # ws) b ei j = Some (False, ws, False, j\<lparr>nlive := 0\<rparr>)"
  "nlive j > 0 \<Longrightarrow> poll_job (WChange p WStopped # ws) b ei j = Some (True, ws, ei, j\<lparr>state := JOB_STOPPED\<rparr>)"
  "nlive j > 0 \<Longrightarrow> poll_job (WChange p WContinued # ws) b ei j = poll_job ws b ei (j\<lparr>state := JOB_RUNNING\<rparr>)"
  "nlive j > 0 \<Longrightarrow> poll_job (WChange p WExited # ws) b ei j =
     poll_job ws b ei ((clear_pid p j)\<lparr>nlive := nlive (clear_pid p j) - 1\<rparr>)"
  by (subst poll_job.simps, simp)+

lemma clear_pid_frame [simp]:
  "nlive (clear_pid p j) = nlive j" "pgid (clear_pid p j) = pgid j" "jid (clear_pid p j) = jid j"
  "infd (clear_pid p j) = infd j" "state (clear_pid p j) = state j" "background (clear_pid p j) = background j"
  "cmdline (clear_pid p j) = cmdline j"
  by (simp_all add: clear_pid_def)

lemma clear_pid_owned: "job_owned a j \<Longrightarrow> job_owned a (clear_pid p j)"
proof -
  assume o: "job_owned a j"
  let ?f = "\<lambda>c. if cmd_pid c = p then c\<lparr>cmd_pid := 0\<rparr> else c"
  have slot: "get_slot sl (?f c) = get_slot sl c" for sl c by (cases sl) auto
  have "cmd_owned a (?f c) = cmd_owned a c" for c
    unfolding cmd_owned_def slot by simp
  moreover have "set (take (ncmds j) (cmds (clear_pid p j))) = ?f ` set (take (ncmds j) (cmds j))"
    by (cases "ncmds j \<le> length (cmds j)") (simp_all add: clear_pid_def)
  moreover have "ncmds (clear_pid p j) = ncmds j" by (simp add: clear_pid_def)
  ultimately show ?thesis using o unfolding job_owned_def by (simp only: ball_simps)
qed

text \<open>The static part of a job, and the part of it the bookkeeping depends on.\<close>

definition same_job :: "djob \<Rightarrow> djob \<Rightarrow> bool" where
  "same_job j j' \<longleftrightarrow> pgid j' = pgid j \<and> jid j' = jid j \<and> infd j' = infd j \<and> background j' = background j
     \<and> cmdline j' = cmdline j \<and> (\<forall>a. job_owned a j \<longrightarrow> job_owned a j')"

lemma same_job_simps [simp]:
  "same_job j j" "same_job j (j\<lparr>nlive := n\<rparr>)" "same_job j (j\<lparr>state := x\<rparr>)"
  "same_job j ((clear_pid p j)\<lparr>nlive := n\<rparr>)"
proof -
  show "same_job j ((clear_pid p j)\<lparr>nlive := n\<rparr>)"
    using clear_pid_owned [of _ j p] by (auto simp: same_job_def job_owned_def)
qed (simp_all add: same_job_def job_owned_def)

lemma same_job_trans: "same_job j k \<Longrightarrow> same_job k l \<Longrightarrow> same_job j l"
  by (simp add: same_job_def)

definition d_waited :: "event list \<Rightarrow> event list \<Rightarrow> djob \<Rightarrow> djob \<Rightarrow> bool" where
  "d_waited es es' j j' \<longleftrightarrow> nlive j' = int (card (members es' (pgid j)))
     \<and> (\<forall>g. g \<noteq> pgid j \<longrightarrow> members es' g = members es g)"

lemma d_waited_trans:
  "d_waited es es1 j k \<Longrightarrow> d_waited es1 es2 k l \<Longrightarrow> pgid k = pgid j \<Longrightarrow> d_waited es es2 j l"
  by (simp add: d_waited_def)

lemma unkilled_waits: "unkilled (es @ map (EWait g) us) p = Some q \<Longrightarrow> unkilled es p = Some q"
proof (induction us rule: rev_induct)
  case (snoc u us)
  then have "unkilled (es @ map (EWait g) us) p = Some q"
    by (cases "(EWait g u, kids es)" rule: kstep.cases)
      (auto simp: append_assoc [symmetric] ustep_def simp del: append_assoc split: if_splits)
  then show ?case by (rule snoc.IH)
qed simp

lemma d_waited_exit:
  assumes "kids es p = Some (pgid j)" and "nlive j = int (card (members es (pgid j)))"
  shows "d_waited es (es @ [EWait (Some (pgid j)) (WChange p WExited)]) j ((clear_pid p j)\<lparr>nlive := nlive j - 1\<rparr>)"
proof -
  let ?es = "es @ [EWait (Some (pgid j)) (WChange p WExited)]"
  have "members ?es (pgid j) = members es (pgid j) - {p}" by (auto simp: members_def)
  moreover have "p \<in> members es (pgid j)" using assms(1) by (simp add: members_def)
  moreover from this have "card (members es (pgid j)) > 0" by (simp add: card_gt_0_iff) blast
  moreover have "members ?es g = members es g" if "g \<noteq> pgid j" for g
    using that assms(1) by (auto simp: members_def)
  ultimately show ?thesis using assms(2) by (simp add: d_waited_def card_Diff_singleton)
qed

text \<open>What \<^verbatim>\<open>poll_job\<close> has done when it returns.\<close>

definition polled :: "event list \<Rightarrow> bool \<Rightarrow> djob \<Rightarrow> wres list \<Rightarrow> bool \<Rightarrow> djob \<Rightarrow> bool" where
  "polled es block j us stopped j' \<longleftrightarrow> same_job j j'
     \<and> (nlive j = int (card (members es (pgid j))) \<longrightarrow> d_honest_from es (map (EWait (Some (pgid j))) us)
          \<longrightarrow> d_waited es (es @ map (EWait (Some (pgid j))) us) j j')
     \<and> (stopped \<longrightarrow> nlive j' > 0 \<and> state j' = JOB_STOPPED) \<and> (\<not> stopped \<longrightarrow> block \<longrightarrow> \<not> nlive j' > 0)
     \<and> (state j \<noteq> JOB_DONE \<longrightarrow> state j' \<noteq> JOB_DONE)"

lemma polled_skip:
  assumes "polled (es @ [EWait (Some (pgid j)) u]) block k us stopped j'" and "same_job j k"
    and "d_allowed es (EWait (Some (pgid j)) u) \<Longrightarrow> nlive j = int (card (members es (pgid j)))
      \<Longrightarrow> d_waited es (es @ [EWait (Some (pgid j)) u]) j k"
    and "state j \<noteq> JOB_DONE \<Longrightarrow> state k \<noteq> JOB_DONE"
  shows "polled es block j (u # us) stopped j'"
proof -
  let ?es = "es @ [EWait (Some (pgid j)) u]"
  have g: "pgid k = pgid j" using assms(2) by (simp add: same_job_def)
  have "d_waited es (es @ map (EWait (Some (pgid j))) (u # us)) j j'"
    if h: "d_honest_from es (map (EWait (Some (pgid j))) (u # us))" and n: "nlive j = int (card (members es (pgid j)))"
  proof -
    have w: "d_waited es ?es j k" using assms(3) h n by simp
    then have "nlive k = int (card (members ?es (pgid k)))" by (simp add: d_waited_def g)
    with assms(1) h have "d_waited ?es (?es @ map (EWait (Some (pgid j))) us) k j'" by (simp add: polled_def g)
    with d_waited_trans [OF w _ g] show ?thesis by simp
  qed
  then show ?thesis
    using assms(1,2,4) same_job_trans unfolding polled_def by blast
qed

lemma wres_cases:
  obtains "w = WNothing" | "w = WError EINTR" | "w = WError ECHILD" | p where "w = WChange p WStopped"
  | p where "w = WChange p WContinued" | p where "w = WChange p WExited"
proof (cases w)
  case (WChange p st)
  with that show ?thesis by (cases st) auto
next
  case (WError e)
  with that show ?thesis by (cases e) auto
qed (use that in auto)

lemma poll_job_polled:
  assumes "poll_job ws block ei j = Some (stopped, ws', ei', j')"
  shows "\<exists>us. ws = us @ ws' \<and> polled es block j us stopped j'"
  using assms
proof (induction ws arbitrary: ei j es)
  case Nil
  then show ?case by (cases "nlive j > 0") (auto simp: polled_def d_waited_def split: if_splits)
next
  case (Cons w ws)
  let ?es = "es @ [EWait (Some (pgid j)) w]"
  have now: ?case if "ws = ws'" "polled es block j [w] stopped j'"
    using that by (intro exI [of _ "[w]"]) simp
  have skip: ?case
    if k: "poll_job ws block e k = Some (stopped, ws', ei', j')" "same_job j k"
      "d_allowed es (EWait (Some (pgid j)) w) \<Longrightarrow> nlive j = int (card (members es (pgid j))) \<Longrightarrow> d_waited es ?es j k"
      "state j \<noteq> JOB_DONE \<Longrightarrow> state k \<noteq> JOB_DONE" for e k
  proof -
    obtain us where "ws = us @ ws'" "polled ?es block k us stopped j'" using Cons.IH [OF k(1)] by blast
    then show ?thesis using polled_skip [OF _ k(2-4)] by (intro exI [of _ "w # us"]) simp
  qed
  show ?case
  proof (cases "nlive j > 0")
    case False
    with Cons.prems have "stopped = False" "w # ws = ws'" "j' = j" by simp_all
    with False show ?thesis by (intro exI [of _ "[]"]) (simp add: polled_def d_waited_def)
  next
    case True
    show ?thesis
    proof (cases w rule: wres_cases)
      case 1
      show ?thesis
      proof (cases block)
        case True
        with 1 Cons.prems \<open>nlive j > 0\<close> show ?thesis by (intro skip [of ei j]) (auto simp: d_waited_def members_def)
      next
        case False
        with 1 Cons.prems True show ?thesis by (intro now) (auto simp: polled_def d_waited_def members_def)
      qed
    next
      case 2
      with True Cons.prems show ?thesis by (intro skip [of True j]) (auto simp: d_waited_def members_def)
    next
      case 3
      with True Cons.prems show ?thesis by (intro now) (auto simp: polled_def d_waited_def members_def)
    next
      case 4
      with True Cons.prems show ?thesis by (intro now) (auto simp: polled_def d_waited_def members_def)
    next
      case 5
      with True Cons.prems show ?thesis by (intro skip [of ei "j\<lparr>state := JOB_RUNNING\<rparr>"]) (auto simp: d_waited_def members_def)
    next
      case (6 p)
      with True Cons.prems d_waited_exit [of es p j] show ?thesis
        by (intro skip [of ei "(clear_pid p j)\<lparr>nlive := nlive j - 1\<rparr>"]) auto
    qed
  qed
qed

abbreviation alive :: "int \<Rightarrow> job_state \<Rightarrow> bool" where
  "alive n st \<equiv> n > 0 \<and> st \<noteq> JOB_DONE"

abbreviation dead :: "int \<Rightarrow> job_state \<Rightarrow> bool" where
  "dead n st \<equiv> n = 0 \<and> st = JOB_DONE"

lemma poll_at_leads:
  assumes run: "poll_at a block s = Some (stopped, s')" and a: "a \<in> set L"
    and Psi: "\<And>b n st. Phi b n st \<Longrightarrow> b \<noteq> a \<Longrightarrow> Psi b n st" "\<And>n st. Phi a n st \<Longrightarrow> st \<noteq> JOB_DONE"
      "\<And>n st. 0 \<le> n \<Longrightarrow> st \<noteq> JOB_DONE \<Longrightarrow> (stopped \<Longrightarrow> n > 0) \<Longrightarrow> (\<not> stopped \<Longrightarrow> block \<Longrightarrow> n = 0) \<Longrightarrow> Psi a n st"
  shows "leads (sinv base L F Phi) s (sinv base L F Psi) s' \<and> fg_job s' = fg_job s \<and> quit s' = quit s"
proof -
  obtain ws ei j' where pj: "poll_job (wts s) block (eintr s) (the_job a s) = Some (stopped, ws, ei, j')"
    and s': "s' = d_emit (map (EWait (Some (pgid (the_job a s)))) (consumed (wts s) ws))
        (d_job a (\<lambda>_. j') (s\<lparr>eintr := ei, wts := ws\<rparr>))"
    using run unfolding poll_at_def by auto
  obtain us where us: "wts s = us @ ws" and po: "polled (tr s) block (the_job a s) us stopped j'"
    using poll_job_polled [OF pj] by blast
  let ?es = "map (EWait (Some (pgid (the_job a s)))) us"
  have tr: "tr s' = tr s @ ?es" by (simp add: s' us d_emit_def d_job_def)
  have "sinv base L F Psi s'" if s: "sinv base L F Phi s" and h: "d_honest (tr s')"
  proof -
    obtain t1 j t2 where t: "job_list s = t1 @ (a, j) # t2" "a \<notin> fst ` set t1" "a \<notin> fst ` set t2"
      using sinv_split [OF s a] by blast
    then have j: "the_job a s = j" by simp
    have w: "d_waited (tr s) (tr s') j j'" using po h members_same [OF s t(1)] by (simp add: polled_def j tr)
    have same: "same_job j j'" using po by (simp add: polled_def j)
    have Pj: "Phi a (nlive j) (state j)" using s unfolding sinv_def t by auto
    have "0 \<le> nlive j'" using w by (simp add: d_waited_def)
    then have new: "Psi a (nlive j') (state j')"
      using Psi(2) [OF Pj] po by (intro Psi(3)) (auto simp: polled_def j)
    have "job_list s' = t1 @ (a, j') # t2" "fg_job s' = fg_job s" "inbuf s' = inbuf s" "self s' = self s"
      using t by (simp_all add: s' d_emit_def d_job_def)
    note u = sinv_upd [OF s t this(1-3), where Psi = Psi]
    show ?thesis
    proof (rule u)
      show "nlive j' = int (card (members (tr s') (pgid j)))" using w by (simp add: d_waited_def)
      show "members (tr s') g = members (tr s) g" if "g \<noteq> pgid j" for g
        using w that by (simp add: d_waited_def)
      show "unkilled (tr s) p = Some g" if "unkilled (tr s') p = Some g" for p g
        using that unkilled_waits unfolding tr by blast
      show "fds_ok base (t1 @ (a, j') # t2) (fdt (self s'))" if "fds_ok base (t1 @ (a, j) # t2) (fdt (self s))"
        using fds_ok_upd [OF that] same \<open>self s' = self s\<close> by (simp add: same_job_def)
    qed (use same new Psi(1) in \<open>auto simp: same_job_def\<close>)
  qed
  moreover have "grows s s'" "fg_job s' = fg_job s" "quit s' = quit s"
    by (simp_all add: grows_def tr) (simp_all add: s' d_emit_def d_job_def)
  ultimately show ?thesis by (simp add: leads_def)
qed

section \<open>The foreground wait\<close>

lemma session_pump_leads:
  assumes "session_pump s = Some (r, s')" and F: "set_option F \<subseteq> set L" "fg_job s = F"
  shows "leads (sinv base L F Phi) s (sinv base L F Phi) s' \<and> fg_job s' = F"
proof -
  obtain s1 where d: "drain s = Some s1" using assms(1) by (auto simp: session_pump_def split: Option.bind_splits)
  note l1 = drain_leads [OF d F, of base Phi]
  obtain r0 rest where sel: "sels s1 = r0 # rest" using assms(1) d by (cases "sels s1") (simp_all add: session_pump_def)
  let ?s2 = "s1\<lparr>sels := rest, eintr := (eintr s1 \<or> r0 = SelIntr)\<rparr>"
  have l2: "leads (sinv base L F Phi) s1 (sinv base L F Phi) ?s2" by (rule leads_same) simp_all
  show ?thesis
  proof (cases "r0 = SelReady")
    case False
    then have "s' = ?s2" using assms(1) d sel by (simp add: session_pump_def)
    with l1 l2 show ?thesis by (auto intro: leads_trans)
  next
    case True
    then obtain n s3 where f: "buf_fill ?s2 = Some (n, s3)"
      using assms(1) d sel by (auto simp: session_pump_def split: Option.bind_splits)
    note l3 = buf_fill_leads [OF f, of base L F Phi]
    have fg3: "fg_job s3 = F" using l3 l1 by simp
    show ?thesis
    proof (cases "n = 0")
      case True
      then have "s' = s3" using assms(1) d sel f \<open>r0 = SelReady\<close> by (simp add: session_pump_def)
      with l1 l2 l3 show ?thesis by (auto intro: leads_trans)
    next
      case False
      then have "drain s3 = Some s'" using assms(1) d sel f \<open>r0 = SelReady\<close>
        by (auto simp: session_pump_def split: Option.bind_splits)
      note l4 = drain_leads [OF this F(1) fg3, of base Phi]
      from l1 l2 l3 l4 show ?thesis by (auto intro: leads_trans)
    qed
  qed
qed

text \<open>A \<^verbatim>\<open>SIGKILL\<close> to a group only takes processes out of \<open>unkilled\<close>.\<close>

lemma leads_kill:
  "leads (sinv base L F Phi) s (sinv base L F Phi) (d_emit [EKill q SIGKILL] (s\<lparr>quit := True\<rparr>))"
  by (auto simp: leads_def grows_def sinv_def dinv_def d_emit_def acct_def members_def ustep_def split: if_splits)

text \<open>The jobs during the wait for \<open>a\<close>, and after it.\<close>

definition waiting :: "addr \<Rightarrow> addr \<Rightarrow> int \<Rightarrow> job_state \<Rightarrow> bool" where
  "waiting a b n st \<longleftrightarrow> (if b = a then st \<noteq> JOB_DONE \<and> 0 \<le> n else alive n st)"

definition settled :: "addr \<Rightarrow> bool \<Rightarrow> addr \<Rightarrow> int \<Rightarrow> job_state \<Rightarrow> bool" where
  "settled a stopped b n st \<longleftrightarrow> (if b = a \<and> \<not> stopped then n = 0 else alive n st)"

definition turned :: "addr \<Rightarrow> bool \<Rightarrow> addr \<Rightarrow> int \<Rightarrow> job_state \<Rightarrow> bool" where
  "turned a stopped = (if stopped then settled a True else waiting a)"

lemma wait_turn_leads:
  assumes "wait_turn a s = Some (stopped, s')" and a: "a \<in> set L" and fg: "fg_job s = Some a"
  shows "leads (sinv base L (Some a) (waiting a)) s
      (sinv base L (Some a) (turned a stopped)) s'
    \<and> fg_job s' = Some a"
proof -
  let ?I = "sinv base L (Some a) (waiting a)"
  have "\<exists>s2 block. leads ?I s ?I s2 \<and> fg_job s2 = Some a \<and> poll_at a block s2 = Some (stopped, s')"
  proof (cases "quit s")
    case True
    with assms show ?thesis by (intro exI [of _ s] exI [of _ True]) (simp add: wait_turn_def)
  next
    case False
    with assms obtain r s1 where p: "session_pump s = Some (r, s1)"
      and q: "poll_at a False (if r = 0 then d_emit [EKill (- pgid (the_job a s1)) SIGKILL] (s1\<lparr>quit := True\<rparr>) else s1)
        = Some (stopped, s')"
      by (auto simp: wait_turn_def split: Option.bind_splits)
    let ?s2 = "if r = 0 then d_emit [EKill (- pgid (the_job a s1)) SIGKILL] (s1\<lparr>quit := True\<rparr>) else s1"
    have l1: "leads ?I s ?I s1 \<and> fg_job s1 = Some a"
      by (rule session_pump_leads [OF p]) (use a fg in auto)
    have "leads ?I s1 ?I ?s2" using leads_kill by simp
    with l1 have "leads ?I s ?I ?s2" by (blast intro: leads_trans)
    moreover have "fg_job ?s2 = Some a" using l1 by (simp add: d_emit_def)
    ultimately show ?thesis using q by blast
  qed
  then obtain s2 block where l: "leads ?I s ?I s2" "fg_job s2 = Some a" and q: "poll_at a block s2 = Some (stopped, s')"
    by blast
  have "leads ?I s2 (sinv base L (Some a) (turned a stopped)) s'
    \<and> fg_job s' = fg_job s2 \<and> quit s' = quit s2"
    by (rule poll_at_leads [OF q a]) (auto simp: waiting_def settled_def turned_def)
  with l show ?thesis by (auto intro: leads_trans)
qed

text \<open>After the loop the job has stopped, or none of its processes is left.\<close>

lemma sinv_mono: "sinv base L F Phi s \<Longrightarrow> (\<And>b n st. Phi b n st \<Longrightarrow> Psi b n st) \<Longrightarrow> sinv base L F Psi s"
  unfolding sinv_def by fastforce

lemma sinv_at:
  assumes "sinv base L F Phi s" and "a \<in> set L"
    and "\<And>b n st. Phi b n st \<Longrightarrow> (b = a \<Longrightarrow> n = nlive (the_job a s) \<and> st = state (the_job a s)) \<Longrightarrow> Psi b n st"
  shows "sinv base L F Psi s"
proof -
  obtain t1 j t2 where t: "job_list s = t1 @ (a, j) # t2" "a \<notin> fst ` set t1" "a \<notin> fst ` set t2"
    using sinv_split [OF assms(1,2)] by blast
  have "Psi b (nlive k) (state k)" if k: "(b, k) \<in> set (job_list s)" for b k
  proof (rule assms(3))
    show "Phi b (nlive k) (state k)" using assms(1) k by (auto simp: sinv_def)
    have "k = j" if "b = a" using k t that by force
    then show "nlive k = nlive (the_job a s) \<and> state k = state (the_job a s)" if "b = a" using t that by simp
  qed
  then show ?thesis using assms(1) unfolding sinv_def by blast
qed

lemma leads_at:
  assumes "a \<in> set L"
    and "\<And>b n st. Phi b n st \<Longrightarrow> (b = a \<Longrightarrow> n = nlive (the_job a s) \<and> st = state (the_job a s)) \<Longrightarrow> Psi b n st"
  shows "leads (sinv base L F Phi) s (sinv base L F Psi) s"
proof -
  have "sinv base L F Psi s" if "sinv base L F Phi s" by (rule sinv_at [OF that assms(1)]) (rule assms(2))
  then show ?thesis by (simp add: leads_def grows_def)
qed

lemma wait_loop_leads:
  assumes "wait_loop a s = Some (stopped, s')" and a: "a \<in> set L" and "fg_job s = Some a"
  shows "leads (sinv base L (Some a) (waiting a)) s
      (sinv base L (Some a) (settled a stopped)) s'
    \<and> fg_job s' = Some a"
proof -
  let ?I = "sinv base L (Some a) (waiting a)"
  let ?Q = "\<lambda>stopped. sinv base L (Some a) (settled a stopped)"
  have "a \<in> set L \<longrightarrow> fg_job s = Some a
    \<longrightarrow> leads ?I s (?Q (fst (stopped, s'))) (snd (stopped, s')) \<and> fg_job (snd (stopped, s')) = Some a"
  proof (rule wait_loop.raw_induct [OF _ assms(1)], intro impI)
    fix rec a s q
    let ?I = "sinv base L (Some a) (waiting a)"
    let ?Q = "\<lambda>stopped. sinv base L (Some a) (settled a stopped)"
    assume IH: "\<And>a s q. rec a s = Some q \<Longrightarrow> a \<in> set L \<longrightarrow> fg_job s = Some a
        \<longrightarrow> leads (sinv base L (Some a) (waiting a)) s
             (sinv base L (Some a) (settled a (fst q))) (snd q) \<and> fg_job (snd q) = Some a"
      and body: "(if \<not> 0 < nlive (the_job a s) then Some (False, s)
        else wait_turn a s \<bind> (\<lambda>(stopped, s1). if stopped then Some (True, s1) else rec a s1)) = Some q"
      and a: "a \<in> set L" and fg: "fg_job s = Some a"
    show "leads ?I s (?Q (fst q)) (snd q) \<and> fg_job (snd q) = Some a"
    proof (cases "0 < nlive (the_job a s)")
      case False
      have "?Q False s" if "?I s"
        by (rule sinv_at [OF that a]) (use False in \<open>auto simp: waiting_def settled_def\<close>)
      with False body fg show ?thesis by (auto simp: leads_def grows_def)
    next
      case True
      with body obtain st s1 where t: "wait_turn a s = Some (st, s1)"
        and k: "(if st then Some (True, s1) else rec a s1) = Some q"
        by (auto split: Option.bind_splits)
      note l = wait_turn_leads [OF t a fg, of base]
      show ?thesis
      proof (cases st)
        case True
        with k l show ?thesis by (auto simp: turned_def)
      next
        case False
        with k l IH [of a s1 q] a show ?thesis by (auto simp: turned_def intro: leads_trans)
      qed
    qed
  qed
  with assms(2,3) show ?thesis by simp
qed

lemma leads_fg:
  "set_option F' \<subseteq> set L \<Longrightarrow> leads (sinv base L F Phi) s (sinv base L F' Phi) (s\<lparr>fg_job := F'\<rparr>)"
  by (auto simp: leads_def grows_def sinv_def dinv_def)

lemma sinv_job:
  assumes "sinv base L F Phi s" and "a \<in> set L"
  shows "Phi a (nlive (the_job a s)) (state (the_job a s))"
proof -
  obtain t1 j t2 where t: "job_list s = t1 @ (a, j) # t2" "a \<notin> fst ` set t1" "a \<notin> fst ` set t2"
    using sinv_split [OF assms] by blast
  then have "(a, the_job a s) \<in> set (job_list s)" by simp
  with assms(1) show ?thesis by (auto simp: sinv_def)
qed

lemma grows_refl [simp]: "grows s s"
  by (simp add: grows_def)

lemma grows_remove [simp]: "grows s (jobs_remove_d a s)"
  by (simp add: jobs_remove_d_def Let_def grows_def d_fdt_def split: option.split)

lemma sinv_remove:
  assumes s: "sinv base L None Phi s" and a: "a \<in> set L" and "nlive (the_job a s) = 0"
    and Psi: "\<And>b n st. Phi b n st \<Longrightarrow> b \<noteq> a \<Longrightarrow> Psi b n st"
  shows "sinv base (remove1 a L) None Psi (jobs_remove_d a s)"
proof -
  obtain t1 j t2 where t: "job_list s = t1 @ (a, j) # t2" "a \<notin> fst ` set t1" "a \<notin> fst ` set t2"
    using sinv_split [OF s a] by blast
  then have at: "map_of (job_list s) a = Some j" "jobs_remove a (job_list s) = t1 @ t2" "the_job a s = j"
    using map_of_at [of a t1 j t2] by (simp_all del: map_of_append)
  have old: "acct (t1 @ (a, j) # t2) (tr s)" "fds_ok base (t1 @ (a, j) # t2) (fdt (self s))"
    "tab_inv (t1 @ (a, j) # t2)" "\<forall>(b, k) \<in> set (t1 @ (a, j) # t2). Phi b (nlive k) (state k)"
    using s unfolding sinv_def dinv_def t by blast+
  have L: "L = map fst t1 @ a # map fst t2" using s by (simp add: sinv_def t)
  have "acct (t1 @ t2) (tr s)" using acct_remove [OF old(1)] assms(3) at unkilled_kids by simp
  moreover have "tab_inv (t1 @ t2)" using jobs_remove_inv [OF old(3), of a] t(2) by simp
  moreover have "Psi b (nlive k) (state k)" if "(b, k) \<in> set (t1 @ t2)" for b k
  proof -
    have "b \<noteq> a" using that t by force
    moreover have "Phi b (nlive k) (state k)" using that old(4) by auto
    ultimately show ?thesis using Psi by blast
  qed
  moreover have "remove1 a L = map fst (t1 @ t2)" using t(2) by (simp add: L remove1_append)
  moreover note fds_ok_remove [OF old(2)]
  moreover have "fg_job s = None" "length (inbuf s) \<le> YASH_BUF_SIZE" using s by (simp_all add: sinv_def dinv_def)
  ultimately show ?thesis
    unfolding sinv_def dinv_def jobs_remove_d_def at Let_def by (auto simp: d_fdt_def at(2))
qed

text \<open>Between two messages: no foreground job, and every job of the table alive.\<close>

definition ready :: "fdtab \<Rightarrow> dsess \<Rightarrow> bool" where
  "ready base s \<longleftrightarrow> (\<exists>L. sinv base L None (\<lambda>_. alive) s)"

lemma jobs_wait_fg_leads:
  assumes "jobs_wait_fg_d a s = Some s'" and a: "a \<in> set L" and fg: "fg_job s = Some a"
  shows "leads (sinv base L (Some a) (waiting a)) s
      (sinv base L (Some a) (\<lambda>b n st. alive n st \<or> b = a \<and> dead n st)) s' \<and> fg_job s' = Some a"
proof -
  obtain r s1 where w: "wait_loop a s = Some (r, s1)"
    and s': "s' = (if r then s1 else d_job a (\<lambda>j. j\<lparr>state := JOB_DONE\<rparr>) s1)"
    using assms(1) by (auto simp: jobs_wait_fg_d_def)
  note l = wait_loop_leads [OF w a fg, of base]
  have "leads (sinv base L (Some a) (settled a r)) s1 (sinv base L (Some a) (\<lambda>b n st. alive n st \<or> b = a \<and> dead n st)) s'"
  proof (cases r)
    case True
    then show ?thesis by (auto simp: s' leads_def grows_def sinv_def settled_def)
  next
    case False
    then show ?thesis unfolding s' if_not_P [OF False]
      by (intro leads_job [OF a]) (auto simp: settled_def split: if_splits)
  qed
  with l show ?thesis by (auto simp: s' d_job_def intro: leads_trans)
qed

lemma run_fg_leads:
  assumes "run_fg a s = Some s'" and a: "a \<in> set L"
  shows "leads (sinv base L None (waiting a)) s (ready base) s'"
proof -
  let ?Q = "\<lambda>b n st. alive n st \<or> b = a \<and> dead n st"
  let ?s0 = "s\<lparr>fg_job := Some a\<rparr>"
  obtain s1 where w: "jobs_wait_fg_d a ?s0 = Some s1"
    using assms(1) by (auto simp: run_fg_def split: Option.bind_splits)
  let ?s2 = "s1\<lparr>fg_job := None\<rparr>"
  have s': "s' = (if state (the_job a ?s2) = JOB_DONE then jobs_remove_d a ?s2 else ?s2)"
    using assms(1) w by (simp add: run_fg_def Let_def)
  have "leads (sinv base L None (waiting a)) s (sinv base L (Some a) (waiting a)) ?s0"
    by (rule leads_fg) (use a in simp)
  also have "leads (sinv base L (Some a) (waiting a)) ?s0 (sinv base L (Some a) ?Q) s1"
    using jobs_wait_fg_leads [OF w a] by simp
  also have "leads (sinv base L (Some a) ?Q) s1 (sinv base L None ?Q) ?s2"
    by (rule leads_fg) simp
  also have "leads (sinv base L None ?Q) ?s2 (ready base) s'"
  proof -
    have "ready base s'" if q: "sinv base L None ?Q ?s2"
    proof (cases "state (the_job a ?s2) = JOB_DONE")
      case True
      then have "nlive (the_job a ?s2) = 0" using sinv_job [OF q a] by auto
      from sinv_remove [OF q a this, of "\<lambda>_. alive"] True show ?thesis unfolding s' ready_def by auto
    next
      case False
      have "sinv base L None (\<lambda>_. alive) ?s2" by (rule sinv_at [OF q a]) (use False in auto)
      with False show ?thesis unfolding s' ready_def by auto
    qed
    moreover have "grows ?s2 s'" using grows_remove [of ?s2 a] by (simp add: s')
    ultimately show ?thesis by (simp add: leads_def)
  qed
  finally show ?thesis .
qed

section \<open>Reaping\<close>

declare jobs_current_d_def [simp] jobs_recent_stopped_d_def [simp]

text \<open>During \<^verbatim>\<open>jobs_reap\<close> a job is alive, or dead and marked.\<close>

definition marked :: "addr \<Rightarrow> int \<Rightarrow> job_state \<Rightarrow> bool" where
  "marked a n st \<longleftrightarrow> alive n st \<or> dead n st"

lemma reap_poll_leads:
  assumes "reap_poll as s = Some s'" and "set as \<subseteq> set L"
  shows "leads (sinv base L None marked) s (sinv base L None marked) s'"
  using assms
proof (induction as arbitrary: s)
  case (Cons a as)
  let ?M = "sinv base L None marked"
  show ?case
  proof (cases "state (the_job a s) \<noteq> JOB_DONE \<and> nlive (the_job a s) > 0")
    case True
    with Cons.prems obtain sp s1 where p: "poll_at a False s = Some (sp, s1)"
      and r: "reap_poll as (if \<not> sp \<and> nlive (the_job a s1) = 0 then d_job a (\<lambda>j. j\<lparr>state := JOB_DONE\<rparr>) s1 else s1) = Some s'"
      by (auto split: Option.bind_splits)
    let ?s2 = "if \<not> sp \<and> nlive (the_job a s1) = 0 then d_job a (\<lambda>j. j\<lparr>state := JOB_DONE\<rparr>) s1 else s1"
    have a: "a \<in> set L" using Cons.prems by simp
    let ?A = "\<lambda>b n st. if b = a then alive n st else marked b n st"
    let ?B = "\<lambda>b n st. if b = a then st \<noteq> JOB_DONE \<and> 0 \<le> n \<and> (sp \<longrightarrow> 0 < n) else marked b n st"
    let ?C = "\<lambda>b n st. if b = a then st \<noteq> JOB_DONE \<and> n = nlive (the_job a s1) \<and> 0 \<le> n \<and> (sp \<longrightarrow> 0 < n)
        else marked b n st"
    have "leads ?M s (sinv base L None ?A) s"
      by (rule leads_at [OF a]) (use True in \<open>auto simp: marked_def\<close>)
    also have "leads (sinv base L None ?A) s (sinv base L None ?B) s1"
      by (rule poll_at_leads [OF p a, THEN conjunct1]) (auto split: if_splits)
    also have "leads (sinv base L None ?B) s1 (sinv base L None ?C) s1"
      by (rule leads_at [OF a]) (auto split: if_splits)
    also have "leads (sinv base L None ?C) s1 ?M ?s2"
    proof (cases "\<not> sp \<and> nlive (the_job a s1) = 0")
      case True
      then show ?thesis unfolding if_P [OF True] by (intro leads_job [OF a]) (auto simp: marked_def split: if_splits)
    next
      case False
      have "?M s1" if "sinv base L None ?C s1"
        by (rule sinv_mono [OF that]) (use False in \<open>auto simp: marked_def split: if_splits\<close>)
      with False show ?thesis by (auto simp: leads_def)
    qed
    also have "leads ?M ?s2 ?M s'" using Cons.IH [OF r] Cons.prems by simp
    finally show ?thesis .
  next
    case False
    then have "reap_poll as s = Some s'" using Cons.prems(1) by (simp only: reap_poll.simps if_False)
    with Cons.IH Cons.prems(2) show ?thesis by simp
  qed
qed simp

lemma reap_done_leads:
  assumes "reap_done as s = Some s'" and "set as \<subseteq> set L" and "distinct as"
  shows "leads (sinv base L None (\<lambda>b n st. alive n st \<or> b \<in> set as \<and> dead n st)) s (ready base) s'"
  using assms
proof (induction as arbitrary: s L)
  case Nil
  then show ?case by (auto simp: leads_def ready_def)
next
  case (Cons a as)
  have a: "a \<in> set L" using Cons.prems by simp
  let ?P = "\<lambda>as b n st. alive n st \<or> b \<in> set as \<and> dead n st"
  show ?case
  proof (cases "state (the_job a s) = JOB_DONE")
    case True
    with Cons.prems obtain s1 where p: "jobs_print_one_d (the_job a s)
        (if jobs_current (job_list s) = None then CHR ''+'' else CHR ''-'') ''Done'' s = Some s1"
      and r: "reap_done as (jobs_remove_d a s1) = Some s'"
      by (auto split: Option.bind_splits)
    from p have out: "output_only s s1" by (auto simp: jobs_print_one_d_def dest: session_printf_output)
    then have jl: "the_job a s1 = the_job a s" by (auto simp: output_only_def)
    have "leads (sinv base L None (?P (a # as))) s (sinv base L None (?P (a # as))) s1"
      by (rule leads_output [OF out])
    also have "leads (sinv base L None (?P (a # as))) s1 (sinv base (remove1 a L) None (?P as)) (jobs_remove_d a s1)"
    proof -
      have "sinv base (remove1 a L) None (?P as) (jobs_remove_d a s1)" if q: "sinv base L None (?P (a # as)) s1"
        by (rule sinv_remove [OF q a]) (use sinv_job [OF q a] True jl in auto)
      then show ?thesis by (simp add: leads_def)
    qed
    also have "leads (sinv base (remove1 a L) None (?P as)) (jobs_remove_d a s1) (ready base) s'"
    proof -
      have "set as \<subseteq> set (remove1 a L)"
        using Cons.prems(2,3) by (auto intro!: in_set_remove1 [THEN iffD2])
      with Cons.IH [OF r] Cons.prems(3) show ?thesis by simp
    qed
    finally show ?thesis .
  next
    case False
    have "leads (sinv base L None (?P (a # as))) s (sinv base L None (?P as)) s"
      by (rule leads_at [OF a]) (use False in auto)
    also have "leads (sinv base L None (?P as)) s (ready base) s'"
      using Cons False by simp
    finally show ?thesis .
  qed
qed

lemma reap_done_grows: "reap_done as s = Some s' \<Longrightarrow> grows s s'"
proof (induction as arbitrary: s)
  case (Cons a as)
  show ?case
  proof (cases "state (the_job a s) = JOB_DONE")
    case True
    with Cons.prems obtain s1 where p: "jobs_print_one_d (the_job a s)
        (if jobs_current (job_list s) = None then CHR ''+'' else CHR ''-'') ''Done'' s = Some s1"
      and r: "reap_done as (jobs_remove_d a s1) = Some s'"
      by (auto split: Option.bind_splits)
    from p have "output_only s s1" by (auto simp: jobs_print_one_d_def dest: session_printf_output)
    then have "grows s s1" by (auto simp: output_only_def grows_def)
    then show ?thesis using grows_remove [of s1 a] Cons.IH [OF r] by (auto simp: grows_def)
  qed (use Cons in simp)
qed simp

lemma sinv_listed:
  assumes "sinv base L F Phi s" and "\<And>b n st. Phi b n st \<Longrightarrow> b \<in> set L \<Longrightarrow> Psi b n st"
  shows "sinv base L F Psi s"
proof -
  have "b \<in> set L" if "(b, k) \<in> set (job_list s)" for b k
    using sinv_addrs [OF assms(1)] that by force
  with assms show ?thesis unfolding sinv_def by fastforce
qed

lemma reap_poll_addrs: "reap_poll as s = Some s' \<Longrightarrow> map fst (job_list s') = map fst (job_list s)"
proof (induction as arbitrary: s)
  case (Cons a as)
  show ?case
  proof (cases "state (the_job a s) \<noteq> JOB_DONE \<and> nlive (the_job a s) > 0")
    case True
    with Cons.prems obtain sp s1 where p: "poll_at a False s = Some (sp, s1)"
      and r: "reap_poll as (if \<not> sp \<and> nlive (the_job a s1) = 0 then d_job a (\<lambda>j. j\<lparr>state := JOB_DONE\<rparr>) s1 else s1) = Some s'"
      by (auto split: Option.bind_splits)
    from p have "map fst (job_list s1) = map fst (job_list s)"
      by (auto simp: poll_at_def d_emit_def d_job_def)
    with Cons.IH [OF r] show ?thesis by (simp add: d_job_def split: if_splits)
  next
    case False
    then have "reap_poll as s = Some s'" using Cons.prems by (simp only: reap_poll.simps if_False)
    then show ?thesis by (rule Cons.IH)
  qed
qed simp

lemma jobs_reap_leads:
  assumes "jobs_reap_d s = Some s'"
  shows "leads (ready base) s (ready base) s'"
proof -
  let ?L = "map fst (job_list s)"
  obtain s1 where p: "reap_poll ?L s = Some s1" and d: "reap_done (map fst (job_list s1)) s1 = Some s'"
    using assms by (auto simp: jobs_reap_d_def split: Option.bind_splits)
  have L: "map fst (job_list s1) = ?L" by (rule reap_poll_addrs [OF p])
  have start: "sinv base ?L None marked s" if "ready base s"
  proof -
    from that obtain L where q: "sinv base L None (\<lambda>_. alive) s" by (auto simp: ready_def)
    then have "L = ?L" by (simp add: sinv_def)
    with q show ?thesis by (auto simp: marked_def intro: sinv_mono)
  qed
  then have "leads (ready base) s (sinv base ?L None marked) s" by (simp add: leads_def)
  also have "leads (sinv base ?L None marked) s (sinv base ?L None marked) s1" by (rule reap_poll_leads [OF p]) simp
  also have "leads (sinv base ?L None marked) s1 (ready base) s'"
  proof -
    have "ready base s'" if q: "sinv base ?L None marked s1" and h: "d_honest (tr s')"
    proof -
      have "distinct ?L" using q unfolding sinv_def dinv_def tab_inv_def by metis
      moreover have "sinv base ?L None (\<lambda>b n st. alive n st \<or> b \<in> set ?L \<and> dead n st) s1"
        by (rule sinv_listed [OF q]) (auto simp: marked_def)
      ultimately show ?thesis using reap_done_leads [OF d, of ?L base] h unfolding L leads_def by simp
    qed
    with reap_done_grows [OF d] show ?thesis by (simp add: leads_def)
  qed
  finally show ?thesis .
qed

end
