(* ===== verification/Yashd_Launch.thy ===== *)
theory Yashd_Launch
  imports Yashd_Safe
begin

text \<open>
  Launching a command in a session: the process group that the fork loop builds, the descriptors of
  the daemon around it, and the job that is added to the table, or killed when the table is full.
\<close>

section \<open>The fork loop\<close>

lemma open_onto_grp: "open_onto os f fl md tg p = (r, p') \<Longrightarrow> grp p' = grp p"
  by (auto simp: open_onto_def c_open_def split: if_splits option.splits prod.splits)

lemma redirect_apply_grp: "redirect_apply os b c p = (r, p') \<Longrightarrow> grp p' = grp p"
  unfolding redirect_apply_def Let_def
  by (auto split: option.splits prod.splits if_splits dest!: open_onto_grp)

lemma reset_child_signals_frame [simp]:
  "grp (reset_child_signals p) = grp p" "fdt (reset_child_signals p) = fdt p"
  by (simp_all add: reset_child_signals_def set_handler_def)

declare redirect_apply_d_def [simp]

lemma exec_child_d_grp: "grp (fst (exec_child_d os me i pg inpipe fds cf b c p)) = (if pg = 0 then me else pg)"
  by (auto simp: exec_child_d_def Let_def split: prod.split dest!: redirect_apply_grp)

text \<open>
  The group \<open>pg\<close> has exactly the \<open>n\<close> processes forked since the trace was \<open>es0\<close>; no group otherwise.
\<close>

definition new_group :: "event list \<Rightarrow> pid \<Rightarrow> int \<Rightarrow> event list \<Rightarrow> bool" where
  "new_group es0 pg n es \<longleftrightarrow>
     pg = 0 \<and> n = 0 \<and> kids es = kids es0 \<and> unkilled es = unkilled es0
     \<or> 0 < pg \<and> 0 < n \<and> pg \<notin> ran (kids es0) \<and> n = int (card (members es pg))
       \<and> (\<forall>g. g \<noteq> pg \<longrightarrow> members es g = members es0 g)
       \<and> (\<forall>p g. g \<noteq> pg \<longrightarrow> unkilled es p = Some g \<longrightarrow> unkilled es0 p = Some g)"

lemma new_group_fork:
  assumes "new_group es0 pg n es" and pg1: "pg1 = (if pg = 0 then p else pg)" and "grp c = pg1"
    and h: "0 < p" "p \<notin> dom (kids es)" "p \<notin> ran (kids es)"
  shows "new_group es0 pg1 (n + 1) (es @ [EFork p c e, ESetpgid p pg1])"
proof -
  let ?es = "es @ [EFork p c e, ESetpgid p pg1]"
  have kids: "kids ?es = (kids es)(p \<mapsto> pg1)" using assms(3) by (simp add: kids_append)
  have unk: "unkilled ?es = (unkilled es)(p \<mapsto> pg1)" using assms(3) by (simp add: unkilled_append ustep_def)
  have m: "members ?es g = (if g = pg1 then insert p (members es g) else members es g)" for g
    using h(2) by (auto simp: members_def kids)
  have old: "unkilled es q = Some g" if "unkilled ?es q = Some g" "g \<noteq> pg1" for q g
    using that by (auto simp: unk split: if_splits)
  have p: "p \<notin> members es g" for g using h(2) by (auto simp: members_def)
  show ?thesis
  proof (cases "pg = 0")
    case True
    with assms(1) have z: "n = 0" "kids es = kids es0" "unkilled es = unkilled es0" by (auto simp: new_group_def)
    have "members es p = {}" using h(3) by (auto simp: members_def ran_def)
    moreover have "members es g = members es0 g" for g by (simp add: members_def z)
    ultimately show ?thesis using True z h pg1 old unfolding new_group_def m by auto
  next
    case False
    with assms(1) have z: "0 < pg" "0 < n" "pg \<notin> ran (kids es0)" "n = int (card (members es pg))"
      "\<And>g. g \<noteq> pg \<Longrightarrow> members es g = members es0 g"
      "\<And>p g. g \<noteq> pg \<Longrightarrow> unkilled es p = Some g \<Longrightarrow> unkilled es0 p = Some g"
      by (auto simp: new_group_def)
    then show ?thesis using False p pg1 old unfolding new_group_def m by auto
  qed
qed

definition d_frame :: "dsess \<Rightarrow> dsess \<Rightarrow> bool" where
  "d_frame s s' \<longleftrightarrow> job_list s' = job_list s \<and> fg_job s' = fg_job s \<and> self s' = self s \<and> cfd s' = cfd s
     \<and> inbuf s' = inbuf s \<and> mlc s' = mlc s"

lemma fork_loop_d_facts:
  assumes "fork_loop_d os inpipe fds i pg j s = (pg', j', s')"
  shows "grows s s' \<and> d_frame s s' \<and> background j' = background j \<and> state j' = state j
    \<and> (d_honest (tr s') \<longrightarrow> new_group es0 pg (nlive j) (tr s) \<longrightarrow> new_group es0 pg' (nlive j') (tr s'))"
  using assms
proof (induction os inpipe fds i pg j s rule: fork_loop_d.induct)
  case (1 os inpipe fds i pg j s)
  show ?case
  proof (cases "i < ncmds j \<and> \<not> fks s 0 < 0")
    case False
    with 1(2) show ?thesis
      by (subst (asm) fork_loop_d.simps) (auto simp: grows_def d_frame_def Let_def split: if_splits)
  next
    case True
    let ?pid = "fks s 0" and ?s0 = "s\<lparr>fks := tick (fks s)\<rparr>"
    let ?child = "exec_child_d os ?pid i pg inpipe fds (cfd s) (buf j) (cmds j ! i) (self s)"
    let ?j1 = "upd_cmd i (\<lambda>c. c\<lparr>cmd_pid := ?pid\<rparr>) j" and ?pg1 = "if pg = 0 then ?pid else pg"
    let ?es = "[EFork ?pid (fst ?child) (snd ?child), ESetpgid ?pid ?pg1]"
    let ?s1 = "d_emit ?es ?s0" and ?j2 = "?j1\<lparr>nlive := nlive ?j1 + 1\<rparr>"
    have run: "fork_loop_d os inpipe fds (i + 1) ?pg1 ?j2 ?s1 = (pg', j', s')"
      using 1(2) True by (subst (asm) fork_loop_d.simps) (simp add: Let_def)
    have IH: "grows ?s1 s' \<and> d_frame ?s1 s' \<and> background j' = background ?j2 \<and> state j' = state ?j2
      \<and> (d_honest (tr s') \<longrightarrow> new_group es0 ?pg1 (nlive ?j2) (tr ?s1) \<longrightarrow> new_group es0 pg' (nlive j') (tr s'))"
      by (rule 1(1) [OF _ refl refl _ refl refl refl refl run]) (use True in auto)
    have "new_group es0 ?pg1 (nlive j + 1) (tr s @ ?es)"
      if "d_honest (tr s')" "new_group es0 pg (nlive j) (tr s)"
      using that IH by (intro new_group_fork) (auto simp: grows_def d_emit_def exec_child_d_grp)
    with IH show ?thesis by (auto simp: grows_def d_frame_def d_emit_def upd_cmd_def)
  qed
qed

section \<open>Adding the job\<close>

lemma acct_add:
  assumes "acct t es0" and "new_group es0 (pgid j) (nlive j) es" and "0 < nlive j"
    and "\<forall>(b, k) \<in> set t. 0 < nlive k"
  shows "acct (t @ [(a, j)]) es"
proof -
  have z: "0 < pgid j" "pgid j \<notin> ran (kids es0)" "nlive j = int (card (members es (pgid j)))"
    "\<And>g. g \<noteq> pgid j \<Longrightarrow> members es g = members es0 g"
    "\<And>p g. g \<noteq> pgid j \<Longrightarrow> unkilled es p = Some g \<Longrightarrow> unkilled es0 p = Some g"
    using assms(2,3) by (auto simp: new_group_def)
  have old: "0 < pgid k \<and> nlive k = int (card (members es0 (pgid k))) \<and> pgid k \<noteq> pgid j"
    if "(b, k) \<in> set t" for b k
  proof -
    have k: "0 < pgid k" "nlive k = int (card (members es0 (pgid k)))" using assms(1) that by (auto simp: acct_def)
    moreover have "0 < nlive k" using assms(4) that by auto
    ultimately have "members es0 (pgid k) \<noteq> {}" by auto
    then have "pgid k \<in> ran (kids es0)" by (auto simp: members_def ran_def)
    with z(2) k show ?thesis by auto
  qed
  have "distinct (map (pgid \<circ> snd) (t @ [(a, j)]))" using assms(1) old by (force simp: acct_def)
  moreover have "0 < pgid k \<and> nlive k = int (card (members es (pgid k)))" if "(b, k) \<in> set (t @ [(a, j)])" for b k
    using that old [of b k] z by auto
  moreover have "\<exists>(b, k) \<in> set (t @ [(a, j)]). pgid k = g" if "unkilled es p = Some g" for p g
  proof (cases "g = pgid j")
    case False
    with z(5) that assms(1) show ?thesis by (fastforce simp: acct_def)
  qed auto
  ultimately show ?thesis unfolding acct_def by blast
qed

text \<open>The group is killed instead, or there is none.\<close>

lemma acct_drop:
  assumes "acct t es0" and "new_group es0 pg n es" and "\<forall>(b, k) \<in> set t. 0 < nlive k"
    and "es' = es @ (if n = 0 then [] else [EKill (- pg) SIGKILL])"
  shows "acct t es'"
proof (cases "n = 0")
  case True
  with assms show ?thesis by (auto simp: new_group_def acct_def members_def)
next
  case False
  then have z: "0 < pg" "pg \<notin> ran (kids es0)" "\<And>g. g \<noteq> pg \<Longrightarrow> members es g = members es0 g"
    "\<And>p g. g \<noteq> pg \<Longrightarrow> unkilled es p = Some g \<Longrightarrow> unkilled es0 p = Some g"
    using assms(2) by (auto simp: new_group_def)
  have mem: "members es' g = members es g" for g using False assms(4) by (simp add: members_def)
  have old: "0 < pgid k \<and> nlive k = int (card (members es' (pgid k)))" if "(b, k) \<in> set t" for b k
  proof -
    have k: "0 < pgid k" "nlive k = int (card (members es0 (pgid k)))" using assms(1) that by (auto simp: acct_def)
    moreover have "0 < nlive k" using assms(3) that by auto
    ultimately have "members es0 (pgid k) \<noteq> {}" by auto
    then have "pgid k \<noteq> pg" using z(2) by (auto simp: members_def ran_def)
    with k z(3) show ?thesis by (simp add: mem)
  qed
  moreover have "\<exists>(b, k) \<in> set t. pgid k = g" if "unkilled es' p = Some g" for p g
  proof -
    from that have "unkilled es p = Some g" "g \<noteq> pg" using False assms(4) by (auto simp: ustep_def split: if_splits)
    with z(4) assms(1) show ?thesis by (fastforce simp: acct_def)
  qed
  ultimately show ?thesis using assms(1) unfolding acct_def by blast
qed

lemma fold_max_ge: "x \<in> set xs \<or> x \<le> m \<Longrightarrow> x \<le> fold max xs (m :: nat)"
  by (induction xs arbitrary: m) (auto simp: le_max_iff_disj)

lemma d_malloc_fresh: "d_malloc s = Some a \<Longrightarrow> a \<notin> fst ` set (job_list s)"
proof
  assume "d_malloc s = Some a" and "a \<in> fst ` set (job_list s)"
  then have "a \<le> fold max (map fst (job_list s)) 0" by (intro fold_max_ge) simp
  with \<open>d_malloc s = Some a\<close> show False by (auto simp: d_malloc_def)
qed

lemma jobs_add_Some:
  assumes "jobs_add m j t = (Some a, t')"
  shows "m = Some a \<and> (\<exists>n. t' = t @ [(a, (rebase_pointers a j)\<lparr>jid := n\<rparr>)])"
  using assms by (auto simp: jobs_add_def Let_def split: if_splits option.splits)

text \<open>
  The session between the fork loop and the table: the jobs are those of before, the descriptors too
  apart from the write end \<open>w\<close>.
\<close>

definition launching :: "fdtab \<Rightarrow> addr list \<Rightarrow> int \<Rightarrow> pid \<Rightarrow> djob \<Rightarrow> dsess \<Rightarrow> bool" where
  "launching base L w pg j s \<longleftrightarrow> (\<exists>es0 k. acct (job_list s) es0 \<and> new_group es0 pg (nlive j) (tr s)
     \<and> fds_ok base (job_list s) ((fdt (self s))(w := None)) \<and> 0 \<le> w \<and> base w = None \<and> w \<notin> set (in_fds (job_list s))
     \<and> fdt (self s) w = Some (InWrite k)
     \<and> tab_inv (job_list s) \<and> length (inbuf s) \<le> YASH_BUF_SIZE \<and> map fst (job_list s) = L \<and> fg_job s = None
     \<and> state j \<noteq> JOB_DONE \<and> (\<forall>(b, k) \<in> set (job_list s). alive (nlive k) (state k)))"

lemma launching_none:
  assumes "launching base L w pg j s" and "nlive j = 0"
  shows "ready base (d_fdt (c_close w) s)"
proof -
  from assms obtain es0 where "acct (job_list s) es0" "new_group es0 pg 0 (tr s)"
    "\<forall>(b, k) \<in> set (job_list s). 0 < nlive k" by (fastforce simp: launching_def)
  then have "acct (job_list s) (tr s)" using acct_drop by fastforce
  with assms(1) have "sinv base L None (\<lambda>_. alive) (d_fdt (c_close w) s)"
    by (auto simp: launching_def sinv_def dinv_def d_fdt_def c_close_def)
  then show ?thesis by (auto simp: ready_def)
qed

lemma launching_refused:
  assumes "launching base L w pg j s" and "nlive j \<noteq> 0"
    and s': "job_list s' = job_list s" "fg_job s' = fg_job s" "inbuf s' = inbuf s" "fdt (self s') = (fdt (self s))(w := None)"
      "tr s' = tr s @ [EKill (- pg) SIGKILL]"
  shows "ready base s'"
proof -
  from assms(1) obtain es0 where "acct (job_list s) es0" "new_group es0 pg (nlive j) (tr s)"
    "\<forall>(b, k) \<in> set (job_list s). 0 < nlive k" by (fastforce simp: launching_def)
  then have "acct (job_list s) (tr s')" using acct_drop [of _ es0 pg "nlive j" "tr s" "tr s'"] assms(2) s'(5) by simp
  with assms(1) have "sinv base L None (\<lambda>_. alive) s'"
    by (auto simp: launching_def sinv_def dinv_def s')
  then show ?thesis by (auto simp: ready_def)
qed

lemma fds_ok_add:
  assumes t: "fds_ok base t (T(w := None))" and w: "0 \<le> w" "base w = None" "w \<notin> set (in_fds t)" "T w = Some (InWrite k)"
    and "infd j = w"
  shows "fds_ok base (t @ [(a, j)]) T"
proof -
  have "base n = None \<and> (\<exists>k. T n = Some (InWrite k))" if "n \<in> set (in_fds t)" for n
  proof -
    have "n \<noteq> w" using that w(3) by blast
    with t that show ?thesis by (auto simp: fds_ok_def)
  qed
  moreover have "T n = base n" if "n \<notin> set (in_fds t)" "n \<noteq> w" for n
    using t that by (auto simp: fds_ok_def)
  moreover have "distinct (in_fds t)" using t by (simp add: fds_ok_def)
  ultimately show ?thesis using w assms(6) unfolding fds_ok_def by simp
qed

lemma launching_added:
  assumes l: "launching base L w pg j s" and n: "nlive j \<noteq> 0"
    and add: "jobs_add (Some a) (j\<lparr>pgid := pg, infd := fd\<rparr>) (job_list s) = (Some a, t)" and a: "a \<notin> set L"
    and fd: "fd = w \<and> T = fdt (self s) \<or> fd = -1 \<and> T = (fdt (self s))(w := None)"
    and s': "job_list s' = t" "fg_job s' = fg_job s" "inbuf s' = inbuf s" "fdt (self s') = T" "tr s' = tr s"
  shows "sinv base (L @ [a]) None (\<lambda>_. alive) s'"
proof -
  from l obtain es0 k where z: "acct (job_list s) es0" "new_group es0 pg (nlive j) (tr s)"
    "fds_ok base (job_list s) ((fdt (self s))(w := None))" "0 \<le> w" "base w = None" "w \<notin> set (in_fds (job_list s))"
    "fdt (self s) w = Some (InWrite k)" "tab_inv (job_list s)"
    and alive: "\<forall>(b, k) \<in> set (job_list s). alive (nlive k) (state k)" and st: "state j \<noteq> JOB_DONE"
    by (auto simp: launching_def)
  from add obtain m where t: "t = job_list s @ [(a, (rebase_pointers a (j\<lparr>pgid := pg, infd := fd\<rparr>))\<lparr>jid := m\<rparr>)]"
    using jobs_add_Some by metis
  let ?j = "(rebase_pointers a (j\<lparr>pgid := pg, infd := fd\<rparr>))\<lparr>jid := m\<rparr>"
  have f: "pgid ?j = pg" "nlive ?j = nlive j" "state ?j = state j" "infd ?j = fd"
    by (simp_all add: rebase_pointers_def)
  have n0: "0 < nlive j" using n z(2) by (auto simp: new_group_def)
  have "acct t (tr s)"
    unfolding t by (rule acct_add [OF z(1)]) (use z(2) n0 alive f in auto)
  moreover have "tab_inv t"
    using jobs_add_inv [OF z(8), of "Some a" "j\<lparr>pgid := pg, infd := fd\<rparr>"] add a l
    by (auto simp: launching_def)
  moreover have "fds_ok base t T"
    using fd
  proof
    assume "fd = w \<and> T = fdt (self s)"
    then show ?thesis unfolding t using fds_ok_add [OF z(3) z(4-7), of ?j a] f(4) by simp
  next
    assume "fd = -1 \<and> T = (fdt (self s))(w := None)"
    then show ?thesis unfolding t using fds_ok_cong [of t "job_list s"] z(3) f(4) by (simp add: t)
  qed
  moreover have "\<forall>(b, k) \<in> set t. alive (nlive k) (state k)"
    using alive n0 st f unfolding t by auto
  ultimately show ?thesis using l by (auto simp: launching_def sinv_def dinv_def s' t)
qed

text \<open>What \<^verbatim>\<open>exec_job\<close> does from there leaves the session ready for the next message.\<close>

lemma adopt_job_leads:
  assumes "adopt_job inpipe pg j s = Some s'" and w: "w = snd inpipe"
  shows "leads (launching base L w pg j) s (ready base) s'"
proof (cases "nlive j = 0")
  case True
  with assms have "s' = d_fdt (c_close w) s" by (simp add: adopt_job_def)
  with launching_none True show ?thesis by (auto simp: leads_def grows_def d_fdt_def)
next
  case False
  let ?s1 = "if background j then d_fdt (c_close w) s else s"
  let ?fd = "if background j then -1 else w"
  let ?j = "j\<lparr>pgid := pg, infd := ?fd\<rparr>"
  have dm: "job_list ?s1 = job_list s" "mlc ?s1 = mlc s" "d_malloc ?s1 = d_malloc s"
    by (simp_all add: d_fdt_def d_malloc_def)
  have fdj: "infd ?j = ?fd" by simp
  obtain m t where add: "jobs_add (d_malloc s) ?j (job_list s) = (m, t)" by (metis prod.exhaust)
  define e where "e \<longleftrightarrow> eintr ?s1 \<and> (m \<noteq> None \<or> jobs_count (job_list ?s1) \<ge> YASH_MAX_JOBS)"
  let ?s2 = "?s1\<lparr>job_list := t, mlc := tick (mlc ?s1), eintr := e\<rparr>"
  have addd: "jobs_add_d ?j ?s1 = (m, ?s2)" unfolding jobs_add_d_def dm add e_def by simp
  have eq: "adopt_job inpipe pg j s =
      (case m of
         None \<Rightarrow>
           let s3 = d_emit [EKill (- pg) SIGKILL] ?s2
           in Some (if infd ?j \<ge> 0 then d_fdt (c_close (infd ?j)) s3 else s3)
       | Some a \<Rightarrow> if background (the_job a ?s2) then Some ?s2 else run_fg a ?s2)"
    unfolding adopt_job_def Let_def if_not_P [OF False] w [symmetric] addd prod.case by (rule refl)
  show ?thesis
  proof (cases m)
    case None
    let ?s3 = "d_emit [EKill (- pg) SIGKILL] ?s2"
    have t: "t = job_list s" using add None by (auto simp: jobs_add_def Let_def split: if_splits option.splits)
    have s': "s' = (if ?fd \<ge> 0 then d_fdt (c_close ?fd) ?s3 else ?s3)"
      using assms(1) unfolding eq None fdj by (auto simp only: option.case Let_def option.inject)
    have "ready base s'" if l: "launching base L w pg j s"
    proof (rule launching_refused [OF l False])
      have "0 \<le> w" using l by (auto simp: launching_def)
      then show "fdt (self s') = (fdt (self s))(w := None)" by (auto simp: s' d_fdt_def d_emit_def c_close_def)
    qed (simp_all add: s' t d_emit_def d_fdt_def)
    then show ?thesis by (simp add: leads_def grows_def s' d_emit_def d_fdt_def)
  next
    case (Some a)
    have mal: "d_malloc s = Some a" using jobs_add_Some add Some by metis
    have "a \<notin> fst ` set (job_list s)" using d_malloc_fresh [OF mal] .
    then have bg: "background (job_at a t) = background j"
      using jobs_add_Some [of _ ?j _ a t] add Some job_at_at [of a "job_list s" _ "[]"] by fastforce
    have "job_list ?s2 = t" by simp
    with bg have bg': "background (the_job a ?s2) = background j" by (simp only:)
    have run: "(if background j then Some ?s2 else run_fg a ?s2) = Some s'"
      using assms(1) unfolding eq Some option.case bg' .
    have inv: "sinv base (L @ [a]) None (\<lambda>_. alive) ?s2" if l: "launching base L w pg j s"
    proof -
      have "a \<notin> set L" using d_malloc_fresh [OF mal] l by (auto simp: launching_def)
      then show ?thesis
        by (intro launching_added [OF l False, where fd = ?fd and T = "fdt (self ?s2)"])
          (use add Some mal in \<open>auto simp: d_fdt_def c_close_def\<close>)
    qed
    show ?thesis
    proof (cases "background j")
      case True
      with run inv show ?thesis by (auto simp: leads_def grows_def ready_def d_fdt_def)
    next
      case bg: False
      have "leads (launching base L w pg j) s (sinv base (L @ [a]) None (waiting a)) ?s2"
        using inv bg by (auto simp: leads_def grows_def d_fdt_def waiting_def intro: sinv_mono)
      also have "leads (sinv base (L @ [a]) None (waiting a)) ?s2 (ready base) s'"
        by (rule run_fg_leads) (use run bg in simp_all)
      finally show ?thesis .
    qed
  qed
qed

section \<open>exec\_job\<close>

lemma c_inpipe_Some:
  assumes "c_inpipe lim k t = Some ((r, w), t')"
  shows "r \<noteq> w \<and> 0 \<le> r \<and> 0 \<le> w \<and> r < int lim \<and> w < int lim \<and> t r = None \<and> t w = None
    \<and> t' = t(r \<mapsto> InRead k, w \<mapsto> InWrite k)"
  using assms by (auto simp: c_inpipe_def dest!: fd_alloc_Some split: option.splits if_splits)

lemma leads_ready:
  "(\<And>L. leads (sinv base L None (\<lambda>_. alive)) s (sinv base L None (\<lambda>_. alive)) s') \<Longrightarrow> leads (ready base) s (ready base) s'"
  by (auto simp: leads_def ready_def)

text \<open>The table the parent is left with when it has closed what it does not keep.\<close>

lemma parent_fds:
  assumes ip: "c_inpipe lim k T0 = Some ((r, w), t)"
    and fd: "(if piped then c_pipe lim t else Some ((-1, -1), t)) = Some (fds, t1)"
  shows "c_close r (if fst fds \<noteq> -1 then c_close (snd fds) (c_close (fst fds) t1) else t1) = T0(w \<mapsto> InWrite k)"
proof -
  note i = c_inpipe_Some [OF ip]
  show ?thesis
  proof (cases piped)
    case True
    obtain r2 w2 where f: "fds = (r2, w2)" by (cases fds)
    with fd True have p: "r2 \<noteq> w2" "0 \<le> r2" "t r2 = None" "t w2 = None" "t1 = t(r2 \<mapsto> PipeRead, w2 \<mapsto> PipeWrite)"
      using c_pipe_Some by auto
    with i f show ?thesis by (auto simp: c_close_def fun_eq_iff)
  next
    case False
    then have "t1 = t" "fst fds = -1" using fd by auto
    moreover have "t = T0(r \<mapsto> InRead k, w \<mapsto> InWrite k)" using i by blast
    ultimately show ?thesis using i by (auto simp: c_close_def fun_eq_iff)
  qed
qed

lemma launching_start:
  assumes "ready base s" and ip: "c_inpipe lim k (fdt (self s)) = Some ((r, w), t)"
    and "new_group (tr s) pg (nlive j) (tr s5)" and "state j \<noteq> JOB_DONE"
    and s5: "job_list s5 = job_list s" "fg_job s5 = fg_job s" "inbuf s5 = inbuf s"
      "fdt (self s5) = (fdt (self s))(w \<mapsto> InWrite k)"
  shows "launching base (map fst (job_list s)) w pg j s5"
proof -
  note i = c_inpipe_Some [OF ip]
  from assms(1) obtain L where q: "sinv base L None (\<lambda>_. alive) s" by (auto simp: ready_def)
  then have f: "fds_ok base (job_list s) (fdt (self s))" by (simp add: sinv_def dinv_def)
  have "w \<notin> set (in_fds (job_list s))" using f i by (auto simp: fds_ok_def)
  moreover from this f i have "base w = None" by (metis fds_ok_def)
  moreover have "(fdt (self s5))(w := None) = fdt (self s)" using i by (auto simp: s5 fun_eq_iff)
  ultimately show ?thesis
    using q assms(3,4) i f unfolding launching_def s5 by (intro exI [of _ "tr s"]) (auto simp: sinv_def dinv_def)
qed

lemma exec_job_d_leads:
  assumes run: "exec_job_d os proto0 s = Some s'" and p0: "nlive proto0 = 0" "state proto0 \<noteq> JOB_DONE"
  shows "leads (ready base) s (ready base) s'"
proof (cases "if pok s 0 then c_inpipe (fd_max os) (npipes s) (fdt (self s)) else None")
  case None
  with run have "s' = s\<lparr>pok := tick (pok s), eintr := False\<rparr>" by (simp add: exec_job_d_def Let_def)
  then show ?thesis by (auto intro!: leads_ready leads_same)
next
  case (Some q)
  obtain r w t where q: "q = ((r, w), t)" by (metis prod.exhaust)
  have ip: "c_inpipe (fd_max os) (npipes s) (fdt (self s)) = Some ((r, w), t)"
    using Some q by (simp split: if_splits)
  let ?proto = "proto0\<lparr>infd := -1\<rparr>"
  let ?s1 = "d_fdt (\<lambda>_. t) (s\<lparr>pok := tick (pok s), npipes := npipes s + 1\<rparr>)"
  have T1: "fdt (self ?s1) = t" by (simp add: d_fdt_def)
  let ?fd = "if ncmds ?proto = 2 then (if pok ?s1 0 then c_pipe (fd_max os) t else None) else Some ((-1, -1), t)"
  have eq: "exec_job_d os proto0 s =
      (case ?fd of
         None \<Rightarrow> Some (d_fdt (c_close w \<circ> c_close r) (?s1\<lparr>pok := tick (pok ?s1), eintr := False\<rparr>))
       | Some (fds, t1) \<Rightarrow>
           (case fork_loop_d os (r, w) fds 0 0 ?proto
                   (d_fdt (\<lambda>_. t1) (if ncmds ?proto = 2 then ?s1\<lparr>pok := tick (pok ?s1)\<rparr> else ?s1)) of
              (pg, proto1, s3) \<Rightarrow>
                adopt_job (r, w) pg proto1
                  (d_fdt (c_close r) (if fst fds \<noteq> -1 then d_fdt (c_close (snd fds) \<circ> c_close (fst fds)) s3 else s3))))"
    unfolding exec_job_d_def Let_def Some q option.case prod.case fst_conv snd_conv T1 by (rule refl)
  show ?thesis
  proof (cases ?fd)
    case None
    have s': "s' = d_fdt (c_close w \<circ> c_close r) (?s1\<lparr>pok := tick (pok ?s1), eintr := False\<rparr>)"
      using run unfolding eq None by simp
    have "fdt (self s') = fdt (self s)"
      using c_inpipe_Some [OF ip] by (auto simp: s' d_fdt_def c_close_def fun_eq_iff)
    then show ?thesis by (intro leads_ready leads_same) (simp_all add: s' d_fdt_def)
  next
    case (Some f)
    obtain fds t1 where f: "f = (fds, t1)" by (cases f)
    let ?s2 = "d_fdt (\<lambda>_. t1) (if ncmds ?proto = 2 then ?s1\<lparr>pok := tick (pok ?s1)\<rparr> else ?s1)"
    obtain pg proto1 s3 where fl: "fork_loop_d os (r, w) fds 0 0 ?proto ?s2 = (pg, proto1, s3)" by (metis prod_cases3)
    let ?s5 = "d_fdt (c_close r) (if fst fds \<noteq> -1 then d_fdt (c_close (snd fds) \<circ> c_close (fst fds)) s3 else s3)"
    have adopt: "adopt_job (r, w) pg proto1 ?s5 = Some s'"
      using run unfolding eq Some f option.case prod.case fl .
    have s2: "job_list ?s2 = job_list s" "fg_job ?s2 = fg_job s" "inbuf ?s2 = inbuf s" "tr ?s2 = tr s" "cfd ?s2 = cfd s"
      "fdt (self ?s2) = t1"
      by (simp_all add: d_fdt_def)
    note facts = fork_loop_d_facts [OF fl, of "tr s"]
    have "c_close r (if fst fds \<noteq> -1 then c_close (snd fds) (c_close (fst fds) t1) else t1)
        = (fdt (self s))(w \<mapsto> InWrite (npipes s))"
      by (rule parent_fds [OF ip, of "ncmds ?proto = 2"]) (use Some f in \<open>auto split: if_splits\<close>)
    moreover have "fdt (self s3) = t1" using facts s2 by (simp add: d_frame_def)
    ultimately have T5: "fdt (self ?s5) = (fdt (self s))(w \<mapsto> InWrite (npipes s))"
      by (simp add: d_fdt_def split: if_splits)
    have s5: "job_list ?s5 = job_list s" "fg_job ?s5 = fg_job s" "inbuf ?s5 = inbuf s" "tr ?s5 = tr s3" "cfd ?s5 = cfd s"
      using facts s2 by (simp_all add: d_frame_def d_fdt_def)
    have "launching base (map fst (job_list s)) w pg proto1 ?s5" if "ready base s" "d_honest (tr ?s5)"
    proof (rule launching_start [OF that(1) ip _ _ s5(1-3) T5])
      show "new_group (tr s) pg (nlive proto1) (tr ?s5)"
        using facts that(2) p0(1) s5(4) s2(4) by (simp add: new_group_def)
      show "state proto1 \<noteq> JOB_DONE" using facts p0(2) by simp
    qed
    moreover have "grows s ?s5" using facts s2 s5 by (simp add: grows_def)
    ultimately have "leads (ready base) s (launching base (map fst (job_list s)) w pg proto1) ?s5"
      by (simp add: leads_def)
    also have "leads (launching base (map fst (job_list s)) w pg proto1) ?s5 (ready base) s'"
      by (rule adopt_job_leads [OF adopt]) simp
    finally show ?thesis .
  qed
qed

section \<open>Builtins and messages\<close>

lemma leads_ready_output: "output_only s s' \<Longrightarrow> leads (ready base) s (ready base) s'"
  by (rule leads_ready) (rule leads_output)

lemma jobs_print_one_leads: "jobs_print_one_d j m st s = Some s' \<Longrightarrow> leads (ready base) s (ready base) s'"
  by (auto simp: jobs_print_one_d_def dest!: session_printf_output intro: leads_ready_output)

lemma print_jobs_leads: "print_jobs cur t s = Some s' \<Longrightarrow> leads (ready base) s (ready base) s'"
proof (induction cur t s rule: print_jobs.induct)
  case (2 cur a j t s)
  then obtain s1 where "jobs_print_one_d j (if Some a = cur then CHR ''+'' else CHR ''-'')
      (if state j = JOB_STOPPED then ''Stopped'' else ''Running'') s = Some s1" "print_jobs cur t s1 = Some s'"
    by (auto split: Option.bind_splits)
  with 2(1) jobs_print_one_leads show ?case by (blast intro: leads_trans)
qed simp

lemma current_listed:
  "jobs_current t = Some a \<Longrightarrow> a \<in> fst ` set t" "jobs_recent_stopped t = Some a \<Longrightarrow> a \<in> fst ` set t"
proof -
  have "last_such P found t = Some a \<Longrightarrow> found = Some a \<or> a \<in> fst ` set t" for P found
    by (induction P found t rule: last_such.induct) (auto split: if_splits)
  then show "jobs_current t = Some a \<Longrightarrow> a \<in> fst ` set t" "jobs_recent_stopped t = Some a \<Longrightarrow> a \<in> fst ` set t"
    by (auto simp: jobs_current_def jobs_recent_stopped_def)
qed

lemma leads_ready_L:
  assumes "leads (sinv base (map fst (job_list s)) None (\<lambda>_. alive)) s Q s'"
  shows "leads (ready base) s Q s'"
  using assms by (auto simp: leads_def ready_def sinv_def)

lemma do_fg_leads:
  assumes "do_fg_d s = Some s'"
  shows "leads (ready base) s (ready base) s'"
proof (cases "jobs_current (job_list s)")
  case (Some a)
  let ?L = "map fst (job_list s)"
  let ?I = "sinv base ?L None (\<lambda>_. alive)"
  have a: "a \<in> set ?L" using current_listed(1) [OF Some] by simp
  from assms Some obtain r s1 where out: "session_printf (cstr (cmdline (the_job a s)) 0 @ [LF]) s = Some (r, s1)"
    by (auto simp: do_fg_d_def split: Option.bind_splits)
  let ?s2 = "d_job a (\<lambda>j. j\<lparr>background := False\<rparr>) s1"
  let ?s3 = "if state (the_job a ?s2) = JOB_STOPPED then d_emit [EKill (- pgid (the_job a ?s2)) SIGCONT] ?s2 else ?s2"
  let ?s4 = "d_job a (\<lambda>j. j\<lparr>state := JOB_RUNNING\<rparr>) ?s3"
  have run: "run_fg a ?s4 = Some s'"
    using assms Some out by (simp add: do_fg_d_def Let_def)
  have "leads ?I s ?I s1" by (rule leads_output [OF session_printf_output [OF out]])
  also have "leads ?I s1 ?I ?s2" by (rule leads_job [OF a]) auto
  also have "leads ?I ?s2 ?I ?s3" using leads_emit [of "[EKill (- pgid (the_job a ?s2)) SIGCONT]"] by simp
  also have "leads ?I ?s3 (sinv base ?L None (waiting a)) ?s4"
    by (rule leads_job [OF a]) (auto simp: waiting_def)
  also have "leads (sinv base ?L None (waiting a)) ?s4 (ready base) s'" by (rule run_fg_leads [OF run a])
  finally show ?thesis by (rule leads_ready_L)
qed (use assms in \<open>simp add: do_fg_d_def\<close>)

lemma do_bg_leads:
  assumes "do_bg_d s = Some s'"
  shows "leads (ready base) s (ready base) s'"
proof (cases "jobs_recent_stopped (job_list s)")
  case (Some a)
  let ?L = "map fst (job_list s)"
  let ?I = "sinv base ?L None (\<lambda>_. alive)"
  have a: "a \<in> set ?L" using current_listed(2) [OF Some] by simp
  let ?s1 = "d_emit [EKill (- pgid (the_job a s)) SIGCONT] s"
  let ?s2 = "d_job a (\<lambda>j. j\<lparr>state := JOB_RUNNING, background := True\<rparr>) ?s1"
  have "jobs_print_one_d (the_job a ?s2) (CHR ''+'') ''Running'' ?s2 = Some s'"
    using assms Some by (simp add: do_bg_d_def Let_def)
  then have out: "output_only ?s2 s'" by (auto simp: jobs_print_one_d_def dest: session_printf_output)
  have "leads ?I s ?I ?s1" by (rule leads_emit) simp
  also have "leads ?I ?s1 ?I ?s2" by (rule leads_job [OF a]) auto
  also have "leads ?I ?s2 ?I s'" by (rule leads_output [OF out])
  finally have "leads ?I s (ready base) s'" by (auto simp: leads_def ready_def)
  then show ?thesis by (rule leads_ready_L)
qed (use assms in \<open>simp add: do_bg_d_def\<close>)

lemma builtin_try_leads:
  assumes "builtin_try_d job s = Some (r, s')"
  shows "leads (ready base) s (ready base) s'"
  using assms do_fg_leads do_bg_leads print_jobs_leads
  by (auto simp: builtin_try_d_def jobs_print_d_def Let_def split: if_splits)

lemma parse_line_d_ok:
  assumes "parse_line_d line j0 = (PARSE_OK, job)" and "NUL \<notin> set line"
  shows "nlive job = 0 \<and> state job = JOB_RUNNING"
proof -
  have "length line \<le> YASH_MAX_LINE"
    using assms(1) parse_into_too_long [of line "zero_job (djob.fields (-1))" 0 j0]
    by (intro leI notI) (simp add: parse_line_d_def)
  with parse_into_cases [OF assms(2) _ assms(1) [unfolded parse_line_d_def]] show ?thesis by auto
qed

lemma handle_cmd_leads:
  assumes "handle_cmd os line s = Some s'" and "NUL \<notin> set line"
  shows "leads (ready base) s (ready base) s'"
proof -
  obtain st job where p: "parse_line_d line (zero_job (djob.fields 0)) = (st, job)" by (metis prod.exhaust)
  let ?s1 = "log_command line s"
  have l: "leads (ready base) s (ready base) ?s1"
    by (intro leads_ready leads_same) (simp_all add: log_command_def Let_def split: option.split)
  show ?thesis
  proof (cases "st = PARSE_OK")
    case False
    with assms p show ?thesis by (simp add: handle_cmd_def)
  next
    case True
    note job = parse_line_d_ok [OF p [unfolded True] assms(2)]
    show ?thesis
    proof (cases "str_at (buf job) (the (argv (cmds job ! 0) ! 0)) = ''quit'' \<and> ncmds job = 1")
      case quit: True
      then have "s' = ?s1\<lparr>quit := True\<rparr>" using assms p True by (simp add: handle_cmd_def Let_def)
      moreover have "leads (ready base) ?s1 (ready base) (?s1\<lparr>quit := True\<rparr>)"
        by (intro leads_ready leads_same) simp_all
      ultimately show ?thesis using l by (blast intro: leads_trans)
    next
      case False
      with assms p True obtain r s2 where b: "builtin_try_d job ?s1 = Some (r, s2)"
        and e: "(if r then Some s2 else exec_job_d os job s2) = Some s'"
        by (auto simp: handle_cmd_def Let_def split: Option.bind_splits)
      have "leads (ready base) s2 (ready base) s'"
        using e job exec_job_d_leads [of os job s2 s'] by (cases r) auto
      with l builtin_try_leads [OF b] show ?thesis by (blast intro: leads_trans)
    qed
  qed
qed

end
