(* ===== verification/Yashd_Props.thy ===== *)
theory Yashd_Props
  imports Yashd_Launch
begin

text \<open>
  The whole life of a session of the daemon: the main loop keeps the session invariant from message
  to message, the end of the session kills and waits for every job, and what is left is the
  daemon as it was, without the client's descriptor.
\<close>

section \<open>The main loop\<close>

lemma leads_line:
  assumes "buf_take_line n s = Some (line, s')"
  shows "leads (ready base) s (ready base) s' \<and> NUL \<notin> set line"
proof -
  have "leads (ready base) s (ready base) s'"
    using buf_take_line_leads [OF assms] by (intro leads_ready) blast
  moreover have "NUL \<notin> set line" using assms by (auto simp: buf_take_line_def Let_def split: if_splits)
  ultimately show ?thesis by blast
qed

lemma readsocket_leads:
  assumes "session_readsocket n s = Some (r, line, s')"
  shows "leads (ready base) s (ready base) s' \<and> NUL \<notin> set line"
proof -
  let ?P = "\<lambda>s q. leads (ready base) s (ready base) (snd (snd q)) \<and> NUL \<notin> set (fst (snd q))"
  have "?P s (r, line, s')"
  proof (rule session_readsocket.raw_induct [OF _ assms])
    fix rec n and s :: dsess and q
    assume IH: "\<And>n s q. rec n s = Some q \<Longrightarrow> ?P s q"
      and body: "(case buf_take_line n s of
          None \<Rightarrow> buf_fill s \<bind> (\<lambda>(r, s1). if r = 0 then Some (0, [], s1)
                else if r < 0 then if eintr s1 then rec n s1 else Some (-1, [], s1) else rec n s1)
        | Some (line, s') \<Rightarrow> Some (1, line, s')) = Some q"
    show "?P s q"
    proof (cases "buf_take_line n s")
      case None
      with body obtain r s1 where f: "buf_fill s = Some (r, s1)" by (auto split: Option.bind_splits)
      have l: "leads (ready base) s (ready base) s1" using buf_fill_leads [OF f] by (intro leads_ready) blast
      consider "rec n s1 = Some q" | k where "q = (k, [], s1)"
        using body None f by (auto split: if_splits)
      then show ?thesis
      proof cases
        case 1
        with IH [OF 1] l show ?thesis by (blast intro: leads_trans)
      qed (use l in simp)
    next
      case (Some p)
      then show ?thesis using body leads_line by (cases p) auto
    qed
  qed
  then show ?thesis by simp
qed

lemma ready_fg: "ready base s \<Longrightarrow> fg_job s = None"
  by (auto simp: ready_def sinv_def)

lemma leads_idle:
  assumes "\<And>L F. set_option F \<subseteq> set L \<Longrightarrow> fg_job s = F \<Longrightarrow> leads (sinv base L F (\<lambda>_. alive)) s (sinv base L F (\<lambda>_. alive)) s'"
  shows "leads (ready base) s (ready base) s'"
proof -
  obtain L where "set_option (fg_job s) \<subseteq> set L"
    by (cases "fg_job s") (auto intro: that [of "[]"] that [of "[the (fg_job s)]"])
  with assms have "grows s s'" by (auto simp: leads_def)
  moreover have "ready base s'" if "ready base s" "d_honest (tr s')"
    using that assms [of None] ready_fg [OF that(1)] by (auto simp: leads_def ready_def)
  ultimately show ?thesis by (simp add: leads_def)
qed

lemma dispatch_leads:
  assumes "dispatch os line s = Some s'" and "NUL \<notin> set line"
  shows "leads (ready base) s (ready base) s'"
proof -
  have n: "NUL \<notin> set (drop MSG_PREFIX_LEN line)" using assms(2) by (auto dest: in_set_dropD)
  have "leads (ready base) s (ready base) (handle_ctl (drop MSG_PREFIX_LEN line) s)"
    by (intro leads_idle leads_handle_ctl)
  moreover have "leads (ready base) s (ready base) s'" if "handle_text line s = Some s'"
    using that by (intro leads_idle leads_handle_text)
  ultimately show ?thesis
    using assms(1) handle_cmd_leads [OF _ n] by (auto simp: dispatch_def split: if_splits)
qed

lemma session_loop_leads:
  assumes "session_loop os s = Some s'"
  shows "leads (ready base) s (ready base) s'"
proof (rule session_loop.raw_induct [OF _ assms])
  fix rec os s s'
  assume IH: "\<And>os s s'. rec os s = Some s' \<Longrightarrow> leads (ready base) s (ready base) s'"
    and body: "jobs_reap_d s \<bind> (\<lambda>s1. session_prompt s1 \<bind> (\<lambda>(r, s2). if r < 0 then Some s2
        else session_readsocket YASH_BUF_SIZE s2 \<bind> (\<lambda>(n, line, s3). if n \<le> 0 then Some s3
          else dispatch os line s3 \<bind> (\<lambda>s4. if quit s4 then Some s4 else rec os s4)))) = Some s'"
  obtain s1 r s2 where a: "jobs_reap_d s = Some s1" "session_prompt s1 = Some (r, s2)"
    using body by (auto split: Option.bind_splits)
  have l2: "leads (ready base) s (ready base) s2"
    using jobs_reap_leads [OF a(1)] leads_ready_output [OF session_prompt_output [OF a(2)]] by (rule leads_trans)
  show "leads (ready base) s (ready base) s'"
  proof (cases "r < 0")
    case True
    with body a l2 show ?thesis by simp
  next
    case False
    then obtain n line s3 where b: "session_readsocket YASH_BUF_SIZE s2 = Some (n, line, s3)"
      using body a by (auto split: Option.bind_splits)
    note l3 = readsocket_leads [OF b, of base]
    show ?thesis
    proof (cases "n \<le> 0")
      case True
      with body a b \<open>\<not> r < 0\<close> have "s' = s3" by simp
      with l2 l3 show ?thesis by (auto intro: leads_trans)
    next
      case False
      then obtain s4 where d: "dispatch os line s3 = Some s4" and e: "(if quit s4 then Some s4 else rec os s4) = Some s'"
        using body a b \<open>\<not> r < 0\<close> by (auto split: Option.bind_splits)
      have "leads (ready base) s4 (ready base) s'" using e IH by (auto split: if_splits)
      with l2 l3 dispatch_leads [OF d] show ?thesis by (blast intro: leads_trans)
    qed
  qed
qed

section \<open>The end of a session\<close>

lemma kill_jobs_facts:
  assumes "kill_jobs t s = Some s'"
  shows "grows s s' \<and> (\<forall>p g. unkilled (tr s') p = Some g \<longrightarrow> unkilled (tr s) p = Some g \<and> g \<notin> pgid ` snd ` set t)
    \<and> (\<forall>n. fdt (self s') n = (if n \<in> set (in_fds t) then None else fdt (self s) n))"
  using assms
proof (induction t s rule: kill_jobs.induct)
  case (2 a j t s)
  let ?s1 = "d_emit [EKill (- pgid j) SIGKILL] s"
  let ?s2 = "if infd j \<ge> 0 then d_fdt (c_close (infd j)) ?s1 else ?s1"
  from 2(2) obtain ws ei where k: "kill_wait (wts ?s2) (eintr ?s2) (nlive j) = Some (ws, ei)"
    and r: "kill_jobs t (d_emit (map (EWait (Some (pgid j))) (consumed (wts ?s2) ws)) (?s2\<lparr>eintr := ei, wts := ws\<rparr>)) = Some s'"
    by (auto simp: Let_def split: Option.bind_splits)
  define s3 where "s3 = d_emit (map (EWait (Some (pgid j))) (consumed (wts ?s2) ws)) (?s2\<lparr>eintr := ei, wts := ws\<rparr>)"
  have IH: "grows s3 s' \<and> (\<forall>p g. unkilled (tr s') p = Some g \<longrightarrow> unkilled (tr s3) p = Some g \<and> g \<notin> pgid ` snd ` set t)
    \<and> (\<forall>n. fdt (self s') n = (if n \<in> set (in_fds t) then None else fdt (self s3) n))"
    using 2(1) [OF refl refl k refl r] by (simp add: s3_def)
  have tr3: "tr s3 = tr ?s1 @ map (EWait (Some (pgid j))) (consumed (wts ?s2) ws)"
    by (simp add: s3_def d_emit_def d_fdt_def)
  have u: "unkilled (tr s) p = Some g \<and> g \<noteq> pgid j" if "unkilled (tr s3) p = Some g" for p g
  proof -
    from that have "unkilled (tr ?s1) p = Some g" unfolding tr3 by (rule unkilled_waits)
    then show ?thesis by (auto simp: d_emit_def ustep_def split: if_splits)
  qed
  have "unkilled (tr s) p = Some g \<and> g \<notin> pgid ` snd ` set ((a, j) # t)" if "unkilled (tr s') p = Some g" for p g
  proof -
    have "unkilled (tr s3) p = Some g" "g \<notin> pgid ` snd ` set t" using IH that by blast+
    with u [of p g] show ?thesis by simp
  qed
  moreover have "fdt (self s3) n = (if infd j \<ge> 0 \<and> n = infd j then None else fdt (self s) n)" for n
    by (simp add: s3_def d_emit_def d_fdt_def c_close_def)
  moreover have "grows s s3" by (simp add: s3_def grows_def d_emit_def d_fdt_def)
  ultimately show ?case using IH by (auto simp: grows_def)
qed simp

lemma ready_start:
  assumes "session_create c fd peer env = Some s" and "tr env = []"
  shows "ready (fdt (self env)) s"
proof -
  have s: "s = jobs_init_d (env\<lparr>cfd := fd, peer_ip := fst peer, peer_port := snd peer, inbuf := [], quit := False\<rparr>)"
    using assms(1) by (auto simp: session_create_def split: if_splits)
  have "sinv (fdt (self env)) [] None (\<lambda>_. alive) s"
    by (simp add: s jobs_init_d_def sinv_def dinv_def acct_def assms(2) fds_ok_def tab_inv_def)
  then show ?thesis by (auto simp: ready_def)
qed

text \<open>
  C3. A session leaves nothing behind. From the moment the session is created for the descriptor
  \<open>fd\<close>, whatever the client sends, however the connection ends and whatever commands were launched,
  stopped, continued or refused: when \<^verbatim>\<open>session_main\<close> returns, every process the session
  forked has been waited for or sent a \<^verbatim>\<open>SIGKILL\<close>, the job table is empty, and the daemon's
  descriptor table is the one it had, without \<open>fd\<close>: no pipe end is leaked and no foreign descriptor
  closed.
\<close>

theorem session_leaves_nothing:
  assumes "session_create True fd peer env = Some s" and "tr env = []"
    and "session_main os s = Some s'" and "d_honest (tr s')"
  shows "unkilled (tr s') = Map.empty \<and> job_list s' = [] \<and> fg_job s' = None
    \<and> fdt (self s') = (fdt (self env))(fd := None)"
proof -
  let ?base = "fdt (self env)"
  from assms(3) obtain s1 s2 where l: "session_loop os s = Some s1" and k: "kill_jobs (job_list s1) s1 = Some s2"
    and s': "s' = d_fdt (c_close (cfd s2)) (s2\<lparr>job_list := [], fg_job := None\<rparr>)"
    by (auto simp: session_main_def session_destroy_def jobs_kill_all_d_def split: Option.bind_splits)
  note f = kill_jobs_facts [OF k]
  have tr: "tr s' = tr s2" by (simp add: s' d_fdt_def)
  have "d_honest (tr s1)" using f assms(4) tr by (auto simp: grows_def)
  with session_loop_leads [OF l, of ?base] ready_start [OF assms(1,2)] have r: "ready ?base s1" "cfd s1 = cfd s"
    by (auto simp: leads_def grows_def)
  have "cfd s2 = fd" using f r(2) assms(1) by (auto simp: grows_def session_create_def jobs_init_d_def)
  from r(1) obtain L where q: "acct (job_list s1) (tr s1)" "fds_ok ?base (job_list s1) (fdt (self s1))"
    by (auto simp: ready_def sinv_def dinv_def)
  have "unkilled (tr s2) p \<noteq> Some g" for p g
    using f q(1) by (force simp: acct_def)
  then have "unkilled (tr s') = Map.empty" unfolding tr by (intro ext) (metis option.exhaust)
  moreover have "fdt (self s2) n = ?base n" for n
    using f q(2) by (auto simp: fds_ok_def)
  then have "fdt (self s') = ?base(fd := None)" by (auto simp: s' d_fdt_def c_close_def \<open>cfd s2 = fd\<close> fun_eq_iff)
  ultimately show ?thesis by (simp add: s' d_fdt_def)
qed

section \<open>A sample session\<close>

text \<open>A client that runs a command, types a line for it, stops it, and disconnects.\<close>

definition demo_self :: proc where
  "demo_self = \<lparr>fdt = [0 \<mapsto> Inherited 0, 1 \<mapsto> Inherited 1, 2 \<mapsto> Inherited 2, 5 \<mapsto> Socket],
     sigs = \<lambda>_. SIG_DFL, grp = 1, opened = [], errors = []\<rparr>"

definition demo_env :: dsess where
  "demo_env = \<lparr>cfd = 0, peer_ip = [], peer_port = 0, inbuf = [], quit = False, eintr = False,
     rds = [RData ''CMD c'', RIntr, RData (''at'' @ [LF] @ ''hi''), RData ([LF] @ ''CTL z'' @ [LF]), REof],
     wrs = replicate 4 (WrSome 3), sent = [],
     job_list = [], fg_job = None, self = demo_self, npipes = 0, log_on = False,
     sels = [SelTimeout, SelReady], pws = [WrSome 2, WrSome 1],
     wts = [WNothing, WChange 7 WStopped, WNothing, WChange 7 WExited],
     fks = \<lambda>n. 7 + int n, mlc = \<lambda>_. Some 0, pok = \<lambda>_. True, stamps = \<lambda>_. None,
     tr = [], fed = [], logged = []\<rparr>"

definition demo_sess :: dsess where
  "demo_sess = demo_env\<lparr>cfd := 5, peer_ip := ''10.0.0.1'', peer_port := 99\<rparr>"

declare session_readsocket.simps [code] drain.simps [code] wait_loop.simps [code] session_loop.simps [code]

lemma demo_create: "session_create True 5 (''10.0.0.1'', 99) demo_env = Some demo_sess"
  by (simp add: session_create_def demo_sess_def demo_env_def jobs_init_d_def)

lemma demo_run:
  "case session_main demo_os demo_sess of None \<Rightarrow> False | Some s' \<Rightarrow>
     d_honest (tr s') \<and> fork_pids (tr s') = [7] \<and> fed s' = [(4, ''hi''), (4, [LF])]"
  by code_simp

theorem session_leaves_nothing_witness:
  "\<exists>s'. session_create True 5 (''10.0.0.1'', 99) demo_env = Some demo_sess \<and> session_main demo_os demo_sess = Some s'
     \<and> fork_pids (tr s') = [7] \<and> unkilled (tr s') = Map.empty \<and> job_list s' = []
     \<and> fdt (self s') = (fdt demo_self)(5 := None)"
proof -
  obtain s' where r: "session_main demo_os demo_sess = Some s'" "d_honest (tr s')" "fork_pids (tr s') = [7]"
    using demo_run by (auto split: option.splits)
  have "tr demo_env = []" "fdt (self demo_env) = fdt demo_self" by (simp_all add: demo_env_def)
  with r session_leaves_nothing [OF demo_create _ r(1,2)] demo_create show ?thesis by auto
qed

section \<open>The child\<close>

definition all_default :: "(signo \<Rightarrow> handler) \<Rightarrow> bool" where
  "all_default h \<longleftrightarrow>
     (\<forall>x \<in> {SIGINT, SIGTSTP, SIGQUIT, SIGTTIN, SIGTTOU, SIGPIPE, SIGHUP, SIGCHLD}. h x = SIG_DFL)"

text \<open>The standard streams of command \<open>i\<close> of a job before its redirections.\<close>

definition streams :: "nat \<Rightarrow> bool \<Rightarrow> nat \<Rightarrow> fdtab \<Rightarrow> fdtab" where
  "streams i piped k T =
     T(STDIN_FILENO \<mapsto> (if i = 0 then InRead k else PipeRead),
       STDOUT_FILENO \<mapsto> (if piped \<and> i = 0 then PipeWrite else Socket),
       STDERR_FILENO \<mapsto> Socket)"

text \<open>The first half: the stdin pipe and the socket.\<close>

lemma child_socket_eq:
  assumes "t1 = T(r \<mapsto> InRead k, w \<mapsto> InWrite k)" and "T r = None" "T w = None" "r \<noteq> w"
    and "T 0 \<noteq> None" "T 1 \<noteq> None" "T 2 \<noteq> None" "T cf = Some Socket" "2 < cf" "3 \<le> lim"
  shows "snd (c_dup2 lim cf STDERR_FILENO (snd (c_dup2 lim cf STDOUT_FILENO
      (c_close w (c_close r (if i = 0 then snd (c_dup2 lim r STDIN_FILENO t1) else t1))))))
    = (if i = 0 then T(0 \<mapsto> InRead k, 1 \<mapsto> Socket, 2 \<mapsto> Socket) else T(1 \<mapsto> Socket, 2 \<mapsto> Socket))"
proof -
  have ne: "r \<noteq> 0" "r \<noteq> 1" "r \<noteq> 2" "r \<noteq> cf" "w \<noteq> 0" "w \<noteq> 1" "w \<noteq> 2" "w \<noteq> cf" using assms by auto
  have close: "c_close w (c_close r (if i = 0 then snd (c_dup2 lim r STDIN_FILENO t1) else t1))
      = (if i = 0 then T(0 \<mapsto> InRead k) else T)"
    using assms(1-4,10) ne by (auto simp: c_dup2_def c_close_def std_fds fun_eq_iff)
  have cf: "(if i = 0 then T(0 \<mapsto> InRead k) else T) cf = Some Socket" using assms(8,9) by auto
  show ?thesis unfolding close using cf assms(9,10) by (simp add: c_dup2_def std_fds)
qed

lemma child_fds_eq:
  assumes ip: "c_inpipe lim k T0 = Some ((r, w), t)"
    and fd: "(if piped then c_pipe lim t else Some ((-1, -1), t)) = Some (fds, t1)"
    and T0: "std_open T0" "T0 cf = Some Socket" "2 < cf" "3 \<le> lim" and i: "i = 0 \<or> i = 1 \<and> piped"
  shows "child_fds lim i (r, w) fds cf t1 = (streams i piped k T0)(cf := None)"
proof -
  have I: "r \<noteq> w" "0 \<le> r" "0 \<le> w" "T0 r = None" "T0 w = None" "t = T0(r \<mapsto> InRead k, w \<mapsto> InWrite k)"
    using c_inpipe_Some [OF ip] by auto
  have std: "T0 0 \<noteq> None" "T0 1 \<noteq> None" "T0 2 \<noteq> None" using T0(1) by (auto simp: std_open_def)
  show ?thesis
  proof (cases piped)
    case True
    obtain r2 w2 where f: "fds = (r2, w2)" by (cases fds)
    with fd True have P: "r2 \<noteq> w2" "0 \<le> r2" "0 \<le> w2" "t r2 = None" "t w2 = None" "t1 = t(r2 \<mapsto> PipeRead, w2 \<mapsto> PipeWrite)"
      using c_pipe_Some by auto
    have ne: "r2 \<noteq> r" "r2 \<noteq> w" "w2 \<noteq> r" "w2 \<noteq> w" "T0 r2 = None" "T0 w2 = None"
      using P(4,5) I(6) by (auto split: if_splits)
    let ?T = "T0(r2 \<mapsto> PipeRead, w2 \<mapsto> PipeWrite)"
    have t1: "t1 = ?T(r \<mapsto> InRead k, w \<mapsto> InWrite k)" using P(6) I(6) ne by (auto simp: fun_eq_iff)
    have ne2: "r2 \<noteq> 0" "r2 \<noteq> 1" "r2 \<noteq> 2" "r2 \<noteq> cf" "w2 \<noteq> 0" "w2 \<noteq> 1" "w2 \<noteq> 2" "w2 \<noteq> cf" "r2 \<noteq> -1"
      using ne std T0 P by auto
    note half = child_socket_eq [OF t1, of cf lim i]
    have h: "snd (c_dup2 lim cf STDERR_FILENO (snd (c_dup2 lim cf STDOUT_FILENO
        (c_close w (c_close r (if i = 0 then snd (c_dup2 lim r STDIN_FILENO t1) else t1))))))
      = (if i = 0 then ?T(0 \<mapsto> InRead k, 1 \<mapsto> Socket, 2 \<mapsto> Socket) else ?T(1 \<mapsto> Socket, 2 \<mapsto> Socket))"
      by (rule half) (use I ne ne2 std T0 in auto)
    show ?thesis
      unfolding child_fds_def Let_def fst_conv snd_conv h child_pipe_def f if_P [OF ne2(9)]
      using i True T0(3,4) P(1) ne(5,6) ne2
      by (auto simp: c_dup2_def c_close_def std_fds streams_def fun_eq_iff)
  next
    case False
    then have f: "fds = (-1, -1)" "t1 = t" "i = 0" using fd i by auto
    have h: "snd (c_dup2 lim cf STDERR_FILENO (snd (c_dup2 lim cf STDOUT_FILENO
        (c_close w (c_close r (if i = 0 then snd (c_dup2 lim r STDIN_FILENO t) else t))))))
      = (if i = 0 then T0(0 \<mapsto> InRead k, 1 \<mapsto> Socket, 2 \<mapsto> Socket) else T0(1 \<mapsto> Socket, 2 \<mapsto> Socket))"
      by (rule child_socket_eq [OF I(6)]) (use I std T0 in auto)
    show ?thesis
      unfolding child_fds_def Let_def fst_conv snd_conv f(2) h child_pipe_def
      using f False T0(3) by (simp add: c_close_def std_fds streams_def)
  qed
qed

end
