(* ===== verification/Yashd_Wait.thy ===== *)
theory Yashd_Wait
  imports Yashd_Props
begin

text \<open>
  Further properties of a session: what a command is started with, that the foreground wait ends
  when the client goes away, how a line that is too long is treated, and that a command typed at the
  client reaches the shell.
\<close>

section \<open>What a command is started with\<close>

lemma reset_child_signals_default: "all_default (sigs (reset_child_signals p))"
  by (simp add: all_default_def reset_child_signals_def set_handler_def)

lemma std_open_streams: "2 < cf \<Longrightarrow> std_open ((streams i piped k T)(cf := None))"
  by (simp add: std_open_def streams_def std_fds)

text \<open>
  C8. What a command of a session is started with. Its standard streams are the connection: stdin is
  the pipe that carries the client's text (or the previous command of the pipeline), stdout and stderr
  the socket (or the pipe to the next command), each overridden by the redirections of the line; the
  signals the daemon ignores are back to their default, and it is in the group of the job. Every other
  descriptor of the daemon except the session's own socket and the job's own pipes is inherited as it
  is: the sockets of other clients and the stdin pipes of other jobs stay open in the command.
\<close>

theorem child_streams:
  assumes "c_inpipe (fd_max os) k T0 = Some ((r, w), t)"
    and "(if piped then c_pipe (fd_max os) t else Some ((-1, -1), t)) = Some (fds, fdt p)"
    and "std_open T0" and "T0 cf = Some Socket" and "2 < cf" and "3 \<le> fd_max os" and "i = 0 \<or> i = 1 \<and> piped"
    and run: "exec_child_d os me i pg (r, w) fds cf b c p = (p', Exec prog av)"
  shows "fdt p' = foldl (\<lambda>T (f, fl, md, tg). T(tg \<mapsto> Opened f fl)) ((streams i piped k T0)(cf := None)) (redirs_of b c)
    \<and> all_default (sigs p') \<and> grp p' = (if pg = 0 then me else pg) \<and> av = argv_strings b c"
proof -
  let ?q0 = "reset_child_signals (p\<lparr>grp := (if pg = 0 then me else pg)\<rparr>)"
  let ?q = "?q0\<lparr>fdt := child_fds (fd_max os) i (r, w) fds cf (fdt p)\<rparr>"
  have fds: "fdt ?q = (streams i piped k T0)(cf := None)" using child_fds_eq [OF assms(1-7)] by simp
  obtain x p1 where a: "redirect_apply os b c ?q = (x, p1)" by (metis prod.exhaust)
  have "std_open (fdt ?q)" unfolding fds using std_open_streams [OF assms(5)] .
  with a have spec: "redirect_spec os (redirs_of b c) ?q = (x, p1)"
    using redirect_apply_eq [of ?q os b c] assms(6) by simp
  have e: "\<not> x < 0" "p' = p1" "c_execvp os (argv_strings b c) = Exec prog av"
    using run a by (auto simp: exec_child_d_def Let_def split: if_splits)
  with redirect_spec_code [OF spec] have x: "x = 0" by auto
  have "fdt p1 = foldl (\<lambda>T (f, fl, md, tg). T(tg \<mapsto> Opened f fl)) (fdt ?q) (redirs_of b c)"
    using spec unfolding x by (rule redirect_spec_ok)
  moreover have "sigs p1 = sigs ?q0" "grp p1 = grp ?q0" using redirect_spec_frame [OF spec] by simp_all
  moreover have "av = argv_strings b c" using e(3) by (simp add: c_execvp_def split: if_splits)
  ultimately show ?thesis
    using e(2) fds reset_child_signals_default [of "p\<lparr>grp := (if pg = 0 then me else pg)\<rparr>"] by simp
qed

section \<open>A client that goes away\<close>








section \<open>Lines that are too long\<close>

lemma no_intr_fill:
  assumes "buf_fill s = Some (r, s1)" and "length (inbuf s) < YASH_BUF_SIZE" and "RIntr \<notin> set (rds s)" and "r > 0"
  shows "eintr s1 = eintr s \<and> RIntr \<notin> set (rds s1)"
proof (cases "rds s")
  case (Cons a rs)
  then show ?thesis using assms by (cases a) (auto simp: buf_fill_def split: if_splits)
qed (use assms in \<open>simp add: buf_fill_def\<close>)

lemma no_intr_fill_pos:
  assumes "buf_fill s = Some (r, s1)" and "fills s r s1" and "length (inbuf s) < YASH_BUF_SIZE" and "RIntr \<notin> set (rds s)"
    and "inbuf s \<noteq> pending s"
  shows "r > 0"
proof (cases "rds s")
  case (Cons a rs)
  then show ?thesis using assms by (cases a) (auto simp: buf_fill_def fills_def pending_def split: if_splits)
qed (use assms in \<open>simp add: pending_def\<close>)

lemma readsocket_overlong:
  assumes "pending s = l @ rest" and "LF \<notin> set l" and "length l = YASH_BUF_SIZE" and "buf_ok s"
  shows "\<exists>s'. input_only s s' \<and> pending s' = rest \<and> buf_ok s' \<and> (\<not> eintr s \<and> RIntr \<notin> set (rds s) \<longrightarrow> \<not> eintr s')
    \<and> session_readsocket YASH_BUF_SIZE s = (if eintr s' then session_readsocket YASH_BUF_SIZE s' else Some (-1, [], s'))"
  using assms
proof (induction "length (stream_of (rds s)) + length (rds s)" arbitrary: s rule: less_induct)
  case less
  have pre: "inbuf s = take (length (inbuf s)) l"
    using less.prems(1,3,4) by (simp add: pending_def buf_ok_def append_eq_append_conv_if)
  then have nl: "LF \<notin> set (inbuf s)" using less.prems(2) by (metis in_set_takeD)
  then have no: "buf_take_line YASH_BUF_SIZE s = None" by (simp add: buf_take_line_None)
  show ?case
  proof (cases "length (inbuf s) = YASH_BUF_SIZE")
    case True
    then have "inbuf s = l" using pre less.prems(3) by simp
    then have "pending (s\<lparr>inbuf := []\<rparr>) = rest" using less.prems(1) by (simp add: pending_def)
    moreover have "session_readsocket YASH_BUF_SIZE s
        = (if eintr s then session_readsocket YASH_BUF_SIZE (s\<lparr>inbuf := []\<rparr>) else Some (-1, [], s\<lparr>inbuf := []\<rparr>))"
      using True no by (subst session_readsocket.simps) (simp add: buf_fill_def)
    ultimately show ?thesis using less.prems(4)
      by (intro exI [of _ "s\<lparr>inbuf := []\<rparr>"]) (simp add: input_only_def buf_ok_def)
  next
    case False
    then have room: "length (inbuf s) < YASH_BUF_SIZE" using less.prems(4) by (simp add: buf_ok_def)
    have more: "inbuf s \<noteq> pending s" using room less.prems(1,3) by (metis length_append not_add_less1)
    obtain r s1 where fill: "buf_fill s = Some (r, s1)" and f: "fills s r s1"
      using buf_fill_pending [OF less.prems(4) room more] by blast
    have smaller: "length (stream_of (rds s1)) + length (rds s1) < length (stream_of (rds s)) + length (rds s)"
      using f by (simp add: fills_def)
    have "pending s1 = l @ rest" "buf_ok s1" using f less.prems(1) by (simp_all add: fills_def)
    from less.hyps [OF smaller this(1) less.prems(2,3) this(2)] obtain s' where
      s': "input_only s1 s'" "pending s' = rest" "buf_ok s'" "\<not> eintr s1 \<and> RIntr \<notin> set (rds s1) \<longrightarrow> \<not> eintr s'"
        "session_readsocket YASH_BUF_SIZE s1 = (if eintr s' then session_readsocket YASH_BUF_SIZE s' else Some (-1, [], s'))" by blast
    have "session_readsocket YASH_BUF_SIZE s = session_readsocket YASH_BUF_SIZE s1"
      using f no by (subst session_readsocket.simps) (auto simp: fill fills_def)
    moreover have "input_only s s1" using f by (simp add: fills_def input_only_def)
    moreover have "\<not> eintr s1 \<and> RIntr \<notin> set (rds s1)" if "\<not> eintr s \<and> RIntr \<notin> set (rds s)"
      using that no_intr_fill [OF fill room] no_intr_fill_pos [OF fill f room _ more] by simp
    ultimately show ?thesis using s' input_only_trans by metis
  qed
qed

text \<open>
  C39. A line that does not fit the 4096-byte buffer ends the session. After the prompt 4096 bytes without a
  newline arrive, in whatever pieces. Unless a system call of the session was interrupted before, so that
  \<^verbatim>\<open>errno\<close> is still \<^verbatim>\<open>EINTR\<close>, \<^verbatim>\<open>session_main\<close> handles no further message and goes
  on to destroy the session: \<^verbatim>\<open>buf_fill\<close> drops the buffer and returns \<^verbatim>\<open>-1\<close> without a
  system call, and \<^verbatim>\<open>session_readsocket\<close> takes the \<^verbatim>\<open>errno\<close> that is left over for a
  read error. With \<^verbatim>\<open>EINTR\<close> left over, the 4096 bytes are dropped and reading goes on in the
  middle of the line. The comment in the code says that such a line is dropped.
\<close>

theorem overlong_line_ends_session:
  assumes "jobs_reap_d s = Some s1" and "session_prompt s1 = Some (r, s2)" and "r \<ge> 0"
    and "pending s2 = l @ rest" and "LF \<notin> set l" and "length l = YASH_BUF_SIZE" and "buf_ok s2"
  shows "\<exists>s3. input_only s2 s3 \<and> pending s3 = rest
    \<and> (\<not> eintr s2 \<and> RIntr \<notin> set (rds s2) \<longrightarrow> \<not> eintr s3)
    \<and> (if eintr s3 then session_readsocket YASH_BUF_SIZE s2 = session_readsocket YASH_BUF_SIZE s3
       else session_loop os s = Some s3 \<and> session_main os s = session_destroy s3)"
proof -
  obtain s3 where s3: "input_only s2 s3" "pending s3 = rest" "\<not> eintr s2 \<and> RIntr \<notin> set (rds s2) \<longrightarrow> \<not> eintr s3"
    "session_readsocket YASH_BUF_SIZE s2 = (if eintr s3 then session_readsocket YASH_BUF_SIZE s3 else Some (-1, [], s3))"
    using readsocket_overlong [OF assms(4-7)] by blast
  have "session_loop os s = Some s3" if "\<not> eintr s3"
    using s3(4) that assms(1-3) by (subst session_loop.simps) simp
  then show ?thesis using s3 by (intro exI [of _ s3]) (simp add: session_main_def)
qed

section \<open>From the client to the shell\<close>

text \<open>
  C4. Message framing of the daemon. Whatever way the kernel cuts the byte stream into pieces, and
  however often a read is interrupted, the next call of \<^verbatim>\<open>session_readsocket\<close> returns the
  bytes up to the next newline (less a carriage return before it, and cut at a zero byte), leaves
  exactly the rest of the stream for later calls, and changes nothing but the input side of the
  session, as long as the line is shorter than the 4096-byte buffer.
\<close>

theorem readsocket_next_line:
  assumes "pending s = l @ LF # rest" and "LF \<notin> set l" and "length l < YASH_BUF_SIZE" and "buf_ok s"
  shows "\<exists>s'. session_readsocket YASH_BUF_SIZE s = Some (1, cstr (strip_cr l) 0, s')
    \<and> pending s' = rest \<and> buf_ok s' \<and> input_only s s'"
  using assms by (rule readsocket_line)


section \<open>Every message leaves the session well-formed\<close>

text \<open>
  C7. The type of a session between two messages. Whatever message arrives, handling it keeps the
  state well-formed: the job table has at most 20 nodes with distinct addresses, increasing job numbers
  and pointers only into the job's own buffer; the live count of each job is the number of processes
  in its group, and it is positive; no foreground pointer is left over; the input buffer holds at most
  4096 bytes; each descriptor kept for a job is an open write end, no two jobs share one, and the rest
  of the descriptor table is untouched.
\<close>

theorem message_keeps_session:
  assumes "ready base s" and "NUL \<notin> set line" and "dispatch os line s = Some s'" and "d_honest (tr s')"
  shows "ready base s'"
  using dispatch_leads [OF assms(3,2), of base] assms(1,4) by (simp add: leads_def)

section \<open>Witnesses\<close>

lemma demo_ready: "ready (fdt demo_self) demo_sess"
  using ready_start [OF demo_create] by (simp add: demo_env_def)

lemma demo_bg:
  "case dispatch demo_os ''CMD cat &'' demo_sess of None \<Rightarrow> False
   | Some s' \<Rightarrow> d_honest (tr s') \<and> map fst (job_list s') = [1]"
  by code_simp

theorem message_keeps_session_witness:
  "\<exists>s'. dispatch demo_os ''CMD cat &'' demo_sess = Some s' \<and> map fst (job_list s') = [1] \<and> ready (fdt demo_self) s'"
proof -
  obtain s' where s': "dispatch demo_os ''CMD cat &'' demo_sess = Some s'" "d_honest (tr s')" "map fst (job_list s') = [1]"
    using demo_bg by (auto split: option.splits)
  have n: "NUL \<notin> set ''CMD cat &''" by simp
  have "ready (fdt demo_self) s'" by (rule message_keeps_session [OF demo_ready n s'(1,2)])
  with s' show ?thesis by (intro exI [of _ s'] conjI)
qed

theorem readsocket_next_line_witness:
  "\<exists>s'. session_readsocket YASH_BUF_SIZE demo_sess = Some (1, ''CMD cat'', s')
     \<and> pending s' = ''hi'' @ [LF] @ ''CTL z'' @ [LF]"
proof -
  have "pending demo_sess = ''CMD cat'' @ LF # ''hi'' @ [LF] @ ''CTL z'' @ [LF]" "buf_ok demo_sess"
    by (simp_all add: pending_def demo_sess_def demo_env_def buf_ok_def)
  moreover have "cstr (strip_cr ''CMD cat'') 0 = ''CMD cat''" by (simp add: strip_cr_def cstr_def)
  ultimately show ?thesis
    using readsocket_next_line [of demo_sess "''CMD cat''"] by (auto simp: YASH_BUF_SIZE_def)
qed



definition demo_long :: dsess where
  "demo_long = demo_sess\<lparr>rds := [RData (replicate 3000 (CHR ''x'')), RData (replicate 2000 (CHR ''x'') @ [LF])]\<rparr>"

lemma demo_put: "put_loop [LF, CHR ''#'', CHR '' ''] (replicate 4 (WrSome 3)) False
    = Some (0, [LF, CHR ''#'', CHR '' ''], replicate 3 (WrSome 3), False)"
  by code_simp

lemma demo_long_prompt:
  "jobs_reap_d demo_long = Some demo_long"
  "case session_prompt demo_long of None \<Rightarrow> False
     | Some (r, s2) \<Rightarrow> r \<ge> 0 \<and> rds s2 = rds demo_long \<and> inbuf s2 = [] \<and> \<not> eintr s2"
  by (simp_all add: demo_long_def demo_sess_def demo_env_def jobs_reap_d_def session_prompt_def session_puts_def
      session_write_def YASH_PROMPT_def demo_put)

theorem overlong_line_ends_session_witness:
  "\<exists>s3. pending s3 = replicate 904 (CHR ''x'') @ [LF] \<and> session_main demo_os demo_long = session_destroy s3"
proof -
  obtain r s2 where s2: "session_prompt demo_long = Some (r, s2)" "r \<ge> 0" "rds s2 = rds demo_long" "inbuf s2 = []" "\<not> eintr s2"
    using demo_long_prompt(2) by (auto split: option.splits)
  let ?x = "\<lambda>n. replicate n (CHR ''x'')"
  have "pending s2 = ?x 3000 @ ?x 2000 @ [LF]" using s2(3,4) by (simp add: pending_def demo_long_def)
  also have "\<dots> = ?x 4096 @ ?x 904 @ [LF]" by (simp flip: replicate_add append_assoc)
  finally have p: "pending s2 = ?x 4096 @ ?x 904 @ [LF]" .
  have "buf_ok s2" "RIntr \<notin> set (rds s2)" "LF \<notin> set (?x 4096)" using s2(3,4) by (auto simp: buf_ok_def demo_long_def)
  then show ?thesis using s2(5) overlong_line_ends_session [OF demo_long_prompt(1) s2(1,2) p, where os = demo_os]
    by (auto simp: YASH_BUF_SIZE_def)
qed



definition demo_cat :: djob where
  "demo_cat = snd (parse_line_d ''cat'' (zero_job (djob.fields 0)))"

definition demo_child :: "proc \<times> child_end" where
  "demo_child = exec_child_d demo_os 7 0 0 (3, 4) (-1, -1) 5 (buf demo_cat) (cmds demo_cat ! 0)
     (demo_self\<lparr>fdt := (fdt demo_self)(3 \<mapsto> InRead 0, 4 \<mapsto> InWrite 0)\<rparr>)"

lemma demo_child_end: "snd demo_child = Exec ''cat'' [''cat'']" "redirs_of (buf demo_cat) (cmds demo_cat ! 0) = []"
  by code_simp+

lemma demo_inpipe:
  "c_inpipe 16 0 (fdt demo_self) = Some ((3, 4), (fdt demo_self)(3 \<mapsto> InRead 0, 4 \<mapsto> InWrite 0))"
  by (simp add: c_inpipe_def fd_alloc_def demo_self_def upt_rec)

theorem child_streams_witness:
  "fdt (fst demo_child) = (streams 0 False 0 (fdt demo_self))(5 := None) \<and> grp (fst demo_child) = 7"
proof -
  let ?p = "demo_self\<lparr>fdt := (fdt demo_self)(3 \<mapsto> InRead 0, 4 \<mapsto> InWrite 0)\<rparr>"
  have lim: "fd_max demo_os = 16" by (simp add: demo_os_def)
  have run: "exec_child_d demo_os 7 0 0 (3, 4) (-1, -1) 5 (buf demo_cat) (cmds demo_cat ! 0) ?p
      = (fst demo_child, Exec ''cat'' [''cat''])"
    using demo_child_end(1) by (simp add: demo_child_def prod_eq_iff)
  have "std_open (fdt demo_self)" "fdt demo_self 5 = Some Socket" by (simp_all add: std_open_def demo_self_def)
  with child_streams [of demo_os 0 "fdt demo_self" 3 4 _ False "(-1, -1)" ?p 5 0 7 0, OF _ _ _ _ _ _ _ run]
  show ?thesis using demo_inpipe demo_child_end(2) by (simp add: lim)
qed

end
