(* ===== verification/Yashd_Client.thy ===== *)
theory Yashd_Client
  imports Yashd_Wire
begin

text \<open>
  The client of Project 2 (\<^verbatim>\<open>client.c\<close>, \<^verbatim>\<open>main.c\<close>): connecting, the two signal
  flags, and the main loop around \<^verbatim>\<open>pselect\<close>. The two job-control signals are blocked outside
  \<^verbatim>\<open>pselect\<close>, so they can only arrive there. What the kernel answers is an input, as in
  \<^verbatim>\<open>Yashd_Wire\<close>: \<open>pss\<close> for \<^verbatim>\<open>pselect\<close>, \<open>c_rds\<close> for reads of the socket,
  \<open>k_rds\<close> for reads of the keyboard, \<open>n_wrs\<close> and \<open>o_wrs\<close> for writes to the socket and to standard
  output.
\<close>

section \<open>Connecting\<close>

text \<open>What the calls of \<^verbatim>\<open>client_connect_tcp\<close> and \<^verbatim>\<open>client_connect_unix\<close> answer.\<close>

record dial =
  pton_ok :: bool
  sock_fd :: int
  conn_ok :: bool

text \<open>The result, and the descriptor closed on the way, if any.\<close>

definition client_connect_tcp :: "dial \<Rightarrow> int \<times> int option" where
  "client_connect_tcp d =
     (if \<not> pton_ok d then (-1, None)
      else if sock_fd d < 0 then (-1, None)
      else if \<not> conn_ok d then (-1, Some (sock_fd d))
      else (sock_fd d, None))"

definition client_connect_unix :: "dial \<Rightarrow> int \<times> int option" where
  "client_connect_unix d =
     (if sock_fd d < 0 then (-1, None)
      else if \<not> conn_ok d then (-1, Some (sock_fd d))
      else (sock_fd d, None))"

section \<open>The main loop\<close>

datatype psel = PsReady bool bool | PsIntr "signo list" | PsErr

record client = net +
  got_int :: bool
  got_stop :: bool
  tail :: "char \<times> char \<times> char"
  typed :: bytes
  prompt :: bool
  stdin_open :: bool
  c_done :: bool
  tty :: bool
  pss :: "psel list"
  c_rds :: "rd list"
  k_rds :: "rd list"
  o_wrs :: "wr list"
  shown :: bytes
  c_sigs :: "signo \<Rightarrow> handler"
  c_mask :: "signo list"
  c_closed :: "int list"

definition on_signal :: "signo \<Rightarrow> client \<Rightarrow> client" where
  "on_signal sg c = (if sg = SIGINT then c\<lparr>got_int := True\<rparr> else c\<lparr>got_stop := True\<rparr>)"

text \<open>\<open>Flag_handler\<close> stands for \<^verbatim>\<open>on_signal\<close>.\<close>

definition client_install_handlers :: "(signo \<Rightarrow> handler) \<Rightarrow> signo \<Rightarrow> handler" where
  "client_install_handlers h = h(SIGINT := Flag_handler, SIGTSTP := Flag_handler, SIGPIPE := SIG_IGN)"

text \<open>\<^verbatim>\<open>send_all\<close> to standard output.\<close>

definition show_bytes :: "bytes \<Rightarrow> client \<Rightarrow> (int \<times> client) option" where
  "show_bytes bs c =
     map_option (\<lambda>(r, out, ws, ei). (r, c\<lparr>n_eintr := ei, o_wrs := ws, shown := shown c @ out\<rparr>))
       (put_loop bs (o_wrs c) (n_eintr c))"

text \<open>The flags raised by the handlers, at the top of the loop.\<close>

definition send_flags :: "client \<Rightarrow> client option" where
  "send_flags c =
     do {
       c1 \<leftarrow> (if got_int c then map_option snd (send_msg MSG_CTL [CTL_INT] (c\<lparr>got_int := False\<rparr>)) else Some c);
       (if got_stop c1 then map_option snd (send_msg MSG_CTL [CTL_STOP] (c1\<lparr>got_stop := False\<rparr>)) else Some c1)
     }"

datatype turn = Next | Continue | Break

text \<open>The socket is readable: what arrived is shown as it is, and its tail tells whether the server is idle.\<close>

definition serve_socket :: "client \<Rightarrow> (turn \<times> client) option" where
  "serve_socket c =
     do {
       (r, rs, ei) \<leftarrow> c_read YASH_BUF_SIZE (c_rds c) (n_eintr c);
       (let c1 = c\<lparr>n_eintr := ei, c_rds := rs\<rparr> in
        case r of
          None \<Rightarrow> Some (if ei then Continue else Break, c1)
        | Some bs \<Rightarrow>
            if bs = [] then Some (Break, c1)
            else do {
              (w, c2) \<leftarrow> show_bytes bs c1;
              (if w < 0 then Some (Break, c2)
               else let t = push_tail (tail c2) bs in Some (Next, c2\<lparr>tail := t, prompt := prompt_tail t\<rparr>))
            })
     }"

text \<open>The complete lines in the keyboard buffer.\<close>

partial_function (option) typed_lines :: "client \<Rightarrow> client option" where
  "typed_lines c =
     (let len = length (takeWhile (\<lambda>b. b \<noteq> LF) (typed c)) in
      if c_done c \<or> len = length (typed c) then Some c
      else do {
        (q, p, c1) \<leftarrow> send_line (cstr (take len (typed c)) 0) (prompt c) c;
        typed_lines (c1\<lparr>typed := drop (len + 1) (typed c), prompt := p, c_done := q\<rparr>)
      })"

text \<open>End of file on the keyboard: what was typed before it goes out first, then the \<^verbatim>\<open>CTL d\<close>.\<close>

definition typed_eof :: "client \<Rightarrow> client option" where
  "typed_eof c =
     do {
       c1 \<leftarrow> (if length (typed c) > 0 then
                do {
                  (q, p, c0) \<leftarrow> send_line (cstr (typed c) 0) (prompt c) c;
                  Some (c0\<lparr>typed := [], prompt := p, c_done := q\<rparr>)
                }
              else Some c);
       (_, c2) \<leftarrow> send_msg MSG_CTL [CTL_EOF] c1;
       Some (if prompt c2 then c2\<lparr>c_done := True\<rparr> else if \<not> tty c2 then c2\<lparr>stdin_open := False\<rparr> else c2)
     }"

definition serve_keyboard :: "client \<Rightarrow> (turn \<times> client) option" where
  "serve_keyboard c =
     do {
       (r, rs, ei) \<leftarrow> c_read (YASH_BUF_SIZE - length (typed c)) (k_rds c) (n_eintr c);
       (let c1 = c\<lparr>n_eintr := ei, k_rds := rs\<rparr> in
        case r of
          None \<Rightarrow> Some (if ei then Continue else Break, c1)
        | Some bs \<Rightarrow>
            if bs = [] then map_option (Pair Continue) (typed_eof c1)
            else do {
              c2 \<leftarrow> typed_lines (c1\<lparr>typed := typed c1 @ bs\<rparr>);
              Some (Next, if length (typed c2) = YASH_BUF_SIZE then c2\<lparr>typed := []\<rparr> else c2)
            })
     }"

definition client_turn :: "client \<Rightarrow> (turn \<times> client) option" where
  "client_turn c =
     do {
       c1 \<leftarrow> send_flags c;
       (case pss c1 of
          [] \<Rightarrow> None
        | PsIntr sgs # ps \<Rightarrow> Some (Continue, fold on_signal sgs (c1\<lparr>n_eintr := True, pss := ps\<rparr>))
        | PsErr # ps \<Rightarrow> Some (Break, c1\<lparr>n_eintr := False, pss := ps\<rparr>)
        | PsReady so ke # ps \<Rightarrow>
            do {
              (t, c2) \<leftarrow> (if so then serve_socket (c1\<lparr>pss := ps\<rparr>) else Some (Next, c1\<lparr>pss := ps\<rparr>));
              (if t \<noteq> Next then Some (t, c2)
               else if stdin_open c2 \<and> ke then serve_keyboard c2
               else Some (Next, c2))
            })
     }"

partial_function (option) client_loop :: "client \<Rightarrow> client option" where
  "client_loop c =
     (if c_done c then Some c
      else do {
        (t, c1) \<leftarrow> client_turn c;
        if t = Break then Some c1 else client_loop c1
      })"

text \<open>
  \<^verbatim>\<open>client_run\<close>: the initial state is that of the locals of the function; the flags may have been
  raised before it. At the end the mask is put back, the descriptor closed and a newline written, in one
  \<^verbatim>\<open>write\<close> whose result is not looked at.
\<close>

definition client_start :: "client \<Rightarrow> client" where
  "client_start c =
     c\<lparr>tail := (LF, CHR ''#'', CHR '' ''), typed := [], prompt := True, stdin_open := True, c_done := False,
       c_mask := [SIGINT, SIGTSTP] @ c_mask c\<rparr>"

definition client_run :: "int \<Rightarrow> client \<Rightarrow> (int \<times> client) option" where
  "client_run sockfd c =
     do {
       c1 \<leftarrow> client_loop (client_start c);
       (let c2 = c1\<lparr>c_mask := c_mask c, c_closed := c_closed c1 @ [sockfd]\<rparr> in
        case o_wrs c2 of
          [] \<Rightarrow> None
        | w # ws \<Rightarrow> Some (0, c2\<lparr>o_wrs := ws, shown := shown c2 @ (case w of WrSome n \<Rightarrow> take n [LF] | _ \<Rightarrow> [])\<rparr>))
     }"

definition client_main :: "string list \<Rightarrow> dial \<Rightarrow> client \<Rightarrow> (int \<times> client) option" where
  "client_main av d c =
     (if length av \<noteq> 2 then Some (1, c)
      else
        case (if av ! 1 = ''-u'' then client_connect_unix d else client_connect_tcp d) of
          (fd, cl) \<Rightarrow>
            if fd < 0 then Some (1, c\<lparr>c_closed := c_closed c @ (case cl of None \<Rightarrow> [] | Some n \<Rightarrow> [n])\<rparr>)
            else client_run fd (c\<lparr>c_sigs := client_install_handlers (c_sigs c)\<rparr>))"

section \<open>The prompt flag\<close>

text \<open>Sending touches only the output side.\<close>

definition sends :: "client \<Rightarrow> client \<Rightarrow> bool" where
  "sends c c' \<longleftrightarrow> (\<exists>ws ei out. c' = c\<lparr>n_wrs := ws, n_eintr := ei, n_sent := n_sent c @ out\<rparr>)"

lemma send_all_sends: "send_all bs c = Some (r, c') \<Longrightarrow> sends c c'"
  unfolding send_all_def sends_def by auto

lemma sends_refl [simp]: "sends c c"
  unfolding sends_def by (rule exI [of _ "n_wrs c"], rule exI [of _ "n_eintr c"], rule exI [of _ "[]"]) simp

lemma send_msg_sends: "send_msg p b c = Some (r, c') \<Longrightarrow> sends c c'"
  by (auto simp: send_msg_def Let_def split: if_splits dest: send_all_sends)

lemma sends_fields:
  "sends c c' \<Longrightarrow> tail c' = tail c \<and> typed c' = typed c \<and> prompt c' = prompt c \<and> c_done c' = c_done c
     \<and> stdin_open c' = stdin_open c \<and> shown c' = shown c"
  unfolding sends_def by auto

lemma send_line_fields:
  assumes "send_line l p c = Some (q, p', c')"
  shows "sends c c' \<and> (p' \<longrightarrow> p)"
  using assms by (auto simp: send_line_def split: if_splits Option.bind_splits dest: send_msg_sends)

text \<open>
  What the loop keeps, from the state \<open>c0\<close> at its start on: the three bytes kept are the last ones shown
  (after the prompt assumed at the start), the prompt flag is up only when they are the prompt's, and
  the keyboard buffer has room.
\<close>

definition client_inv :: "client \<Rightarrow> client \<Rightarrow> bool" where
  "client_inv c0 c \<longleftrightarrow> (\<exists>out. shown c = shown c0 @ out \<and> tail c = push_tail (LF, CHR ''#'', CHR '' '') out)
     \<and> (prompt c \<longrightarrow> prompt_tail (tail c)) \<and> length (typed c) < YASH_BUF_SIZE"

definition keeps_screen :: "client \<Rightarrow> client \<Rightarrow> bool" where
  "keeps_screen c c' \<longleftrightarrow> shown c' = shown c \<and> tail c' = tail c \<and> (prompt c' \<longrightarrow> prompt c)
     \<and> length (typed c') \<le> length (typed c)"

lemma keeps_screen_trans [trans]: "keeps_screen c d \<Longrightarrow> keeps_screen d e \<Longrightarrow> keeps_screen c e"
  by (simp add: keeps_screen_def)

lemma keeps_screen_inv: "keeps_screen c c' \<Longrightarrow> client_inv c0 c \<Longrightarrow> client_inv c0 c'"
  unfolding keeps_screen_def client_inv_def by auto

lemma sends_screen: "sends c c' \<Longrightarrow> keeps_screen c c'"
  using sends_fields [of c c'] by (simp add: keeps_screen_def)

lemma send_flags_screen:
  assumes "send_flags c = Some c'"
  shows "keeps_screen c c'"
proof -
  obtain c1 where 1: "(if got_int c then map_option snd (send_msg MSG_CTL [CTL_INT] (c\<lparr>got_int := False\<rparr>)) else Some c) = Some c1"
    and 2: "(if got_stop c1 then map_option snd (send_msg MSG_CTL [CTL_STOP] (c1\<lparr>got_stop := False\<rparr>)) else Some c1) = Some c'"
    using assms unfolding send_flags_def by (auto split: Option.bind_splits)
  have "keeps_screen c c1"
  proof (cases "got_int c")
    case True
    then have "sends (c\<lparr>got_int := False\<rparr>) c1" using 1 by (auto dest: send_msg_sends)
    from sends_screen [OF this] show ?thesis by (simp add: keeps_screen_def)
  qed (use 1 in \<open>simp add: keeps_screen_def\<close>)
  also have "keeps_screen c1 c'"
  proof (cases "got_stop c1")
    case True
    then have "sends (c1\<lparr>got_stop := False\<rparr>) c'" using 2 by (auto dest: send_msg_sends)
    from sends_screen [OF this] show ?thesis by (simp add: keeps_screen_def)
  qed (use 2 in \<open>simp add: keeps_screen_def\<close>)
  finally show ?thesis .
qed

lemma push_tail_append: "push_tail t (xs @ ys) = push_tail (push_tail t xs) ys"
  by (induction t xs rule: push_tail.induct) auto

lemma show_bytes_frame:
  "show_bytes bs c = Some (r, c') \<Longrightarrow> tail c' = tail c \<and> typed c' = typed c \<and> prompt c' = prompt c
     \<and> (\<not> r < 0 \<longrightarrow> shown c' = shown c @ bs)"
  unfolding show_bytes_def by (auto dest: put_loop_prefix)

lemma serve_socket_inv:
  assumes "serve_socket c = Some (t, c')" and "client_inv c0 c" and "t \<noteq> Break"
  shows "client_inv c0 c'"
proof -
  obtain r rs ei where rd: "c_read YASH_BUF_SIZE (c_rds c) (n_eintr c) = Some (r, rs, ei)"
    using assms(1) by (auto simp: serve_socket_def split: Option.bind_splits)
  let ?c1 = "c\<lparr>n_eintr := ei, c_rds := rs\<rparr>"
  have c1: "client_inv c0 ?c1" using assms(2) by (simp add: client_inv_def)
  show ?thesis
  proof (cases r)
    case None
    with assms(1) rd c1 show ?thesis by (simp add: serve_socket_def Let_def)
  next
    case (Some bs)
    with assms(1,3) rd obtain w c2 where sb: "show_bytes bs ?c1 = Some (w, c2)" and w: "\<not> w < 0"
      and c': "c' = c2\<lparr>tail := push_tail (tail c2) bs, prompt := prompt_tail (push_tail (tail c2) bs)\<rparr>"
      by (auto simp: serve_socket_def Let_def split: Option.bind_splits if_splits)
    have f: "tail c2 = tail c" "typed c2 = typed c" "shown c2 = shown c @ bs"
      using show_bytes_frame [OF sb] w by auto
    from assms(2) obtain out where "shown c = shown c0 @ out" "tail c = push_tail (LF, CHR ''#'', CHR '' '') out"
      by (auto simp: client_inv_def)
    with f have "shown c' = shown c0 @ (out @ bs)" "tail c' = push_tail (LF, CHR ''#'', CHR '' '') (out @ bs)"
      by (simp_all add: c' push_tail_append)
    moreover have "prompt c' \<longrightarrow> prompt_tail (tail c')" "length (typed c') < YASH_BUF_SIZE"
      using assms(2) f by (simp_all add: c' client_inv_def)
    ultimately show ?thesis unfolding client_inv_def by blast
  qed
qed

lemma send_line_screen:
  assumes "send_line l p c = Some (q, p', c1)" and "p = prompt c" and "length xs \<le> length (typed c)"
  shows "keeps_screen c (c1\<lparr>typed := xs, prompt := p', c_done := q\<rparr>)"
  using send_line_fields [OF assms(1)] sends_fields [of c c1] assms(2,3) by (auto simp: keeps_screen_def)

lemma typed_lines_screen:
  assumes "typed_lines c = Some c'"
  shows "keeps_screen c c'"
proof (rule typed_lines.raw_induct [OF _ assms])
  fix rec and c c' :: client
  let ?len = "length (takeWhile (\<lambda>b. b \<noteq> LF) (typed c))"
  assume IH: "\<And>c c'. rec c = Some c' \<Longrightarrow> keeps_screen c c'"
    and body: "(let len = length (takeWhile (\<lambda>b. b \<noteq> LF) (typed c)) in
      if c_done c \<or> len = length (typed c) then Some c
      else send_line (cstr (take len (typed c)) 0) (prompt c) c \<bind>
        (\<lambda>(q, p, c1). rec (c1\<lparr>typed := drop (len + 1) (typed c), prompt := p, c_done := q\<rparr>))) = Some c'"
  show "keeps_screen c c'"
  proof (cases "c_done c \<or> ?len = length (typed c)")
    case True
    with body have "c' = c" by (simp only: Let_def if_True option.inject)
    then show ?thesis by (simp add: keeps_screen_def)
  next
    case False
    with body obtain q p c1 where l: "send_line (cstr (take ?len (typed c)) 0) (prompt c) c = Some (q, p, c1)"
      and r: "rec (c1\<lparr>typed := drop (?len + 1) (typed c), prompt := p, c_done := q\<rparr>) = Some c'"
      by (auto simp: Let_def split: Option.bind_splits)
    have "keeps_screen c (c1\<lparr>typed := drop (?len + 1) (typed c), prompt := p, c_done := q\<rparr>)"
      by (rule send_line_screen [OF l]) simp_all
    also note IH [OF r]
    finally show ?thesis .
  qed
qed

lemma typed_eof_screen:
  assumes "typed_eof c = Some c'"
  shows "keeps_screen c c'"
proof -
  obtain c1 r c2 where 1: "(if length (typed c) > 0 then
        do { (q, p, c0) \<leftarrow> send_line (cstr (typed c) 0) (prompt c) c; Some (c0\<lparr>typed := [], prompt := p, c_done := q\<rparr>) }
      else Some c) = Some c1"
    and 2: "send_msg MSG_CTL [CTL_EOF] c1 = Some (r, c2)"
    and c': "c' = (if prompt c2 then c2\<lparr>c_done := True\<rparr> else if \<not> tty c2 then c2\<lparr>stdin_open := False\<rparr> else c2)"
    using assms unfolding typed_eof_def by (auto split: Option.bind_splits)
  have "keeps_screen c c1"
  proof (cases "length (typed c) > 0")
    case True
    with 1 obtain q p c0 where l: "send_line (cstr (typed c) 0) (prompt c) c = Some (q, p, c0)"
      and c1: "c1 = c0\<lparr>typed := [], prompt := p, c_done := q\<rparr>"
      by (auto split: Option.bind_splits)
    show ?thesis unfolding c1 by (rule send_line_screen [OF l]) simp_all
  qed (use 1 in \<open>simp add: keeps_screen_def\<close>)
  also have "keeps_screen c1 c2" by (rule sends_screen [OF send_msg_sends [OF 2]])
  also have "keeps_screen c2 c'" by (simp add: c' keeps_screen_def)
  finally show ?thesis .
qed

lemma c_read_length: "c_read room rs ei = Some (Some bs, rs', ei') \<Longrightarrow> length bs \<le> room"
  by (cases "(room, rs, ei)" rule: c_read.cases) (auto split: if_splits)

lemma serve_keyboard_inv:
  assumes "serve_keyboard c = Some (t, c')" and inv: "client_inv c0 c"
  shows "client_inv c0 c'"
proof -
  obtain r rs ei where rd: "c_read (YASH_BUF_SIZE - length (typed c)) (k_rds c) (n_eintr c) = Some (r, rs, ei)"
    using assms(1) by (auto simp: serve_keyboard_def split: Option.bind_splits)
  let ?c1 = "c\<lparr>n_eintr := ei, k_rds := rs\<rparr>"
  have c1: "client_inv c0 ?c1" using inv by (simp add: client_inv_def)
  show ?thesis
  proof (cases "r = None \<or> r = Some []")
    case True
    then consider "c' = ?c1" | "typed_eof ?c1 = Some c'"
      using assms(1) rd by (auto simp: serve_keyboard_def Let_def)
    then show ?thesis using c1 keeps_screen_inv [OF typed_eof_screen] by cases auto
  next
    case False
    then obtain bs where bs: "r = Some bs" "bs \<noteq> []" by auto
    with assms(1) rd obtain c2 where l: "typed_lines (?c1\<lparr>typed := typed c @ bs\<rparr>) = Some c2"
      and c': "c' = (if length (typed c2) = YASH_BUF_SIZE then c2\<lparr>typed := []\<rparr> else c2)"
      by (auto simp: serve_keyboard_def Let_def split: Option.bind_splits)
    have "length bs \<le> YASH_BUF_SIZE - length (typed c)"
      using rd bs by (auto dest: c_read_length)
    moreover have "length (typed c) < YASH_BUF_SIZE" using inv unfolding client_inv_def by blast
    ultimately have "length (typed c @ bs) \<le> YASH_BUF_SIZE" by simp
    with typed_lines_screen [OF l] inv show ?thesis
      by (auto simp: c' client_inv_def keeps_screen_def YASH_BUF_SIZE_def)
  qed
qed

lemma fold_on_signal_fields:
  "tail (fold on_signal sgs c) = tail c \<and> typed (fold on_signal sgs c) = typed c
     \<and> prompt (fold on_signal sgs c) = prompt c \<and> shown (fold on_signal sgs c) = shown c"
  by (induction sgs arbitrary: c) (auto simp: on_signal_def)

lemma client_turn_inv:
  assumes "client_turn c = Some (t, c')" and "client_inv c0 c" and "t \<noteq> Break"
  shows "client_inv c0 c'"
proof -
  obtain c1 where f: "send_flags c = Some c1" using assms(1) by (auto simp: client_turn_def split: Option.bind_splits)
  have c1: "client_inv c0 c1" by (rule keeps_screen_inv [OF send_flags_screen [OF f] assms(2)])
  obtain p ps where pss: "pss c1 = p # ps" using assms(1) f by (cases "pss c1") (simp_all add: client_turn_def)
  let ?c1 = "c1\<lparr>pss := ps\<rparr>"
  have c1': "client_inv c0 ?c1" using c1 by (simp add: client_inv_def)
  show ?thesis
  proof (cases p)
    case (PsReady so ke)
    with assms(1) f pss obtain u c2 where s: "(if so then serve_socket ?c1 else Some (Next, ?c1)) = Some (u, c2)"
      and k: "(if u \<noteq> Next then Some (u, c2) else if stdin_open c2 \<and> ke then serve_keyboard c2 else Some (Next, c2)) = Some (t, c')"
      by (auto simp: client_turn_def split: Option.bind_splits)
    have "u \<noteq> Break" using k assms(3) by auto
    with s c1' serve_socket_inv [of ?c1 u c2 c0] have "client_inv c0 c2" by (auto split: if_splits)
    with k serve_keyboard_inv [of c2 t c' c0] show ?thesis by (auto split: if_splits)
  next
    case (PsIntr sgs)
    with assms(1) f pss c1 show ?thesis
      by (auto simp: client_turn_def client_inv_def fold_on_signal_fields)
  qed (use assms f pss in \<open>simp add: client_turn_def\<close>)
qed

text \<open>The states at the top of the loop of \<^verbatim>\<open>client_run\<close>.\<close>

inductive client_steps :: "client \<Rightarrow> client \<Rightarrow> bool" for c0 where
  at_start: "client_steps c0 (client_start c0)"
| after_turn: "client_steps c0 c \<Longrightarrow> \<not> c_done c \<Longrightarrow> client_turn c = Some (t, c') \<Longrightarrow> t \<noteq> Break \<Longrightarrow> client_steps c0 c'"

lemma client_steps_inv: "client_steps c0 c \<Longrightarrow> client_inv c0 c"
proof (induction rule: client_steps.induct)
  case at_start
  show ?case by (simp add: client_inv_def client_start_def prompt_tail_def YASH_BUF_SIZE_def)
next
  case (after_turn c t c')
  then show ?case by (blast intro: client_turn_inv)
qed

lemma push_tail_last:
  "push_tail (a, b, c) xs = (x, y, z) \<longleftrightarrow> (\<exists>us. [a, b, c] @ xs = us @ [x, y, z])"
proof (induction xs arbitrary: a b c)
  case (Cons d xs)
  have "(\<exists>us. [a, b, c] @ d # xs = us @ [x, y, z]) \<longleftrightarrow> (\<exists>us. [b, c, d] @ xs = us @ [x, y, z])"
  proof
    assume "\<exists>us. [a, b, c] @ d # xs = us @ [x, y, z]"
    then obtain us where us: "[a, b, c] @ d # xs = us @ [x, y, z]" ..
    then show "\<exists>us. [b, c, d] @ xs = us @ [x, y, z]" by (cases us) auto
  next
    assume "\<exists>us. [b, c, d] @ xs = us @ [x, y, z]"
    then obtain us where "[b, c, d] @ xs = us @ [x, y, z]" ..
    then have "[a, b, c] @ d # xs = (a # us) @ [x, y, z]" by simp
    then show "\<exists>us. [a, b, c] @ d # xs = us @ [x, y, z]" by blast
  qed
  with Cons show ?case by simp
qed auto

lemma prompt_tail_iff: "prompt_tail t \<longleftrightarrow> t = (LF, CHR ''#'', CHR '' '')"
  by (cases t) (auto simp: prompt_tail_def)

text \<open>
  C24. The client sends a line as a command only when the server is idle as far as the screen shows.
  Whenever the main loop is at its top with the prompt flag up (the only case in which a typed line
  becomes a \<^verbatim>\<open>CMD\<close> message), everything shown since the start, after the prompt the client
  assumes at first, ends in the prompt of the server, however the stream was cut into reads and
  whatever was typed or interrupted in between; and the keyboard buffer has room for the next read.
\<close>

theorem command_only_at_prompt:
  assumes "client_steps c0 c" and "prompt c"
  shows "length (typed c) < YASH_BUF_SIZE
    \<and> (\<exists>out us. shown c = shown c0 @ out \<and> YASH_PROMPT @ out = us @ YASH_PROMPT)"
proof -
  from client_steps_inv [OF assms(1)] assms(2) obtain out where out: "shown c = shown c0 @ out"
    "push_tail (LF, CHR ''#'', CHR '' '') out = (LF, CHR ''#'', CHR '' '')" and len: "length (typed c) < YASH_BUF_SIZE"
    by (auto simp: client_inv_def prompt_tail_iff)
  from out(2) have "\<exists>us. YASH_PROMPT @ out = us @ YASH_PROMPT" unfolding push_tail_last YASH_PROMPT_def .
  with out(1) len show ?thesis by blast
qed

definition demo_client :: client where
  "demo_client = \<lparr>n_wrs = [WrSome 100, WrSome 100], n_eintr = False, n_sent = [], got_int = False, got_stop = False,
     tail = (LF, LF, LF), typed = [], prompt = False, stdin_open = False, c_done = False, tty = True,
     pss = [PsReady False True, PsReady True False, PsIntr [SIGINT], PsReady True False],
     c_rds = [RData (''a b'' @ [LF]), RData [CHR ''#'', CHR '' '']], k_rds = [RData (''ls'' @ [LF])],
     o_wrs = [WrSome 100, WrSome 100], shown = [], c_sigs = \<lambda>_. SIG_DFL, c_mask = [], c_closed = []\<rparr>"

fun turns :: "nat \<Rightarrow> client \<Rightarrow> client option" where
  "turns 0 c = Some c"
| "turns (Suc n) c =
     (if c_done c then None
      else case client_turn c of None \<Rightarrow> None | Some (t, c') \<Rightarrow> if t = Break then None else turns n c')"

lemma turns_steps: "turns n c = Some c' \<Longrightarrow> client_steps c0 c \<Longrightarrow> client_steps c0 c'"
proof (induction n arbitrary: c)
  case (Suc n)
  then obtain t d where "\<not> c_done c" "client_turn c = Some (t, d)" "t \<noteq> Break" "turns n d = Some c'"
    by (auto split: if_splits option.splits)
  with Suc show ?case by (blast intro: client_steps.after_turn)
qed simp

declare typed_lines.simps [code]

lemma demo_turns:
  "case turns 4 (client_start demo_client) of None \<Rightarrow> False
   | Some c \<Rightarrow> prompt c \<and> shown c = ''a b'' @ [LF] @ ''# '' \<and> n_sent c = ''CMD ls'' @ [LF] @ ''CTL c'' @ [LF]"
  by code_simp

theorem command_only_at_prompt_witness:
  "\<exists>c. client_steps demo_client c \<and> prompt c \<and> n_sent c = ''CMD ls'' @ [LF] @ ''CTL c'' @ [LF]
     \<and> (\<exists>out us. shown c = shown demo_client @ out \<and> YASH_PROMPT @ out = us @ YASH_PROMPT)"
proof -
  obtain c where c: "turns 4 (client_start demo_client) = Some c" "prompt c" "n_sent c = ''CMD ls'' @ [LF] @ ''CTL c'' @ [LF]"
    using demo_turns by (auto split: option.splits)
  have "client_steps demo_client c" by (rule turns_steps [OF c(1) at_start])
  with c(2,3) command_only_at_prompt [OF this c(2)] show ?thesis by (intro exI [of _ c]) simp
qed

end
