(* ===== verification/Yashd_Daemon.thy ===== *)
theory Yashd_Daemon
  imports Yashd_Launch
begin

text \<open>
  The daemon around the sessions (Project 2): becoming a daemon and locking the pid file
  (\<^verbatim>\<open>daemon.c\<close>), the log file (\<^verbatim>\<open>log.c\<close>), the listening socket and the address of a
  client (\<^verbatim>\<open>transport.c\<close>), the accept loop (\<^verbatim>\<open>server.c\<close>) and \<^verbatim>\<open>main.c\<close>.
  A process is its descriptor table, signals and group (\<^typ>\<open>proc\<close>) with the attributes that
  \<^verbatim>\<open>daemon_init\<close> changes. The answers of the calls are inputs.
\<close>

section \<open>daemon.c\<close>

record dproc = proc +
  my_pid :: pid
  session_leader :: bool
  has_tty :: bool
  cwd :: string
  umask_bits :: nat
  pid_fd :: int
  log_fd :: int
  pid_file :: string
  sock_node :: bool

record daemon_ans =
  fork1 :: pid
  setsid_ok :: bool
  fork2 :: pid
  chdir_ok :: bool
  open_max :: int
  null_ok :: bool
  pidopen_ok :: bool
  lock_ok :: bool
  trunc_ok :: bool
  pidwrite_n :: int
  pids :: "pid \<times> pid"

text \<open>A process either leaves through \<^verbatim>\<open>_exit\<close> or comes back with a result.\<close>

datatype 'a leaves = Exits int | Returns int 'a

definition MAX_FD_SCAN :: int where "MAX_FD_SCAN = 4096"
definition YASHD_PID_PATH :: string where "YASHD_PID_PATH = ''/tmp/yashd.pid''"
definition YASHD_LOG_PATH :: string where "YASHD_LOG_PATH = ''/tmp/yashd.log''"

text \<open>\<^verbatim>\<open>open\<close> at the lowest free descriptor below the limit, if the path can be opened.\<close>

definition open_at :: "nat \<Rightarrow> bool \<Rightarrow> ofile \<Rightarrow> 'p proc_scheme \<Rightarrow> int \<times> 'p proc_scheme" where
  "open_at lim ok f p =
     (if \<not> ok then (-1, p)
      else case fd_alloc lim (fdt p) of None \<Rightarrow> (-1, p) | Some n \<Rightarrow> (n, p\<lparr>fdt := (fdt p)(n \<mapsto> f)\<rparr>))"

definition c_dup :: "nat \<Rightarrow> int \<Rightarrow> 'p proc_scheme \<Rightarrow> int \<times> 'p proc_scheme" where
  "c_dup lim fd p = (case fdt p fd of None \<Rightarrow> (-1, p) | Some f \<Rightarrow> open_at lim True f p)"

definition p_close :: "int \<Rightarrow> 'p proc_scheme \<Rightarrow> 'p proc_scheme" where
  "p_close fd p = p\<lparr>fdt := c_close fd (fdt p)\<rparr>"

definition pidfile_lock :: "nat \<Rightarrow> daemon_ans \<Rightarrow> dproc \<Rightarrow> int \<times> dproc" where
  "pidfile_lock lim a p =
     (case open_at lim (pidopen_ok a) (Opened YASHD_PID_PATH O_RDWR_CREAT) p of
        (fd, p1) \<Rightarrow>
          let p2 = p1\<lparr>pid_fd := fd\<rparr> in
          if fd < 0 then (-1, p2)
          else if \<not> lock_ok a then (-1, (p_close fd p2)\<lparr>pid_fd := -1\<rparr>)
          else if \<not> trunc_ok a then (-1, p2)
          else
            let txt = show_int (my_pid p2) @ [LF];
                p3 = p2\<lparr>pid_file := take (nat (pidwrite_n a)) txt\<rparr>
            in if pidwrite_n a \<noteq> int (length txt) then (-1, p3) else (0, p3))"

fun close_scan :: "int list \<Rightarrow> 'p proc_scheme \<Rightarrow> 'p proc_scheme" where
  "close_scan [] p = p"
| "close_scan (fd # fds) p = close_scan fds (p_close fd p)"

definition scan_limit :: "int \<Rightarrow> int" where
  "scan_limit maxfd = (if maxfd < 0 \<or> maxfd > MAX_FD_SCAN then MAX_FD_SCAN else maxfd)"

text \<open>The second half of \<^verbatim>\<open>daemon_init\<close>, in the process that stays.\<close>

definition daemon_streams :: "nat \<Rightarrow> daemon_ans \<Rightarrow> dproc \<Rightarrow> int \<times> dproc" where
  "daemon_streams lim a p =
     (let p1 = close_scan [0..scan_limit (open_max a) - 1] p in
      case open_at lim (null_ok a) (Opened ''/dev/null'' O_RDWR) p1 of (n0, p2) \<Rightarrow>
      if n0 \<noteq> STDIN_FILENO then (-1, p2)
      else case c_dup lim STDIN_FILENO p2 of (n1, p3) \<Rightarrow>
      if n1 \<noteq> STDOUT_FILENO then (-1, p3)
      else case c_dup lim STDIN_FILENO p3 of (n2, p4) \<Rightarrow>
      if n2 \<noteq> STDERR_FILENO then (-1, p4)
      else pidfile_lock lim a p4)"

definition daemon_init :: "nat \<Rightarrow> daemon_ans \<Rightarrow> dproc \<Rightarrow> dproc leaves" where
  "daemon_init lim a p =
     (if fork1 a < 0 then Returns (-1) p
      else if fork1 a > 0 then Exits 0
      else
        let p1 = p\<lparr>my_pid := fst (pids a), session_leader := False\<rparr> in
        if \<not> setsid_ok a then Returns (-1) p1
        else
          let p2 = p1\<lparr>grp := my_pid p1, session_leader := True, has_tty := False\<rparr>;
              p3 = set_handler SIGHUP SIG_IGN p2
          in if fork2 a < 0 then Returns (-1) p3
             else if fork2 a > 0 then Exits 0
             else
               let p4 = p3\<lparr>my_pid := snd (pids a), session_leader := False\<rparr> in
               if \<not> chdir_ok a then Returns (-1) p4
               else
                 case daemon_streams lim a (p4\<lparr>cwd := ''/tmp'', umask_bits := 0\<rparr>) of (r, p5) \<Rightarrow> Returns r p5)"

section \<open>log.c\<close>

definition log_open :: "nat \<Rightarrow> bool \<Rightarrow> dproc \<Rightarrow> int \<times> dproc" where
  "log_open lim ok p =
     (case open_at lim ok (Opened YASHD_LOG_PATH O_WRONLY_CREAT_APPEND) p of
        (fd, p1) \<Rightarrow> (if fd < 0 then -1 else 0, p1\<lparr>log_fd := fd\<rparr>))"

definition log_close :: "dproc \<Rightarrow> dproc" where
  "log_close p = (if log_fd p \<ge> 0 then (p_close (log_fd p) p)\<lparr>log_fd := -1\<rparr> else p)"

section \<open>transport.c\<close>

datatype transport_kind = TRANSPORT_UNIX | TRANSPORT_TCP

record listen_ans =
  socket_ok :: bool
  reuse_ok :: bool
  bind_ok :: bool
  listen_ok :: bool

definition reusePort :: "listen_ans \<Rightarrow> int" where
  "reusePort a = (if reuse_ok a then 0 else -1)"

text \<open>
  \<open>sock_node\<close>: whether \<^verbatim>\<open>YASHD_SOCK_PATH\<close> is there. The stale one is unlinked, and a
  \<^verbatim>\<open>bind\<close> that succeeds makes a new one, which stays if \<^verbatim>\<open>listen\<close> then fails.
\<close>

definition listen_unix :: "nat \<Rightarrow> listen_ans \<Rightarrow> dproc \<Rightarrow> int \<times> dproc" where
  "listen_unix lim a p =
     (case open_at lim (socket_ok a) Socket p of (fd, p1) \<Rightarrow>
      if fd < 0 then (-1, p1)
      else
        let p2 = p1\<lparr>sock_node := False\<rparr>;
            p3 = (if bind_ok a then p2\<lparr>sock_node := True\<rparr> else p2)
        in if \<not> bind_ok a \<or> \<not> listen_ok a then (-1, p_close fd p3) else (fd, p3))"

definition listen_tcp :: "nat \<Rightarrow> listen_ans \<Rightarrow> dproc \<Rightarrow> int \<times> dproc" where
  "listen_tcp lim a p =
     (case open_at lim (socket_ok a) Socket p of (fd, p1) \<Rightarrow>
      if fd < 0 then (-1, p1)
      else if reusePort a < 0 then (-1, p_close fd p1)
      else if \<not> bind_ok a \<or> \<not> listen_ok a then (-1, p_close fd p1)
      else (fd, p1))"

definition transport_listen :: "nat \<Rightarrow> transport_kind \<Rightarrow> listen_ans \<Rightarrow> dproc \<Rightarrow> int \<times> dproc" where
  "transport_listen lim kind a p = (if kind = TRANSPORT_UNIX then listen_unix lim a p else listen_tcp lim a p)"

text \<open>What is known of a client that connects: its credentials, or its address in text form and port.\<close>

record caller =
  cred_pid :: "nat option"
  addr_text :: "string option"
  addr_port :: nat

definition peer_from_unix :: "caller \<Rightarrow> string \<times> nat" where
  "peer_from_unix c = (''local'', case cred_pid c of None \<Rightarrow> 0 | Some n \<Rightarrow> n)"

definition peer_from_tcp :: "caller \<Rightarrow> string \<times> nat" where
  "peer_from_tcp c = (case addr_text c of None \<Rightarrow> ''?'' | Some t \<Rightarrow> t, addr_port c)"

text \<open>\<^verbatim>\<open>accept\<close>: a caller, an error that is passed over, or another error.\<close>

datatype accepted = Caller caller bool bool | Aborted | AcceptError

definition transport_accept ::
  "nat \<Rightarrow> transport_kind \<Rightarrow> caller \<Rightarrow> 'p proc_scheme \<Rightarrow> int \<times> (string \<times> nat) \<times> 'p proc_scheme" where
  "transport_accept lim kind c p =
     (case open_at lim True Socket p of (cf, p1) \<Rightarrow>
      if cf < 0 then (-1, ([], 0), p1)
      else (cf, if kind = TRANSPORT_UNIX then peer_from_unix c else peer_from_tcp c, p1))"

definition transport_close :: "int \<Rightarrow> transport_kind \<Rightarrow> dproc \<Rightarrow> dproc" where
  "transport_close lfd kind p =
     (let p1 = (if lfd \<ge> 0 then p_close lfd p else p)
      in if kind = TRANSPORT_UNIX then p1\<lparr>sock_node := False\<rparr> else p1)"

section \<open>server.c\<close>

text \<open>
  The accept loop, on the answers of \<^verbatim>\<open>accept\<close>; the two flags of a caller say whether
  \<^verbatim>\<open>calloc\<close> and \<^verbatim>\<open>pthread_create\<close> succeed for it. The result is the process when the loop
  ends and the sessions that were started, each with the descriptor and the peer it was given; \<open>env\<close> is
  what a session takes from its surroundings. It is \<open>None\<close> when the answers are used up: then
  \<^verbatim>\<open>accept\<close> blocks. A descriptor table that is full makes \<^verbatim>\<open>accept\<close> fail. The sessions run
  concurrently and are taken up one by one in \<^verbatim>\<open>Yashd_Session\<close>; the descriptors they open and
  close while the loop runs are not in the table here.
\<close>

fun server_loop ::
  "nat \<Rightarrow> transport_kind \<Rightarrow> dsess \<Rightarrow> accepted list \<Rightarrow> dproc \<Rightarrow> dsess list \<Rightarrow> (dproc \<times> dsess list) option" where
  "server_loop lim kind env [] p ss = None"
| "server_loop lim kind env (Aborted # as) p ss = server_loop lim kind env as p ss"
| "server_loop lim kind env (AcceptError # as) p ss = Some (p, ss)"
| "server_loop lim kind env (Caller c calloc_ok thread_ok # as) p ss =
     (case transport_accept lim kind c p of (cf, peer, p1) \<Rightarrow>
      if cf < 0 then Some (p1, ss)
      else case session_create calloc_ok cf peer env of
             None \<Rightarrow> server_loop lim kind env as (p_close cf p1) ss
           | Some s \<Rightarrow>
               if \<not> thread_ok then
                 (case session_destroy (s\<lparr>self := proc.truncate p1\<rparr>) of
                    None \<Rightarrow> None
                  | Some s' \<Rightarrow> server_loop lim kind env as (p1\<lparr>fdt := fdt (self s')\<rparr>) ss)
               else server_loop lim kind env as p1 (ss @ [s]))"

definition server_run ::
  "nat \<Rightarrow> transport_kind \<Rightarrow> listen_ans \<Rightarrow> dsess \<Rightarrow> accepted list \<Rightarrow> dproc \<Rightarrow> (int \<times> dproc \<times> dsess list) option" where
  "server_run lim kind a env as p =
     (case transport_listen lim kind a p of (lfd, p1) \<Rightarrow>
      if lfd < 0 then Some (-1, p1, [])
      else map_option (\<lambda>(p2, ss). (-1, transport_close lfd kind p2, ss)) (server_loop lim kind env as p1 []))"

section \<open>main.c\<close>

text \<open>The exit status, the process at that point (where it is not one of the parents that leave) and the sessions.\<close>

definition daemon_main ::
  "nat \<Rightarrow> string list \<Rightarrow> daemon_ans \<Rightarrow> bool \<Rightarrow> listen_ans \<Rightarrow> dsess \<Rightarrow> accepted list \<Rightarrow> dproc
     \<Rightarrow> (int \<times> dproc option \<times> dsess list) option" where
  "daemon_main lim av a logok la env as p =
     (if length av = 2 \<and> av ! 1 = ''-u'' \<or> length av = 1 then
        let kind = (if length av = 2 then TRANSPORT_UNIX else TRANSPORT_TCP) in
        (case daemon_init lim a (set_handler SIGPIPE SIG_IGN p) of
           Exits n \<Rightarrow> Some (n, None, [])
         | Returns r p1 \<Rightarrow>
             if r < 0 then Some (1, Some p1, [])
             else case log_open lim logok p1 of (l, p2) \<Rightarrow>
                  if l < 0 then Some (1, Some p2, [])
                  else map_option (\<lambda>(_, p3, ss). (0, Some (log_close p3), ss)) (server_run lim kind la env as p2))
      else Some (1, Some p, []))"

section \<open>The state of the daemon process\<close>

lemma p_close_fields [simp]:
  "my_pid (p_close fd p) = my_pid p" "session_leader (p_close fd p) = session_leader p"
  "has_tty (p_close fd p) = has_tty p" "cwd (p_close fd p) = cwd p" "umask_bits (p_close fd p) = umask_bits p"
  "sigs (p_close fd p) = sigs p" "grp (p_close fd p) = grp p"
  by (simp_all add: p_close_def)

lemma close_scan_eq: "close_scan fds p = p\<lparr>fdt := (\<lambda>n. if n \<in> set fds then None else fdt p n)\<rparr>"
  by (induction fds arbitrary: p) (auto simp: p_close_def c_close_def fun_eq_iff)

lemma fd_alloc_least:
  assumes "\<And>m. 0 \<le> m \<Longrightarrow> m < n \<Longrightarrow> t m \<noteq> None" and "t n = None" and "0 \<le> n" and "n < int lim"
  shows "fd_alloc lim t = Some n"
  using assms by (auto simp: fd_alloc_def find_Some_iff intro!: exI [of _ "nat n"])

lemma open_at_Some:
  assumes "open_at lim ok f p = (n, p')" and "0 \<le> n"
  shows "fd_alloc lim (fdt p) = Some n \<and> p' = p\<lparr>fdt := (fdt p)(n \<mapsto> f)\<rparr>"
  using assms by (auto simp: open_at_def split: if_splits option.splits)

lemma c_dup_Some:
  assumes "c_dup lim fd p = (n, p')" and "0 \<le> n"
  shows "\<exists>f. fdt p fd = Some f \<and> p' = p\<lparr>fdt := (fdt p)(n \<mapsto> f)\<rparr>"
  using assms by (auto simp: c_dup_def split: option.splits dest!: open_at_Some)

text \<open>The table with the standard three on \<^verbatim>\<open>/dev/null\<close>.\<close>

definition null_streams :: "fdtab \<Rightarrow> int \<Rightarrow> fdtab" where
  "null_streams t mx =
     (\<lambda>n. if 0 \<le> n \<and> n < mx then None else t n)
       (0 \<mapsto> Opened ''/dev/null'' O_RDWR, 1 \<mapsto> Opened ''/dev/null'' O_RDWR, 2 \<mapsto> Opened ''/dev/null'' O_RDWR)"

lemma pidfile_lock_ok:
  assumes "pidfile_lock lim a p = (0, p')" and "\<And>n. 0 \<le> n \<Longrightarrow> n < 3 \<Longrightarrow> fdt p n \<noteq> None" and "fdt p 3 = None"
  shows "lock_ok a \<and> p' = p\<lparr>fdt := (fdt p)(3 \<mapsto> Opened YASHD_PID_PATH O_RDWR_CREAT), pid_fd := 3,
    pid_file := show_int (my_pid p) @ [LF]\<rparr>"
proof -
  let ?f = "Opened YASHD_PID_PATH O_RDWR_CREAT"
  obtain fd p1 where o: "open_at lim (pidopen_ok a) ?f p = (fd, p1)" by (metis prod.exhaust)
  have fd: "\<not> fd < 0" "lock_ok a" "trunc_ok a" using assms(1) o by (auto simp: pidfile_lock_def Let_def split: if_splits)
  then have al: "fd_alloc lim (fdt p) = Some fd" and p1: "p1 = p\<lparr>fdt := (fdt p)(fd \<mapsto> ?f)\<rparr>"
    using open_at_Some [OF o] by auto
  from fd_alloc_Some [OF al] assms(2) have "3 \<le> fd" "fd < int lim" by (meson not_less)+
  with fd_alloc_least [of 3 "fdt p" lim] assms(2,3) al have "fd = 3" by auto
  with assms(1) o fd p1 show ?thesis
    by (auto simp: pidfile_lock_def Let_def split: if_splits)
qed

lemma daemon_streams_ok:
  assumes "daemon_streams lim a p = (0, p')" and "3 < scan_limit (open_max a)"
  shows "lock_ok a \<and> p' = p\<lparr>fdt := (null_streams (fdt p) (scan_limit (open_max a)))(3 \<mapsto> Opened YASHD_PID_PATH O_RDWR_CREAT),
    pid_fd := 3, pid_file := show_int (my_pid p) @ [LF]\<rparr>"
proof -
  let ?mx = "scan_limit (open_max a)"
  let ?t1 = "\<lambda>n. if 0 \<le> n \<and> n < ?mx then None else fdt p n"
  let ?null = "Opened ''/dev/null'' O_RDWR"
  have "(n \<in> set [0..?mx - 1]) = (0 \<le> n \<and> n < ?mx)" for n by auto
  then have p1: "close_scan [0..?mx - 1] p = p\<lparr>fdt := ?t1\<rparr>" by (simp only: close_scan_eq)
  obtain n0 p2 where 2: "open_at lim (null_ok a) ?null (p\<lparr>fdt := ?t1\<rparr>) = (n0, p2)"
    by (cases "open_at lim (null_ok a) ?null (p\<lparr>fdt := ?t1\<rparr>)")
  note run2 = assms(1) [unfolded daemon_streams_def p1 Let_def 2 prod.case std_fds]
  have n0: "n0 = 0" using run2 by (rule contrapos_pp) simp
  have p2: "p2 = p\<lparr>fdt := ?t1(0 \<mapsto> ?null)\<rparr>" using open_at_Some [OF 2] n0 by simp
  obtain n1 p3 where 3: "c_dup lim 0 p2 = (n1, p3)" by (cases "c_dup lim 0 p2")
  have run3: "(if n1 \<noteq> 1 then (-1, p3) else case c_dup lim 0 p3 of (n2, p4) \<Rightarrow> if n2 \<noteq> 2 then (-1, p4) else pidfile_lock lim a p4)
      = (0, p')" using run2 n0 unfolding 3 by (simp only: prod.case simp_thms if_False)
  have n1: "n1 = 1" using run3 by (rule contrapos_pp) simp
  have p3: "p3 = p\<lparr>fdt := ?t1(0 \<mapsto> ?null, 1 \<mapsto> ?null)\<rparr>" using c_dup_Some [OF 3] n1 p2 by auto
  obtain n2 p4 where 4: "c_dup lim 0 p3 = (n2, p4)" by (cases "c_dup lim 0 p3")
  have run4: "(if n2 \<noteq> 2 then (-1, p4) else pidfile_lock lim a p4) = (0, p')"
    using run3 n1 unfolding 4 by (simp only: prod.case simp_thms if_False)
  have n2: "n2 = 2" using run4 by (rule contrapos_pp) simp
  have p4: "p4 = p\<lparr>fdt := null_streams (fdt p) ?mx\<rparr>" using c_dup_Some [OF 4] n2 p3 by (auto simp: null_streams_def)
  have "pidfile_lock lim a p4 = (0, p')"
    using run4 n2 by simp
  moreover have "fdt p4 n \<noteq> None" if "0 \<le> n" "n < 3" for n
  proof -
    have "n = 0 \<or> n = 1 \<or> n = 2" using that by arith
    then show ?thesis by (auto simp: p4 null_streams_def)
  qed
  moreover have "fdt p4 3 = None" using assms(2) by (simp add: p4 null_streams_def)
  ultimately have "lock_ok a \<and> p' = p4\<lparr>fdt := (fdt p4)(3 \<mapsto> Opened YASHD_PID_PATH O_RDWR_CREAT), pid_fd := 3,
      pid_file := show_int (my_pid p4) @ [LF]\<rparr>" by (rule pidfile_lock_ok)
  then show ?thesis by (simp add: p4)
qed

text \<open>
  C28. What \<^verbatim>\<open>daemon_init\<close> has achieved when it returns 0. The process is the grandchild: it is
  not a session leader and has no controlling terminal, it ignores \<^verbatim>\<open>SIGHUP\<close>, works in
  \<^verbatim>\<open>/tmp\<close> with an empty umask, has \<^verbatim>\<open>/dev/null\<close> as its three standard streams, holds
  the locked pid file, with its own pid as the contents, at descriptor 3, and every other descriptor
  below the scan limit is closed. (The limit is \<^verbatim>\<open>sysconf(_SC_OPEN_MAX)\<close>, or 4096 when that is
  unknown or larger.)
\<close>

theorem daemon_init_state:
  assumes "daemon_init lim a p = Returns 0 p'" and "3 < scan_limit (open_max a)"
  shows "fork1 a = 0 \<and> fork2 a = 0 \<and> lock_ok a \<and> \<not> session_leader p' \<and> \<not> has_tty p' \<and> cwd p' = ''/tmp''
    \<and> umask_bits p' = 0 \<and> sigs p' SIGHUP = SIG_IGN \<and> my_pid p' = snd (pids a)
    \<and> pid_fd p' = 3 \<and> pid_file p' = show_int (my_pid p') @ [LF]
    \<and> fdt p' = (null_streams (fdt p) (scan_limit (open_max a)))(3 \<mapsto> Opened YASHD_PID_PATH O_RDWR_CREAT)"
proof -
  let ?q = "(set_handler SIGHUP SIG_IGN (p\<lparr>my_pid := fst (pids a), session_leader := False,
      grp := fst (pids a), session_leader := True, has_tty := False\<rparr>))
      \<lparr>my_pid := snd (pids a), session_leader := False, cwd := ''/tmp'', umask_bits := 0\<rparr>"
  have f: "fork1 a = 0" "fork2 a = 0" and run: "daemon_streams lim a ?q = (0, p')"
    using assms(1) by (auto simp: daemon_init_def Let_def split: if_splits prod.splits)
  have "fdt ?q = fdt p" by (simp add: set_handler_def)
  with daemon_streams_ok [OF run assms(2)] f show ?thesis by (simp add: set_handler_def)
qed

definition demo_daemon :: dproc where
  "demo_daemon = \<lparr>fdt = \<lambda>n. if 0 \<le> n \<and> n < 8 then Some (Inherited n) else None, sigs = \<lambda>_. SIG_DFL, grp = 40, opened = [],
     errors = [], my_pid = 40, session_leader = False, has_tty = True, cwd = ''/home'', umask_bits = 18,
     pid_fd = -1, log_fd = -1, pid_file = [], sock_node = False\<rparr>"

definition demo_ans :: daemon_ans where
  "demo_ans = \<lparr>fork1 = 0, setsid_ok = True, fork2 = 0, chdir_ok = True, open_max = 16, null_ok = True, pidopen_ok = True,
     lock_ok = True, trunc_ok = True, pidwrite_n = 3, pids = (41, 42)\<rparr>"

lemma demo_daemon_run:
  "case daemon_init 16 demo_ans demo_daemon of Exits n \<Rightarrow> False | Returns r p \<Rightarrow> r = 0"
  by code_simp

theorem daemon_init_state_witness:
  "\<exists>p'. daemon_init 16 demo_ans demo_daemon = Returns 0 p' \<and> pid_file p' = ''42'' @ [LF] \<and> fdt p' 7 = None
     \<and> fdt p' 1 = Some (Opened ''/dev/null'' O_RDWR)"
proof -
  obtain p' where r: "daemon_init 16 demo_ans demo_daemon = Returns 0 p'"
    using demo_daemon_run by (auto split: leaves.splits)
  have s: "scan_limit (open_max demo_ans) = 16" by (simp add: scan_limit_def MAX_FD_SCAN_def demo_ans_def)
  have "show_int 42 = ''42''" by code_simp
  with daemon_init_state [OF r] s r show ?thesis by (auto simp: null_streams_def demo_ans_def)
qed

end
