(* ===== verification/Pintos_Base.thy ===== *)
theory Pintos_Base
  imports Prelude "HOL-Library.Word" "HOL-Library.Monad_Syntax"
begin

unbundle bit_operations_syntax

text \<open>
  What the Pintos components share: \<^verbatim>\<open>ASSERT\<close> (a failed assertion panics the kernel and is
  \<open>None\<close>), the arithmetic of \<^verbatim>\<open>size_t\<close> (32 bits; values are natural numbers and every addition
  and multiplication of the code wraps explicitly), the rounding macros of \<^verbatim>\<open>lib/round.h\<close>, and
  the little-endian layout of 32-bit integers.
\<close>

definition NULL :: addr where
  "NULL = 0"

definition ASSERT :: "bool \<Rightarrow> unit option" where
  "ASSERT b = (if b then Some () else None)"

lemma ASSERT_simps [simp]: "ASSERT True = Some ()" "ASSERT False = None"
  by (simp_all add: ASSERT_def)

lemma ASSERT_eq_Some [simp]: "ASSERT b = Some u \<longleftrightarrow> b"
  by (simp add: ASSERT_def)

lemma bind_ASSERT [simp]: "b \<Longrightarrow> ASSERT b \<bind> f = f ()"
  by (simp add: ASSERT_def)

section \<open>Sizes\<close>

definition SIZE_MAX :: nat where
  "SIZE_MAX = 2 ^ 32 - 1"

definition szt :: "nat \<Rightarrow> nat" where
  "szt n = n mod 2 ^ 32"

lemma szt_id [simp]: "n < 2 ^ 32 \<Longrightarrow> szt n = n"
  by (simp add: szt_def)

lemma szt_le: "szt n \<le> n"
  by (simp add: szt_def)

definition DIV_ROUND_UP :: "nat \<Rightarrow> nat \<Rightarrow> nat" where
  "DIV_ROUND_UP x step = szt (x + step - 1) div step"

definition ROUND_UP :: "nat \<Rightarrow> nat \<Rightarrow> nat" where
  "ROUND_UP x step = szt (x + step - 1) div step * step"

definition ROUND_DOWN :: "nat \<Rightarrow> nat \<Rightarrow> nat" where
  "ROUND_DOWN x step = x div step * step"

lemma DIV_ROUND_UP_bound:
  assumes "x + step - 1 < 2 ^ 32" and "0 < step"
  shows "x \<le> DIV_ROUND_UP x step * step" and "DIV_ROUND_UP x step * step < x + step"
proof -
  have e: "DIV_ROUND_UP x step = (x + step - 1) div step" using assms(1) by (simp add: DIV_ROUND_UP_def)
  have "(x + step - 1) div step * step + (x + step - 1) mod step = x + step - 1" "(x + step - 1) mod step < step"
    using assms(2) by simp_all
  then show "x \<le> DIV_ROUND_UP x step * step" "DIV_ROUND_UP x step * step < x + step"
    unfolding e using assms(2) by linarith+
qed

section \<open>Integers in memory\<close>

definition enc32 :: "32 word \<Rightarrow> bytes" where
  "enc32 w = map (\<lambda>i. char_of (unat w div 256 ^ i)) [0, 1, 2, 3]"

definition dec32 :: "bytes \<Rightarrow> 32 word" where
  "dec32 bs = word_of_nat (of_char (bs ! 0) + 256 * of_char (bs ! 1) + 65536 * of_char (bs ! 2) + 16777216 * of_char (bs ! 3))"

lemma length_enc32 [simp]: "length (enc32 w) = 4"
  by (simp add: enc32_def)

lemma split_bytes:
  fixes n :: nat
  assumes "n < 4294967296"
  shows "n mod 256 + 256 * (n div 256 mod 256) + 65536 * (n div 65536 mod 256) + 16777216 * (n div 16777216 mod 256) = n"
proof -
  have e: "n div 65536 = n div 256 div 256" "n div 16777216 = n div 256 div 256 div 256"
    using div_mult2_eq [of n 256 256] div_mult2_eq [of n "256 * 256" 256] by (simp_all add: div_mult2_eq [symmetric])
  have "n div 16777216 < 256" using assms by (intro less_mult_imp_div_less) simp
  then have l: "n div 256 div 256 div 256 mod 256 = n div 256 div 256 div 256" by (simp add: e(2))
  show ?thesis unfolding e l
    using mod_div_mult_eq [of n 256] mod_div_mult_eq [of "n div 256" 256] mod_div_mult_eq [of "n div 256 div 256" 256]
    by linarith
qed

lemma dec_enc32 [simp]: "dec32 (enc32 w) = w"
proof -
  have "unat w < 4294967296" using unsigned_less [of w] by simp
  moreover have "dec32 (enc32 w) = word_of_nat (unat w mod 256 + 256 * (unat w div 256 mod 256)
      + 65536 * (unat w div 65536 mod 256) + 16777216 * (unat w div 16777216 mod 256))"
    by (simp add: dec32_def enc32_def del: of_nat_add)
  ultimately show ?thesis unfolding split_bytes [OF \<open>unat w < 4294967296\<close>] by simp
qed

lemma dec32_append [simp]: "length bs = 4 \<Longrightarrow> dec32 (bs @ cs) = dec32 bs"
  by (simp add: dec32_def nth_append)

end
