(* ===== verification/Pintos_List.thy ===== *)
theory Pintos_List
  imports Pintos_Base "HOL-Library.Multiset"
begin

text \<open>
  The doubly linked lists of \<^verbatim>\<open>lib/kernel/list.c\<close> (Pintos). The two link fields of all
  \<^verbatim>\<open>struct list_elem\<close>s are two functions from addresses; address 0 is the null pointer. A
  \<^verbatim>\<open>struct list\<close> is known by the addresses of its two header elements. A failed
  \<^verbatim>\<open>ASSERT\<close> and an access through a null pointer are \<open>None\<close>; a loop is a partial function whose
  value is \<open>None\<close> as well where it would not end, and every loop is proved to return on well-formed
  lists. The comparison function with its auxiliary data is a parameter.
\<close>

section \<open>The heap\<close>

record lheap =
  prev :: "addr \<Rightarrow> addr"
  "next" :: "addr \<Rightarrow> addr"

record klist =
  head :: addr
  tail :: addr

definition set_prev :: "addr \<Rightarrow> addr \<Rightarrow> lheap \<Rightarrow> lheap option" where
  "set_prev e v h = (if e = NULL then None else Some (h\<lparr>prev := (prev h)(e := v)\<rparr>))"

definition set_next :: "addr \<Rightarrow> addr \<Rightarrow> lheap \<Rightarrow> lheap option" where
  "set_next e v h = (if e = NULL then None else Some (h\<lparr>next := (next h)(e := v)\<rparr>))"

section \<open>Operations\<close>

definition is_head :: "lheap \<Rightarrow> addr \<Rightarrow> bool" where
  "is_head h e \<longleftrightarrow> e \<noteq> NULL \<and> prev h e = NULL \<and> next h e \<noteq> NULL"

definition is_interior :: "lheap \<Rightarrow> addr \<Rightarrow> bool" where
  "is_interior h e \<longleftrightarrow> e \<noteq> NULL \<and> prev h e \<noteq> NULL \<and> next h e \<noteq> NULL"

definition is_tail :: "lheap \<Rightarrow> addr \<Rightarrow> bool" where
  "is_tail h e \<longleftrightarrow> e \<noteq> NULL \<and> prev h e \<noteq> NULL \<and> next h e = NULL"

definition list_init :: "klist \<Rightarrow> lheap \<Rightarrow> lheap option" where
  "list_init l h = do {
     h \<leftarrow> set_prev (head l) NULL h;
     h \<leftarrow> set_next (head l) (tail l) h;
     h \<leftarrow> set_prev (tail l) (head l) h;
     set_next (tail l) NULL h }"

definition list_begin :: "klist \<Rightarrow> lheap \<Rightarrow> addr" where
  "list_begin l h = next h (head l)"

definition list_next :: "addr \<Rightarrow> lheap \<Rightarrow> addr option" where
  "list_next e h = do { _ \<leftarrow> ASSERT (is_head h e \<or> is_interior h e); Some (next h e) }"

definition list_end :: "klist \<Rightarrow> addr" where
  "list_end l = tail l"

definition list_rbegin :: "klist \<Rightarrow> lheap \<Rightarrow> addr" where
  "list_rbegin l h = prev h (tail l)"

definition list_prev :: "addr \<Rightarrow> lheap \<Rightarrow> addr option" where
  "list_prev e h = do { _ \<leftarrow> ASSERT (is_interior h e \<or> is_tail h e); Some (prev h e) }"

definition list_rend :: "klist \<Rightarrow> addr" where
  "list_rend l = head l"

definition list_head :: "klist \<Rightarrow> addr" where
  "list_head l = head l"

definition list_tail :: "klist \<Rightarrow> addr" where
  "list_tail l = tail l"

definition list_insert :: "addr \<Rightarrow> addr \<Rightarrow> lheap \<Rightarrow> lheap option" where
  "list_insert before elem h = do {
     _ \<leftarrow> ASSERT (is_interior h before \<or> is_tail h before);
     _ \<leftarrow> ASSERT (elem \<noteq> NULL);
     h \<leftarrow> set_prev elem (prev h before) h;
     h \<leftarrow> set_next elem before h;
     h \<leftarrow> set_next (prev h before) elem h;
     set_prev before elem h }"

definition list_splice :: "addr \<Rightarrow> addr \<Rightarrow> addr \<Rightarrow> lheap \<Rightarrow> lheap option" where
  "list_splice before first lst h = do {
     _ \<leftarrow> ASSERT (is_interior h before \<or> is_tail h before);
     if first = lst then Some h
     else do {
       lst \<leftarrow> list_prev lst h;
       _ \<leftarrow> ASSERT (is_interior h first);
       _ \<leftarrow> ASSERT (is_interior h lst);
       h \<leftarrow> set_next (prev h first) (next h lst) h;
       h \<leftarrow> set_prev (next h lst) (prev h first) h;
       h \<leftarrow> set_prev first (prev h before) h;
       h \<leftarrow> set_next lst before h;
       h \<leftarrow> set_next (prev h before) first h;
       set_prev before lst h } }"

definition list_push_front :: "klist \<Rightarrow> addr \<Rightarrow> lheap \<Rightarrow> lheap option" where
  "list_push_front l elem h = list_insert (list_begin l h) elem h"

definition list_push_back :: "klist \<Rightarrow> addr \<Rightarrow> lheap \<Rightarrow> lheap option" where
  "list_push_back l elem h = list_insert (list_end l) elem h"

definition list_remove :: "addr \<Rightarrow> lheap \<Rightarrow> (addr \<times> lheap) option" where
  "list_remove elem h = do {
     _ \<leftarrow> ASSERT (is_interior h elem);
     h \<leftarrow> set_next (prev h elem) (next h elem) h;
     h \<leftarrow> set_prev (next h elem) (prev h elem) h;
     Some (next h elem, h) }"

definition list_empty :: "klist \<Rightarrow> lheap \<Rightarrow> bool" where
  "list_empty l h \<longleftrightarrow> list_begin l h = list_end l"

definition list_front :: "klist \<Rightarrow> lheap \<Rightarrow> addr option" where
  "list_front l h = do { _ \<leftarrow> ASSERT (\<not> list_empty l h); Some (next h (head l)) }"

definition list_back :: "klist \<Rightarrow> lheap \<Rightarrow> addr option" where
  "list_back l h = do { _ \<leftarrow> ASSERT (\<not> list_empty l h); Some (prev h (tail l)) }"

definition list_pop_front :: "klist \<Rightarrow> lheap \<Rightarrow> (addr \<times> lheap) option" where
  "list_pop_front l h = do {
     front \<leftarrow> list_front l h;
     (_, h) \<leftarrow> list_remove front h;
     Some (front, h) }"

definition list_pop_back :: "klist \<Rightarrow> lheap \<Rightarrow> (addr \<times> lheap) option" where
  "list_pop_back l h = do {
     back \<leftarrow> list_back l h;
     (_, h) \<leftarrow> list_remove back h;
     Some (back, h) }"

partial_function (option) size_loop :: "addr \<Rightarrow> lheap \<Rightarrow> addr \<Rightarrow> nat \<Rightarrow> nat option" where
  [code]: "size_loop stop h e cnt =
     (if e \<noteq> stop then do { e \<leftarrow> list_next e h; size_loop stop h e (cnt + 1) } else Some cnt)"

definition list_size :: "klist \<Rightarrow> lheap \<Rightarrow> nat option" where
  "list_size l h = size_loop (list_end l) h (list_begin l h) 0"

text \<open>\<^verbatim>\<open>swap\<close> of the two links of one element, and of two links of different elements.\<close>

definition swap_links :: "addr \<Rightarrow> lheap \<Rightarrow> lheap option" where
  "swap_links e h = do {
     h' \<leftarrow> set_prev e (next h e) h;
     set_next e (prev h e) h' }"

partial_function (option) reverse_loop :: "addr \<Rightarrow> addr \<Rightarrow> lheap \<Rightarrow> lheap option" where
  [code]: "reverse_loop stop e h =
     (if e \<noteq> stop then do { h \<leftarrow> swap_links e h; reverse_loop stop (prev h e) h } else Some h)"

definition list_reverse :: "klist \<Rightarrow> lheap \<Rightarrow> lheap option" where
  "list_reverse l h =
     (if \<not> list_empty l h then do {
        h \<leftarrow> reverse_loop (list_end l) (list_begin l h) h;
        let t = next h (head l);
        h \<leftarrow> set_next (head l) (prev h (tail l)) h;
        h \<leftarrow> set_prev (tail l) t h;
        let f = next h (head l); let b = prev h (tail l);
        let t = prev h f;
        h \<leftarrow> set_prev f (next h b) h;
        set_next b t h }
      else Some h)"

subsection \<open>Ordered lists\<close>

text \<open>
  The loops of \<^verbatim>\<open>is_sorted\<close> and \<^verbatim>\<open>find_end_of_run\<close>; \<open>lt\<close> is the comparison
  function with its auxiliary data.
\<close>

partial_function (option) sorted_loop :: "(addr \<Rightarrow> addr \<Rightarrow> bool) \<Rightarrow> addr \<Rightarrow> lheap \<Rightarrow> addr \<Rightarrow> bool option" where
  [code]: "sorted_loop lt b h a = do {
     a \<leftarrow> list_next a h;
     if a \<noteq> b then do {
       p \<leftarrow> list_prev a h;
       if lt a p then Some False else sorted_loop lt b h a }
     else Some True }"

definition is_sorted :: "(addr \<Rightarrow> addr \<Rightarrow> bool) \<Rightarrow> addr \<Rightarrow> addr \<Rightarrow> lheap \<Rightarrow> bool option" where
  "is_sorted lt a b h = (if a \<noteq> b then sorted_loop lt b h a else Some True)"

partial_function (option) run_loop :: "(addr \<Rightarrow> addr \<Rightarrow> bool) \<Rightarrow> addr \<Rightarrow> lheap \<Rightarrow> addr \<Rightarrow> addr option" where
  [code]: "run_loop lt b h a = do {
     a \<leftarrow> list_next a h;
     if a \<noteq> b then do {
       p \<leftarrow> list_prev a h;
       if \<not> lt a p then run_loop lt b h a else Some a }
     else Some a }"

definition find_end_of_run :: "(addr \<Rightarrow> addr \<Rightarrow> bool) \<Rightarrow> addr \<Rightarrow> addr \<Rightarrow> lheap \<Rightarrow> addr option" where
  "find_end_of_run lt a b h = do {
     _ \<leftarrow> ASSERT (a \<noteq> NULL);
     _ \<leftarrow> ASSERT (b \<noteq> NULL);
     _ \<leftarrow> ASSERT (a \<noteq> b);
     run_loop lt b h a }"

partial_function (option) merge_loop ::
  "(addr \<Rightarrow> addr \<Rightarrow> bool) \<Rightarrow> addr \<Rightarrow> addr \<Rightarrow> addr \<Rightarrow> lheap \<Rightarrow> lheap option" where
  [code]: "merge_loop lt b1 a0 a1b0 h =
     (if a0 \<noteq> a1b0 \<and> a1b0 \<noteq> b1 then
        if \<not> lt a1b0 a0 then do { a0 \<leftarrow> list_next a0 h; merge_loop lt b1 a0 a1b0 h }
        else do {
          a1b0 \<leftarrow> list_next a1b0 h;
          p \<leftarrow> list_prev a1b0 h;
          h \<leftarrow> list_splice a0 p a1b0 h;
          merge_loop lt b1 a0 a1b0 h }
      else Some h)"

definition inplace_merge ::
  "(addr \<Rightarrow> addr \<Rightarrow> bool) \<Rightarrow> addr \<Rightarrow> addr \<Rightarrow> addr \<Rightarrow> lheap \<Rightarrow> lheap option" where
  "inplace_merge lt a0 a1b0 b1 h = do {
     _ \<leftarrow> ASSERT (a0 \<noteq> NULL);
     _ \<leftarrow> ASSERT (a1b0 \<noteq> NULL);
     _ \<leftarrow> ASSERT (b1 \<noteq> NULL);
     s1 \<leftarrow> is_sorted lt a0 a1b0 h;
     _ \<leftarrow> ASSERT s1;
     s2 \<leftarrow> is_sorted lt a1b0 b1 h;
     _ \<leftarrow> ASSERT s2;
     merge_loop lt b1 a0 a1b0 h }"

text \<open>One pass of \<^verbatim>\<open>list_sort\<close> from \<open>a0\<close> on, and the passes until one run is left.\<close>

partial_function (option) sort_pass ::
  "(addr \<Rightarrow> addr \<Rightarrow> bool) \<Rightarrow> klist \<Rightarrow> addr \<Rightarrow> nat \<Rightarrow> lheap \<Rightarrow> (nat \<times> lheap) option" where
  [code]: "sort_pass lt l a0 cnt h =
     (if a0 \<noteq> list_end l then do {
        a1b0 \<leftarrow> find_end_of_run lt a0 (list_end l) h;
        if a1b0 = list_end l then Some (cnt + 1, h)
        else do {
          b1 \<leftarrow> find_end_of_run lt a1b0 (list_end l) h;
          h \<leftarrow> inplace_merge lt a0 a1b0 b1 h;
          sort_pass lt l b1 (cnt + 1) h } }
      else Some (cnt, h))"

partial_function (option) sort_passes :: "(addr \<Rightarrow> addr \<Rightarrow> bool) \<Rightarrow> klist \<Rightarrow> lheap \<Rightarrow> lheap option" where
  [code]: "sort_passes lt l h = do {
     (cnt, h) \<leftarrow> sort_pass lt l (list_begin l h) 0 h;
     if cnt > 1 then sort_passes lt l h else Some h }"

definition list_sort :: "(addr \<Rightarrow> addr \<Rightarrow> bool) \<Rightarrow> klist \<Rightarrow> lheap \<Rightarrow> lheap option" where
  "list_sort lt l h = do {
     h \<leftarrow> sort_passes lt l h;
     s \<leftarrow> is_sorted lt (list_begin l h) (list_end l) h;
     _ \<leftarrow> ASSERT s;
     Some h }"

partial_function (option) ordered_loop ::
  "(addr \<Rightarrow> addr \<Rightarrow> bool) \<Rightarrow> addr \<Rightarrow> addr \<Rightarrow> lheap \<Rightarrow> addr \<Rightarrow> addr option" where
  [code]: "ordered_loop lt stop elem h e =
     (if e \<noteq> stop then
        if lt elem e then Some e
        else do { e \<leftarrow> list_next e h; ordered_loop lt stop elem h e }
      else Some e)"

definition list_insert_ordered :: "(addr \<Rightarrow> addr \<Rightarrow> bool) \<Rightarrow> klist \<Rightarrow> addr \<Rightarrow> lheap \<Rightarrow> lheap option" where
  "list_insert_ordered lt l elem h = do {
     _ \<leftarrow> ASSERT (elem \<noteq> NULL);
     e \<leftarrow> ordered_loop lt (list_end l) elem h (list_begin l h);
     list_insert e elem h }"

partial_function (option) unique_loop ::
  "(addr \<Rightarrow> addr \<Rightarrow> bool) \<Rightarrow> klist \<Rightarrow> klist option \<Rightarrow> addr \<Rightarrow> lheap \<Rightarrow> lheap option" where
  [code]: "unique_loop lt l dups elem h = do {
     nx \<leftarrow> list_next elem h;
     if nx \<noteq> list_end l then
       if \<not> lt elem nx \<and> \<not> lt nx elem then do {
         (_, h) \<leftarrow> list_remove nx h;
         h \<leftarrow> (case dups of None \<Rightarrow> Some h | Some d \<Rightarrow> list_push_back d nx h);
         unique_loop lt l dups elem h }
       else unique_loop lt l dups nx h
     else Some h }"

definition list_unique :: "(addr \<Rightarrow> addr \<Rightarrow> bool) \<Rightarrow> klist \<Rightarrow> klist option \<Rightarrow> lheap \<Rightarrow> lheap option" where
  "list_unique lt l dups h =
     (if list_empty l h then Some h else unique_loop lt l dups (list_begin l h) h)"

text \<open>The scans of \<^verbatim>\<open>list_max\<close> and \<^verbatim>\<open>list_min\<close>; \<open>better e m\<close> says that \<open>e\<close> replaces \<open>m\<close>.\<close>

partial_function (option) extreme_loop ::
  "(addr \<Rightarrow> addr \<Rightarrow> bool) \<Rightarrow> addr \<Rightarrow> lheap \<Rightarrow> addr \<Rightarrow> addr \<Rightarrow> addr option" where
  [code]: "extreme_loop better stop h m e =
     (if e \<noteq> stop then do {
        e' \<leftarrow> list_next e h;
        extreme_loop better stop h (if better e m then e else m) e' }
      else Some m)"

definition list_max :: "(addr \<Rightarrow> addr \<Rightarrow> bool) \<Rightarrow> klist \<Rightarrow> lheap \<Rightarrow> addr option" where
  "list_max lt l h =
     (let m = list_begin l h in
      if m \<noteq> list_end l then do { e \<leftarrow> list_next m h; extreme_loop (\<lambda>e m. lt m e) (list_end l) h m e }
      else Some m)"

definition list_min :: "(addr \<Rightarrow> addr \<Rightarrow> bool) \<Rightarrow> klist \<Rightarrow> lheap \<Rightarrow> addr option" where
  "list_min lt l h =
     (let m = list_begin l h in
      if m \<noteq> list_end l then do { e \<leftarrow> list_next m h; extreme_loop lt (list_end l) h m e }
      else Some m)"

section \<open>The lists a heap represents\<close>

fun chain :: "lheap \<Rightarrow> addr list \<Rightarrow> bool" where
  "chain h (a # b # ns) \<longleftrightarrow> next h a = b \<and> prev h b = a \<and> chain h (b # ns)"
| "chain h _ \<longleftrightarrow> True"

text \<open>\<open>ns\<close> are all elements of a list in order, headers included.\<close>

definition dl :: "lheap \<Rightarrow> addr list \<Rightarrow> bool" where
  "dl h ns \<longleftrightarrow> distinct ns \<and> NULL \<notin> set ns \<and> 2 \<le> length ns \<and> prev h (hd ns) = NULL
     \<and> next h (last ns) = NULL \<and> chain h ns"

definition nodes :: "klist \<Rightarrow> addr list \<Rightarrow> addr list" where
  "nodes l xs = head l # xs @ [tail l]"

definition list_rep :: "lheap \<Rightarrow> klist \<Rightarrow> addr list \<Rightarrow> bool" where
  "list_rep h l xs \<longleftrightarrow> dl h (nodes l xs)"

definition frame :: "addr set \<Rightarrow> lheap \<Rightarrow> lheap \<Rightarrow> bool" where
  "frame S h h' \<longleftrightarrow> (\<forall>x. x \<notin> S \<longrightarrow> next h' x = next h x \<and> prev h' x = prev h x)"

lemma frame_refl [simp]: "frame S h h"
  by (simp add: frame_def)

lemma frame_trans: "frame S h h' \<Longrightarrow> frame S h' h'' \<Longrightarrow> frame S h h''"
  by (simp add: frame_def)

lemma frame_mono: "frame S h h' \<Longrightarrow> S \<subseteq> T \<Longrightarrow> frame T h h'"
  by (auto simp: frame_def)

lemma chain_split:
  "chain h (us @ a # b # vs) \<longleftrightarrow> chain h (us @ [a]) \<and> next h a = b \<and> prev h b = a \<and> chain h (b # vs)"
  by (induction us rule: induct_list012) auto

lemma chain_cong:
  "(\<And>x. x \<in> set (butlast ns) \<Longrightarrow> next h' x = next h x) \<Longrightarrow>
   (\<And>x. x \<in> set (List.tl ns) \<Longrightarrow> prev h' x = prev h x) \<Longrightarrow> chain h' ns = chain h ns"
  by (induction h ns rule: chain.induct) auto

lemma set_tl_D: "x \<in> set (List.tl ns) \<Longrightarrow> x \<in> set ns"
  by (cases ns) auto

lemma dl_frame: "dl h ns \<Longrightarrow> frame S h h' \<Longrightarrow> set ns \<inter> S = {} \<Longrightarrow> dl h' ns"
proof -
  assume d: "dl h ns" and f: "frame S h h'" "set ns \<inter> S = {}"
  then have e: "next h' x = next h x" "prev h' x = prev h x" if "x \<in> set ns" for x
    using that by (auto simp: frame_def)
  have "chain h' ns = chain h ns"
    by (rule chain_cong) (auto intro!: e dest: in_set_butlastD set_tl_D)
  moreover have "hd ns \<in> set ns" "last ns \<in> set ns" using d by (cases ns; simp add: dl_def)+
  ultimately show "dl h' ns" using d e by (simp add: dl_def)
qed

lemma list_rep_frame: "list_rep h l xs \<Longrightarrow> frame S h h' \<Longrightarrow> set (nodes l xs) \<inter> S = {} \<Longrightarrow> list_rep h' l xs"
  unfolding list_rep_def by (rule dl_frame)

lemma dl_link:
  assumes "dl h (us @ a # b # vs)"
  shows "next h a = b" "prev h b = a" "a \<noteq> b" "a \<noteq> NULL" "b \<noteq> NULL"
  using assms by (auto simp: dl_def chain_split)

lemma dl_left:
  assumes "dl h (us @ a # vs)" and "vs \<noteq> []"
  shows "is_head h a \<or> is_interior h a" "next h a = hd vs"
proof -
  from assms(2) obtain b vs' where vs: "vs = b # vs'" by (cases vs) auto
  from dl_link [of h us a b vs'] assms(1) show "is_head h a \<or> is_interior h a" "next h a = hd vs"
    by (auto simp: vs is_head_def is_interior_def)
qed

lemma dl_right:
  assumes "dl h (us @ b # vs)" and "us \<noteq> []"
  shows "is_interior h b \<or> is_tail h b" "prev h b = last us"
proof -
  from assms(2) obtain us' a where us: "us = us' @ [a]" by (cases us rule: rev_cases) auto
  from dl_link [of h us' a b vs] assms(1) show "is_interior h b \<or> is_tail h b" "prev h b = last us"
    by (auto simp: us is_tail_def is_interior_def)
qed

lemma dl_interior:
  assumes "dl h (us @ b # vs)" and "us \<noteq> []" and "vs \<noteq> []"
  shows "is_interior h b"
proof -
  from assms(2) obtain us' a where us: "us = us' @ [a]" by (cases us rule: rev_cases) auto
  from assms(3) obtain c vs' where vs: "vs = c # vs'" by (cases vs) auto
  from dl_link [of h us' a b vs] dl_link [of h us b c vs'] assms(1) show ?thesis
    by (auto simp: us vs is_interior_def)
qed

lemma dl_list_next: "dl h (us @ a # b # vs) \<Longrightarrow> list_next a h = Some b"
  using dl_left [of h us a "b # vs"] by (simp add: list_next_def ASSERT_def)

lemma dl_list_prev: "dl h (us @ a # b # vs) \<Longrightarrow> list_prev b h = Some a"
  using dl_right [of h "us @ [a]" b vs] by (simp add: list_prev_def ASSERT_def)

section \<open>Insertion, removal and splicing\<close>

lemma dl_insert:
  assumes d: "dl h (us @ a # b # vs)" and e: "e \<notin> set (us @ a # b # vs)" "e \<noteq> NULL"
  shows "\<exists>h'. list_insert b e h = Some h' \<and> dl h' (us @ a # e # b # vs) \<and> frame {a, e, b} h h'"
proof -
  note L = dl_link [OF d]
  have "is_interior h b \<or> is_tail h b" using dl_right [of h "us @ [a]" b vs] d by simp
  moreover define h' where "h' = \<lparr>prev = (prev h)(e := a, b := e), next = (next h)(e := b, a := e)\<rparr>"
  ultimately have "list_insert b e h = Some h'"
    using L e by (auto simp: list_insert_def ASSERT_def set_prev_def set_next_def fun_upd_twist)
  moreover have "chain h' (us @ a # e # b # vs)"
  proof -
    have "chain h' (us @ [a]) = chain h (us @ [a])" "chain h' (b # vs) = chain h (b # vs)"
      using d e by (intro chain_cong; auto simp: h'_def dl_def dest: in_set_butlastD set_tl_D split: if_splits)+
    then show ?thesis using d L e by (auto simp: dl_def chain_split h'_def)
  qed
  then have "dl h' (us @ a # e # b # vs)"
    using d e by (cases us; cases vs rule: rev_cases) (auto simp: dl_def h'_def)
  moreover have "frame {a, e, b} h h'" by (simp add: frame_def h'_def)
  ultimately show ?thesis by blast
qed

lemma dl_remove:
  assumes d: "dl h (us @ a # e # b # vs)"
  shows "\<exists>h'. list_remove e h = Some (b, h') \<and> dl h' (us @ a # b # vs) \<and> frame {a, b} h h'"
proof -
  have d': "dl h ((us @ [a]) @ e # b # vs)" using d by simp
  note L = dl_link [OF d] dl_link [OF d']
  have "a \<noteq> b" using d by (auto simp: dl_def)
  have "is_interior h e" using dl_interior [of h "us @ [a]" e "b # vs"] d by simp
  moreover define h' where "h' = \<lparr>prev = (prev h)(b := a), next = (next h)(a := b)\<rparr>"
  ultimately have "list_remove e h = Some (b, h')"
    using L \<open>a \<noteq> b\<close> by (simp add: list_remove_def ASSERT_def set_prev_def set_next_def)
  moreover have "chain h' (us @ a # b # vs)"
  proof -
    have "chain h' (us @ [a]) = chain h (us @ [a])" "chain h' (b # vs) = chain h (b # vs)"
      using d by (intro chain_cong; auto simp: h'_def dl_def dest: in_set_butlastD set_tl_D split: if_splits)+
    then show ?thesis
      using d chain_split [of h us a e "b # vs"] by (auto simp: dl_def chain_split h'_def)
  qed
  then have "dl h' (us @ a # b # vs)"
    using d by (cases us; cases vs rule: rev_cases) (auto simp: dl_def h'_def)
  moreover have "frame {a, b} h h'" by (simp add: frame_def h'_def)
  ultimately show ?thesis by blast
qed

lemma chain_append:
  "us \<noteq> [] \<Longrightarrow> vs \<noteq> [] \<Longrightarrow>
   chain h (us @ vs) \<longleftrightarrow> chain h us \<and> next h (last us) = hd vs \<and> prev h (hd vs) = last us \<and> chain h vs"
  by (induction us rule: induct_list012; cases vs) auto

text \<open>The six assignments of \<^verbatim>\<open>list_splice\<close>, with the elements they touch.\<close>

definition spliced :: "addr \<Rightarrow> addr \<Rightarrow> addr \<Rightarrow> addr \<Rightarrow> addr \<Rightarrow> addr \<Rightarrow> lheap \<Rightarrow> lheap" where
  "spliced x f y g z c h =
     \<lparr>prev = (prev h)(c := y, g := x, f := z), next = (next h)(y := c, z := f, x := g)\<rparr>"

lemma list_splice_eq:
  assumes "is_interior h f \<or> is_tail h f" and "is_interior h c \<or> is_tail h c" and "is_interior h g" and "is_interior h z"
    and "prev h f = x" and "prev h g = y" and "prev h c = z" and "next h z = c" and "g \<noteq> c" and "f \<noteq> c" and "f \<noteq> g"
    and "x \<noteq> y \<or> f = c" and "g \<noteq> NULL" and "y \<noteq> z"
  shows "list_splice f g c h = Some (spliced x f y g z c h)"
proof -
  have "x \<noteq> NULL" "y \<noteq> NULL" "z \<noteq> NULL" "c \<noteq> NULL" "f \<noteq> NULL"
    using assms by (auto simp: is_interior_def is_tail_def)
  then show ?thesis
    using assms by (simp add: list_splice_def list_prev_def ASSERT_def set_prev_def set_next_def spliced_def)
qed

lemma frame_spliced: "frame {x, f, y, g, z, c} h (spliced x f y g z c h)"
  by (simp add: frame_def spliced_def)

lemma chain_off:
  assumes "chain h ns" and "\<And>n. n \<in> set ns \<Longrightarrow> n \<noteq> last ns \<Longrightarrow> next h' n = next h n"
    and "\<And>n. n \<in> set ns \<Longrightarrow> n \<noteq> hd ns \<Longrightarrow> prev h' n = prev h n" and "distinct ns"
  shows "chain h' ns"
proof -
  have "n \<in> set ns \<and> n \<noteq> last ns" if "n \<in> set (butlast ns)" for n
    using that assms(4) by (cases ns rule: rev_cases) auto
  moreover have "n \<in> set ns \<and> n \<noteq> hd ns" if "n \<in> set (List.tl ns)" for n
    using that assms(4) by (cases ns) auto
  ultimately show ?thesis using assms(1-3) chain_cong [of ns h' h] by blast
qed

lemma dl_segments:
  assumes "dl h (us @ as @ bs @ vs)" and "us \<noteq> []" "as \<noteq> []" "bs \<noteq> []" "vs \<noteq> []"
  shows "chain h us" "chain h as" "chain h bs" "chain h vs" "prev h (hd as) = last us" "prev h (hd bs) = last as"
    "prev h (hd vs) = last bs" "next h (last bs) = hd vs" "next h (last us) = hd as" "next h (last as) = hd bs"
  using assms by (auto simp: dl_def chain_append)

lemma dl_hd_right: "dl h (us @ vs) \<Longrightarrow> us \<noteq> [] \<Longrightarrow> vs \<noteq> [] \<Longrightarrow> is_interior h (hd vs) \<or> is_tail h (hd vs)"
  using dl_right(1) [of h us "hd vs" "List.tl vs"] by simp

lemma dl_mid_interior:
  assumes "dl h (us @ bs @ vs)" and "us \<noteq> []" "bs \<noteq> []" "vs \<noteq> []"
  shows "is_interior h (hd bs)" "is_interior h (last bs)"
proof -
  obtain g bs' where g: "bs = g # bs'" using assms(3) by (cases bs) auto
  show "is_interior h (hd bs)" using dl_interior [of h us g "bs' @ vs"] assms by (simp add: g)
  obtain bz z where z: "bs = bz @ [z]" using assms(3) by (cases bs rule: rev_cases) auto
  show "is_interior h (last bs)" using dl_interior [of h "us @ bz" z vs] assms by (simp add: z)
qed

lemma dl_splice_same:
  assumes d: "dl h (us @ as @ bs @ vs)" and ne: "us \<noteq> []" "as \<noteq> []" "bs \<noteq> []" "vs \<noteq> []"
  shows "\<exists>h'. list_splice (hd as) (hd bs) (hd vs) h = Some h' \<and> dl h' (us @ bs @ as @ vs)
    \<and> frame (set (us @ as @ bs @ vs)) h h'"
proof -
  let ?h = "spliced (last us) (hd as) (last as) (hd bs) (last bs) (hd vs) h"
  have S: "last us \<in> set us" "last as \<in> set as" "last bs \<in> set bs" "hd as \<in> set as" "hd bs \<in> set bs" "hd vs \<in> set vs"
    using ne by auto
  have dist: "set us \<inter> set as = {}" "set us \<inter> set bs = {}" "set us \<inter> set vs = {}" "set as \<inter> set bs = {}"
    "set as \<inter> set vs = {}" "set bs \<inter> set vs = {}" "distinct us" "distinct as" "distinct bs" "distinct vs"
    using d by (auto simp: dl_def)
  note seg = dl_segments [OF d ne]
  have int: "is_interior h (hd as) \<or> is_tail h (hd as)" "is_interior h (hd vs) \<or> is_tail h (hd vs)"
    "is_interior h (hd bs)" "is_interior h (last bs)"
    using d ne dl_hd_right [of h us "as @ bs @ vs"] dl_hd_right [of h "us @ as @ bs" vs]
      dl_mid_interior [of h "us @ as" bs vs] by auto
  have ne2: "hd bs \<noteq> hd vs" "hd as \<noteq> hd vs" "hd as \<noteq> hd bs" "last us \<noteq> last as" "hd bs \<noteq> NULL" "last as \<noteq> last bs"
    using S dist d by (auto simp: dl_def)
  have "list_splice (hd as) (hd bs) (hd vs) h = Some ?h"
    using int seg ne2 by (intro list_splice_eq) auto
  moreover have ch: "chain ?h us" "chain ?h as" "chain ?h bs" "chain ?h vs"
    using S dist by (auto intro!: chain_off [OF seg(1)] chain_off [OF seg(2)] chain_off [OF seg(3)] chain_off [OF seg(4)]
      simp: spliced_def disjoint_iff)
  moreover have "next ?h (last us) = hd bs" "prev ?h (hd bs) = last us" "next ?h (last bs) = hd as"
    "prev ?h (hd as) = last bs" "next ?h (last as) = hd vs" "prev ?h (hd vs) = last as"
    using S dist ne2 by (auto simp: spliced_def disjoint_iff)
  ultimately have "chain ?h (us @ bs @ as @ vs)" using ne by (simp add: chain_append)
  moreover have "prev ?h (hd us) = NULL" "next ?h (last vs) = NULL"
    using d ne S dist by (auto simp: spliced_def dl_def disjoint_iff) (metis list.set_sel(1) last_in_set)+
  ultimately have "dl ?h (us @ bs @ as @ vs)" using d ne by (auto simp: dl_def)
  moreover have "frame (set (us @ as @ bs @ vs)) h ?h"
    by (rule frame_mono [OF frame_spliced]) (use S in auto)
  ultimately show ?thesis using \<open>list_splice (hd as) (hd bs) (hd vs) h = Some ?h\<close> by blast
qed

section \<open>Merge sort on lists\<close>

text \<open>The functions the loops of \<^verbatim>\<open>list_sort\<close> compute.\<close>

fun run_part :: "('a \<Rightarrow> 'a \<Rightarrow> bool) \<Rightarrow> 'a \<Rightarrow> 'a list \<Rightarrow> 'a list" where
  "run_part lt a [] = []"
| "run_part lt a (x # xs) = (if \<not> lt x a then x # run_part lt x xs else [])"

fun run_rest :: "('a \<Rightarrow> 'a \<Rightarrow> bool) \<Rightarrow> 'a \<Rightarrow> 'a list \<Rightarrow> 'a list" where
  "run_rest lt a [] = []"
| "run_rest lt a (x # xs) = (if \<not> lt x a then run_rest lt x xs else x # xs)"

fun mrg :: "('a \<Rightarrow> 'a \<Rightarrow> bool) \<Rightarrow> 'a list \<Rightarrow> 'a list \<Rightarrow> 'a list" where
  "mrg lt (a # as) (b # bs) = (if \<not> lt b a then a # mrg lt as (b # bs) else b # mrg lt (a # as) bs)"
| "mrg lt [] bs = bs"
| "mrg lt as [] = as"

fun descents :: "('a \<Rightarrow> 'a \<Rightarrow> bool) \<Rightarrow> 'a list \<Rightarrow> nat" where
  "descents lt (a # b # xs) = (if lt b a then 1 else 0) + descents lt (b # xs)"
| "descents lt _ = 0"

lemma run_split: "run_part lt a xs @ run_rest lt a xs = xs"
  by (induction lt a xs rule: run_part.induct) auto

lemma run_rest_length: "length (run_rest lt a xs) \<le> length xs"
  by (induction lt a xs rule: run_rest.induct) auto

lemma run_part_descents [simp]: "descents lt (a # run_part lt a xs) = 0"
  by (induction lt a xs rule: run_part.induct) auto

function pass :: "('a \<Rightarrow> 'a \<Rightarrow> bool) \<Rightarrow> 'a list \<Rightarrow> 'a list \<times> nat" where
  "pass lt [] = ([], 0)"
| "pass lt (a # xs) =
     (case run_rest lt a xs of
        [] \<Rightarrow> (a # xs, 1)
      | b # ys \<Rightarrow>
          (case pass lt (run_rest lt b ys) of
             (zs, n) \<Rightarrow> (mrg lt (a # run_part lt a xs) (b # run_part lt b ys) @ zs, n + 1)))"
  by pat_completeness auto

termination pass
proof (relation "measure (\<lambda>(lt, xs). length xs)"; clarsimp)
  fix lt a xs b and ys :: "'a list"
  assume "run_rest lt a xs = b # ys"
  then have "length (b # ys) \<le> length xs" using run_rest_length by metis
  with run_rest_length [of lt b ys] show "length (run_rest lt b ys) < Suc (length xs)" by simp
qed

lemma mset_mrg [simp]: "mset (mrg lt as bs) = mset as + mset bs"
  by (induction lt as bs rule: mrg.induct) auto

lemma set_mrg [simp]: "set (mrg lt as bs) = set as \<union> set bs"
  by (induction lt as bs rule: mrg.induct) auto

lemma mset_pass: "mset (fst (pass lt xs)) = mset xs"
proof (induction lt xs rule: pass.induct)
  case (2 lt a xs)
  show ?case
  proof (cases "run_rest lt a xs")
    case (Cons b ys)
    have "mset xs = mset (run_part lt a xs) + mset (b # ys)"
      using arg_cong [OF run_split [of lt a xs], of mset] Cons by simp
    moreover have "mset ys = mset (run_part lt b ys) + mset (run_rest lt b ys)"
      using arg_cong [OF run_split [of lt b ys], of mset] by simp
    ultimately show ?thesis using 2 Cons by (auto split: prod.split)
  qed simp
qed simp

lemma descents_append:
  "as \<noteq> [] \<Longrightarrow> bs \<noteq> [] \<Longrightarrow>
   descents lt (as @ bs) = descents lt as + (if lt (hd bs) (last as) then 1 else 0) + descents lt bs"
  by (induction lt as rule: descents.induct; cases bs) auto

lemma run_rest_descends:
  "run_rest lt a xs = b # ys \<Longrightarrow> lt b (last (a # run_part lt a xs))"
  by (induction lt a xs rule: run_rest.induct) (auto split: if_splits)

lemma descents_run:
  "descents lt (a # xs) = (case run_rest lt a xs of [] \<Rightarrow> 0 | b # ys \<Rightarrow> 1 + descents lt (b # ys))"
proof (cases "run_rest lt a xs")
  case Nil
  then have "xs = run_part lt a xs" using run_split [of lt a xs] by simp
  then show ?thesis using Nil run_part_descents [of lt a xs] by simp
next
  case (Cons b ys)
  have "a # xs = (a # run_part lt a xs) @ b # ys" using run_split [of lt a xs] Cons by simp
  then have "descents lt (a # xs) = descents lt ((a # run_part lt a xs) @ b # ys)" by simp
  also have "\<dots> = 1 + descents lt (b # ys)"
    using run_rest_descends [OF Cons] descents_append [of "a # run_part lt a xs" "b # ys" lt] by simp
  finally show ?thesis using Cons by simp
qed

text \<open>Every pass more than halves the number of descents.\<close>

lemma pass_count: "xs \<noteq> [] \<Longrightarrow> 2 * snd (pass lt xs) \<le> descents lt xs + 2 \<and> 1 \<le> snd (pass lt xs)"
proof (induction lt xs rule: pass.induct)
  case (2 lt a xs)
  show ?case
  proof (cases "run_rest lt a xs")
    case (Cons b ys)
    show ?thesis
    proof (cases "run_rest lt b ys")
      case Nil
      then show ?thesis using Cons by (simp add: descents_run [of lt a xs])
    next
      case c: (Cons c zs)
      then show ?thesis using "2.IH" [OF Cons] Cons c
        by (auto simp: descents_run [of lt a xs] descents_run [of lt b ys] split: prod.splits)
    qed
  qed simp
qed simp

text \<open>With a comparison by key, merging sorted runs keeps them sorted and stable.\<close>

lemma descents_sorted: "descents (\<lambda>x y. key x < key y) xs = 0 \<longleftrightarrow> sorted (map (key :: 'a \<Rightarrow> 'k :: linorder) xs)"
proof (induction "\<lambda>x y. key x < key y" xs rule: descents.induct)
  case (1 a b xs)
  have "sorted (map key (a # b # xs)) \<longleftrightarrow> key a \<le> key b \<and> sorted (map key (b # xs))" by (auto intro: order_trans)
  with 1 show ?case by (auto simp: not_less)
qed auto

lemma sorted_mrg:
  "sorted (map key as) \<Longrightarrow> sorted (map key bs) \<Longrightarrow>
   sorted (map (key :: 'a \<Rightarrow> 'k :: linorder) (mrg (\<lambda>x y. key x < key y) as bs))"
  by (induction "\<lambda>x y. key x < key y" as bs rule: mrg.induct) (auto simp: not_less intro: order_trans less_imp_le)

lemma filter_mrg:
  "sorted (map key as) \<Longrightarrow> sorted (map key bs) \<Longrightarrow>
   filter (\<lambda>x. key x = (k :: 'k :: linorder)) (mrg (\<lambda>x y. key x < key y) as bs)
     = filter (\<lambda>x. key x = k) as @ filter (\<lambda>x. key x = k) bs"
proof (induction "\<lambda>x y. key x < key y" as bs rule: mrg.induct)
  case (1 a as b bs)
  have "filter (\<lambda>x. key x = k) (a # as) = []" if "key b < key a" "key b = k"
    using that 1(3) by (auto simp: filter_empty_conv)
  with 1 show ?case by auto
qed auto

lemma run_part_sorted: "sorted (map (key :: 'a \<Rightarrow> 'k :: linorder) (a # run_part (\<lambda>x y. key x < key y) a xs))"
  using run_part_descents [of "\<lambda>x y. key x < key y" a xs] unfolding descents_sorted .

lemma filter_pass:
  "filter (\<lambda>x. key x = (k :: 'k :: linorder)) (fst (pass (\<lambda>x y. key x < key y) xs)) = filter (\<lambda>x. key x = k) xs"
proof (induction "\<lambda>x y. key x < key y" xs rule: pass.induct)
  case (2 a xs)
  let ?lt = "\<lambda>x y. key x < key y" and ?f = "filter (\<lambda>x. key x = k)"
  show ?case
  proof (cases "run_rest ?lt a xs")
    case (Cons b ys)
    have "?f xs = ?f (run_part ?lt a xs) @ ?f (b # ys)"
      using arg_cong [OF run_split [of ?lt a xs], of ?f] Cons by simp
    moreover have "?f ys = ?f (run_part ?lt b ys) @ ?f (run_rest ?lt b ys)"
      using arg_cong [OF run_split [of ?lt b ys], of ?f] by simp
    moreover have "?f (fst (pass ?lt (a # xs))) = ?f (a # run_part ?lt a xs) @ ?f (b # run_part ?lt b ys) @ ?f (run_rest ?lt b ys)"
    proof -
      let ?m = "mrg ?lt (a # run_part ?lt a xs) (b # run_part ?lt b ys)"
      have "fst (pass ?lt (a # xs)) = ?m @ fst (pass ?lt (run_rest ?lt b ys))"
        using Cons by (simp split: prod.split del: mrg.simps)
      moreover have "?f ?m = ?f (a # run_part ?lt a xs) @ ?f (b # run_part ?lt b ys)"
        by (intro filter_mrg run_part_sorted)
      ultimately show ?thesis using "2.hyps" [OF Cons] by (simp only: filter_append append_assoc)
    qed
    ultimately show ?thesis by simp
  qed simp
qed simp

lemma pass_descents:
  "xs \<noteq> [] \<Longrightarrow> descents (\<lambda>x y. key x < key y) (fst (pass (\<lambda>x y. (key x :: 'k :: linorder) < key y) xs)) + 1
     \<le> snd (pass (\<lambda>x y. key x < key y) xs)"
proof (induction "\<lambda>x y. key x < key y" xs rule: pass.induct)
  case (2 a xs)
  let ?lt = "\<lambda>x y. key x < key y"
  show ?case
  proof (cases "run_rest ?lt a xs")
    case Nil
    then show ?thesis by (simp add: descents_run [of ?lt a xs])
  next
    case (Cons b ys)
    let ?m = "mrg ?lt (a # run_part ?lt a xs) (b # run_part ?lt b ys)"
    have m: "descents ?lt ?m = 0"
      unfolding descents_sorted by (intro sorted_mrg run_part_sorted)
    obtain zs n where p: "pass ?lt (run_rest ?lt b ys) = (zs, n)" by (metis prod.exhaust)
    show ?thesis
    proof (cases "run_rest ?lt b ys = []")
      case True
      then show ?thesis using Cons m by simp
    next
      case False
      have "zs \<noteq> []" using mset_pass [of ?lt "run_rest ?lt b ys"] p False by auto
      moreover have "?m \<noteq> []" by simp
      ultimately have "descents ?lt (?m @ zs) \<le> 1 + descents ?lt zs"
        using descents_append [of ?m zs ?lt] m by simp
      then show ?thesis using "2.hyps" [OF Cons] False p Cons by simp
    qed
  qed
qed simp

section \<open>The loops on the heap\<close>

lemma size_loop_eq: "dl h (us @ xs @ b # vs) \<Longrightarrow> size_loop b h (hd (xs @ [b])) cnt = Some (cnt + length xs)"
proof (induction xs arbitrary: us cnt)
  case Nil
  then show ?case by (simp add: size_loop.simps)
next
  case (Cons a xs)
  obtain y ys where y: "xs @ b # vs = y # ys" "y = hd (xs @ [b])" by (cases xs) auto
  have "a \<noteq> b" using Cons.prems by (auto simp: dl_def)
  moreover have "list_next a h = Some (hd (xs @ [b]))"
    using dl_list_next [of h us a y ys] Cons.prems y by simp
  ultimately show ?case
    using Cons.IH [of "us @ [a]" "cnt + 1"] Cons.prems by (subst size_loop.simps) simp
qed

lemma sorted_loop_eq:
  "dl h (us @ a # xs @ b # vs) \<Longrightarrow> sorted_loop lt b h a = Some (descents lt (a # xs) = 0)"
proof (induction xs arbitrary: us a)
  case Nil
  then show ?case using dl_list_next [of h us a b vs] by (simp add: sorted_loop.simps)
next
  case (Cons x xs)
  have "x \<noteq> b" using Cons.prems by (auto simp: dl_def)
  moreover have "list_next a h = Some x" "list_prev x h = Some a"
    using dl_list_next [of h us a x "xs @ b # vs"] dl_list_prev [of h us a x "xs @ b # vs"] Cons.prems by simp_all
  ultimately show ?case
    using Cons.IH [of "us @ [a]" x] Cons.prems by (subst sorted_loop.simps) simp
qed

lemma is_sorted_eq:
  assumes "dl h (us @ xs @ vs)" and "vs \<noteq> []"
  shows "is_sorted lt (hd (xs @ vs)) (hd vs) h = Some (descents lt xs = 0)"
proof (cases xs)
  case (Cons a xs')
  have "a \<noteq> hd vs" using assms Cons by (cases vs) (auto simp: dl_def)
  then show ?thesis
    using sorted_loop_eq [of h us a xs' "hd vs" "List.tl vs" lt] assms Cons by (simp add: is_sorted_def)
qed (simp add: is_sorted_def)

lemma run_loop_eq:
  "dl h (us @ a # xs @ b # vs) \<Longrightarrow> run_loop lt b h a = Some (hd (run_rest lt a xs @ [b]))"
proof (induction xs arbitrary: us a)
  case Nil
  then show ?case using dl_list_next [of h us a b vs] by (simp add: run_loop.simps)
next
  case (Cons x xs)
  have "x \<noteq> b" using Cons.prems by (auto simp: dl_def)
  moreover have "list_next a h = Some x" "list_prev x h = Some a"
    using dl_list_next [of h us a x "xs @ b # vs"] dl_list_prev [of h us a x "xs @ b # vs"] Cons.prems by simp_all
  ultimately show ?case
    using Cons.IH [of "us @ [a]" x] Cons.prems by (subst run_loop.simps) simp
qed

lemma find_end_of_run_eq:
  assumes "dl h (us @ a # xs @ b # vs)"
  shows "find_end_of_run lt a b h = Some (hd (run_rest lt a xs @ [b]))"
  using run_loop_eq [OF assms] assms by (auto simp: find_end_of_run_def ASSERT_def dl_def)

lemma merge_loop_dl:
  assumes "dl h (us @ as @ bs @ vs)" and "us \<noteq> []" "vs \<noteq> []"
  shows "\<exists>h'. merge_loop lt (hd vs) (hd (as @ bs @ vs)) (hd (bs @ vs)) h = Some h'
    \<and> dl h' (us @ mrg lt as bs @ vs) \<and> frame (set (us @ as @ bs @ vs)) h h'"
  using assms
proof (induction lt as bs arbitrary: us h rule: mrg.induct)
  case (1 lt a as b bs)
  obtain y ys where y: "as @ b # bs @ vs = y # ys" by (cases as) auto
  obtain z zs where z: "bs @ vs = z # zs" using 1(5) by (cases bs; cases vs) auto
  have ne: "a \<noteq> b" "b \<noteq> hd vs" using 1(3,5) by (cases vs; auto simp: dl_def)+
  show ?case
  proof (cases "lt b a")
    case False
    have "list_next a h = Some (hd (as @ b # bs @ vs))"
      using dl_list_next [of h us a y ys] 1(3) y by simp
    then show ?thesis
      using 1(1) [of h "us @ [a]"] 1(3,5) False ne by (subst merge_loop.simps) (simp add: insert_commute)
  next
    case True
    have "list_next b h = Some z" "list_prev z h = Some b"
      using dl_list_next [of h "us @ a # as" b z zs] dl_list_prev [of h "us @ a # as" b z zs] 1(3) z by simp_all
    moreover obtain h1 where h1: "list_splice a b z h = Some h1" "dl h1 (us @ [b] @ (a # as) @ bs @ vs)"
      "frame (set (us @ (a # as) @ [b] @ bs @ vs)) h h1"
      using dl_splice_same [of h us "a # as" "[b]" "bs @ vs"] 1(3-5) z by auto
    moreover obtain h2 where h2: "merge_loop lt (hd vs) a z h1 = Some h2"
      "dl h2 ((us @ [b]) @ mrg lt (a # as) bs @ vs)" "frame (set ((us @ [b]) @ (a # as) @ bs @ vs)) h1 h2"
      using 1(2) [of h1 "us @ [b]"] True h1(2) 1(5) z by auto
    ultimately have "merge_loop lt (hd vs) a b h = Some h2"
      using True ne by (subst merge_loop.simps) simp
    moreover have "frame (set (us @ (a # as) @ (b # bs) @ vs)) h h1" by (rule frame_mono [OF h1(3)]) auto
    then have "frame (set (us @ (a # as) @ (b # bs) @ vs)) h h2"
      by (rule frame_trans) (rule frame_mono [OF h2(3)], auto)
    ultimately show ?thesis using True h2(2) by (intro exI [of _ h2]) simp
  qed
qed (subst merge_loop.simps, simp)+

lemma inplace_merge_dl:
  assumes d: "dl h (us @ as @ bs @ vs)" and ne: "us \<noteq> []" "as \<noteq> []" "bs \<noteq> []" "vs \<noteq> []"
    and "descents lt as = 0" "descents lt bs = 0"
  shows "\<exists>h'. inplace_merge lt (hd as) (hd bs) (hd vs) h = Some h'
    \<and> dl h' (us @ mrg lt as bs @ vs) \<and> frame (set (us @ as @ bs @ vs)) h h'"
proof -
  have "is_sorted lt (hd as) (hd bs) h = Some True" "is_sorted lt (hd bs) (hd vs) h = Some True"
    using is_sorted_eq [of h us as "bs @ vs" lt] is_sorted_eq [of h "us @ as" bs vs lt] d ne assms(6,7) by simp_all
  moreover have "hd as \<noteq> NULL" "hd bs \<noteq> NULL" "hd vs \<noteq> NULL"
    using d ne by (cases as; cases bs; cases vs; auto simp: dl_def)+
  ultimately show ?thesis
    using merge_loop_dl [OF d ne(1,4), of lt] ne by (simp add: inplace_merge_def ASSERT_def)
qed

lemma sort_pass_dl:
  assumes "dl h (us @ xs @ [list_end l])" and "us \<noteq> []"
  shows "\<exists>h'. sort_pass lt l (hd (xs @ [list_end l])) cnt h = Some (cnt + snd (pass lt xs), h')
    \<and> dl h' (us @ fst (pass lt xs) @ [list_end l]) \<and> frame (set (us @ xs @ [list_end l])) h h'"
  using assms
proof (induction lt xs arbitrary: us h cnt rule: pass.induct)
  case (1 lt)
  then show ?case by (simp add: sort_pass.simps)
next
  case (2 lt a xs)
  let ?t = "list_end l"
  have at: "a \<noteq> ?t" using 2(2) by (auto simp: dl_def)
  have r1: "find_end_of_run lt a ?t h = Some (hd (run_rest lt a xs @ [?t]))"
    using find_end_of_run_eq [of h us a xs ?t "[]" lt] 2(2) by simp
  show ?case
  proof (cases "run_rest lt a xs")
    case Nil
    then show ?thesis using 2(2) r1 at by (subst sort_pass.simps) simp
  next
    case (Cons b ys)
    let ?as = "a # run_part lt a xs" and ?bs = "b # run_part lt b ys" and ?zs = "run_rest lt b ys"
    have ax: "a # xs = ?as @ b # ys" and yz: "b # ys = ?bs @ ?zs"
      using run_split [of lt a xs] run_split [of lt b ys] Cons by simp_all
    have d: "dl h (us @ ?as @ ?bs @ ?zs @ [?t])" using 2(2) by (simp only: ax yz append_assoc)
    then have bt: "b \<noteq> ?t" by (auto simp: dl_def)
    have r2: "find_end_of_run lt b ?t h = Some (hd (?zs @ [?t]))"
      using find_end_of_run_eq [of h "us @ ?as" b ys ?t "[]" lt] 2(2) ax by simp
    obtain h1 where h1: "inplace_merge lt a b (hd (?zs @ [?t])) h = Some h1"
      "dl h1 (us @ mrg lt ?as ?bs @ ?zs @ [?t])" "frame (set (us @ ?as @ ?bs @ ?zs @ [?t])) h h1"
      using inplace_merge_dl [OF d 2(3), of lt] by (auto simp del: mrg.simps)
    obtain h2 where h2: "sort_pass lt l (hd (?zs @ [?t])) (cnt + 1) h1 = Some (cnt + 1 + snd (pass lt ?zs), h2)"
      "dl h2 ((us @ mrg lt ?as ?bs) @ fst (pass lt ?zs) @ [?t])" "frame (set ((us @ mrg lt ?as ?bs) @ ?zs @ [?t])) h1 h2"
      using "2.IH" [OF Cons, of h1 "us @ mrg lt ?as ?bs" "cnt + 1"] h1(2) 2(3) by (auto simp del: mrg.simps)
    have S: "set (us @ (a # xs) @ [?t]) = set (us @ ?as @ ?bs @ ?zs @ [?t])" by (simp only: ax yz append_assoc)
    have "frame (set (us @ (a # xs) @ [?t])) h h2"
      unfolding S using h1(3) frame_mono [OF h2(3)] by (rule frame_trans) auto
    moreover have "sort_pass lt l a cnt h = Some (cnt + 1 + snd (pass lt ?zs), h2)"
      using at bt r1 r2 h1(1) h2(1) Cons by (subst sort_pass.simps) simp
    moreover have "pass lt (a # xs) = (mrg lt ?as ?bs @ fst (pass lt ?zs), Suc (snd (pass lt ?zs)))"
      using Cons by (simp split: prod.split del: mrg.simps)
    ultimately show ?thesis using h2(2) by simp
  qed
qed

lemma sort_passes_dl:
  fixes key :: "addr \<Rightarrow> 'k :: linorder"
  assumes "dl h (nodes l xs)"
  shows "\<exists>h'. sort_passes (\<lambda>x y. key x < key y) l h = Some h' \<and> dl h' (nodes l (sort_key key xs))
    \<and> frame (set (nodes l xs)) h h'"
  using assms
proof (induction "descents (\<lambda>x y. key x < key y) xs" arbitrary: xs h rule: less_induct)
  case less
  let ?lt = "\<lambda>x y. key x < key y"
  obtain ys n where p: "pass ?lt xs = (ys, n)" by (metis prod.exhaust)
  have mset: "mset ys = mset xs" and stable: "\<And>k. filter (\<lambda>x. key x = k) ys = filter (\<lambda>x. key x = k) xs"
    using mset_pass [of ?lt xs] filter_pass [of key _ xs] p by simp_all
  have first: "list_begin l h = hd (xs @ [list_end l])"
    using dl_left(2) [of h "[]" "head l" "xs @ [tail l]"] less.prems by (simp add: nodes_def list_begin_def list_end_def)
  obtain h1 where h1: "sort_pass ?lt l (list_begin l h) 0 h = Some (n, h1)" "dl h1 (nodes l ys)"
    "frame (set (nodes l xs)) h h1"
    using sort_pass_dl [of h "[head l]" xs l ?lt 0] less.prems p first by (auto simp: nodes_def list_end_def)
  have same: "sort_key key ys = sort_key key xs"
  proof (rule properties_for_sort_key [symmetric])
    show "filter (\<lambda>x. key k = key x) (sort_key key ys) = filter (\<lambda>x. key k = key x) xs" for k
      using stable [of "key k"] filter_sort [of "\<lambda>x. key x = key k" key ys] sort_key_stable [of key "key k" ys]
      by (simp add: eq_commute [of "key k"])
  qed (simp_all add: mset)
  have sets: "set (nodes l ys) = set (nodes l xs)" using arg_cong [OF mset, of set_mset] by (simp add: nodes_def)
  show ?case
  proof (cases "n > 1")
    case True
    then have "xs \<noteq> []" using p by auto
    then have "descents ?lt ys < descents ?lt xs"
      using pass_count [of xs ?lt] pass_descents [of xs key] p True by simp
    from less.hyps [OF this h1(2)] h1 True same sets show ?thesis
      by (subst sort_passes.simps) (auto intro: frame_trans)
  next
    case False
    have "sorted (map key ys)"
    proof (cases "xs = []")
      case True
      then show ?thesis using p by simp
    next
      case ne: False
      have "descents ?lt ys + 1 \<le> n" using pass_descents [OF ne, of key] p by simp
      with False show ?thesis using descents_sorted [of key ys] by simp
    qed
    then have "ys = sort_key key xs" using same sort_key_id_if_sorted [of key ys] by simp
    with h1 False show ?thesis by (subst sort_passes.simps) simp
  qed
qed

section \<open>The remaining operations\<close>

lemma list_begin_rep: "list_rep h l xs \<Longrightarrow> list_begin l h = hd (xs @ [tail l])"
  using dl_left(2) [of h "[]" "head l" "xs @ [tail l]"] by (simp add: list_rep_def nodes_def list_begin_def)

lemma list_rbegin_rep: "list_rep h l xs \<Longrightarrow> list_rbegin l h = last (head l # xs)"
  using dl_right(2) [of h "head l # xs" "tail l" "[]"] by (simp add: list_rep_def nodes_def list_rbegin_def)

lemma list_empty_rep: "list_rep h l xs \<Longrightarrow> list_empty l h \<longleftrightarrow> xs = []"
  using list_begin_rep [of h l xs] by (cases xs) (auto simp: list_empty_def list_end_def list_rep_def nodes_def dl_def)

lemma list_size_rep: "list_rep h l xs \<Longrightarrow> list_size l h = Some (length xs)"
  using size_loop_eq [of h "[head l]" xs "tail l" "[]" 0] list_begin_rep [of h l xs]
  by (simp add: list_size_def list_end_def list_rep_def nodes_def)

text \<open>Insertion before, and removal of, the element at a position of the list.\<close>

lemma list_insert_rep:
  assumes "list_rep h l (us @ vs)" and "e \<notin> set (nodes l (us @ vs))" and "e \<noteq> NULL"
  shows "\<exists>h'. list_insert (hd (vs @ [tail l])) e h = Some h' \<and> list_rep h' l (us @ e # vs)
    \<and> frame (insert e (set (nodes l (us @ vs)))) h h'"
proof -
  obtain ps a where a: "head l # us = ps @ [a]" by (metis rev_exhaust list.distinct(1))
  obtain b qs where b: "vs @ [tail l] = b # qs" by (metis neq_Nil_conv snoc_eq_iff_butlast)
  have n: "nodes l (us @ vs) = ps @ a # b # qs" "nodes l (us @ e # vs) = ps @ a # e # b # qs"
    using a b by (simp_all add: nodes_def)
  from dl_insert [of h ps a b qs e] assms obtain h' where
    "list_insert b e h = Some h'" "dl h' (ps @ a # e # b # qs)" "frame {a, e, b} h h'"
    unfolding list_rep_def n by auto
  moreover have "frame (insert e (set (nodes l (us @ vs)))) h h'"
    unfolding n by (rule frame_mono [OF \<open>frame {a, e, b} h h'\<close>]) auto
  ultimately show ?thesis unfolding list_rep_def n by (simp add: b)
qed

lemma list_remove_rep:
  assumes "list_rep h l (us @ e # vs)"
  shows "\<exists>h'. list_remove e h = Some (hd (vs @ [tail l]), h') \<and> list_rep h' l (us @ vs)
    \<and> frame (set (nodes l (us @ vs))) h h'"
proof -
  obtain ps a where a: "head l # us = ps @ [a]" by (metis rev_exhaust list.distinct(1))
  obtain b qs where b: "vs @ [tail l] = b # qs" by (metis neq_Nil_conv snoc_eq_iff_butlast)
  have n: "nodes l (us @ vs) = ps @ a # b # qs" "nodes l (us @ e # vs) = ps @ a # e # b # qs"
    using a b by (simp_all add: nodes_def)
  from dl_remove [of h ps a e b qs] assms obtain h' where
    "list_remove e h = Some (b, h')" "dl h' (ps @ a # b # qs)" "frame {a, b} h h'"
    unfolding list_rep_def n by auto
  moreover have "frame (set (nodes l (us @ vs))) h h'"
    unfolding n by (rule frame_mono [OF \<open>frame {a, b} h h'\<close>]) auto
  ultimately show ?thesis unfolding list_rep_def n by (simp add: b)
qed

lemma list_push_back_rep:
  assumes "list_rep h l xs" and "e \<notin> set (nodes l xs)" and "e \<noteq> NULL"
  shows "\<exists>h'. list_push_back l e h = Some h' \<and> list_rep h' l (xs @ [e]) \<and> frame (insert e (set (nodes l xs))) h h'"
  using list_insert_rep [of h l xs "[]" e] assms by (simp add: list_push_back_def list_end_def)

lemma list_push_front_rep:
  assumes "list_rep h l xs" and "e \<notin> set (nodes l xs)" and "e \<noteq> NULL"
  shows "\<exists>h'. list_push_front l e h = Some h' \<and> list_rep h' l (e # xs) \<and> frame (insert e (set (nodes l xs))) h h'"
  using list_insert_rep [of h l "[]" xs e] assms list_begin_rep [OF assms(1)] by (simp add: list_push_front_def)

lemma list_pop_front_rep:
  assumes "list_rep h l (e # xs)"
  shows "\<exists>h'. list_pop_front l h = Some (e, h') \<and> list_rep h' l xs \<and> frame (set (nodes l xs)) h h'"
  using list_remove_rep [of h l "[]" e xs] list_empty_rep [OF assms] list_begin_rep [OF assms] assms
  by (auto simp: list_pop_front_def list_front_def ASSERT_def list_begin_def)

lemma list_pop_back_rep:
  assumes "list_rep h l (xs @ [e])"
  shows "\<exists>h'. list_pop_back l h = Some (e, h') \<and> list_rep h' l xs \<and> frame (set (nodes l xs)) h h'"
  using list_remove_rep [of h l xs e "[]"] list_empty_rep [OF assms] list_rbegin_rep [OF assms] assms
  by (auto simp: list_pop_back_def list_back_def ASSERT_def list_rbegin_def)

lemma list_init_rep:
  assumes "head l \<noteq> tail l" and "head l \<noteq> NULL" and "tail l \<noteq> NULL"
  shows "\<exists>h'. list_init l h = Some h' \<and> list_rep h' l [] \<and> frame {head l, tail l} h h'"
  using assms by (simp add: list_init_def set_prev_def set_next_def list_rep_def nodes_def dl_def frame_def)

text \<open>\<^verbatim>\<open>list_sort\<close>.\<close>

lemma list_sort_rep:
  fixes key :: "addr \<Rightarrow> 'k :: linorder"
  assumes "list_rep h l xs"
  shows "\<exists>h'. list_sort (\<lambda>x y. key x < key y) l h = Some h' \<and> list_rep h' l (sort_key key xs)
    \<and> frame (set (nodes l xs)) h h'"
proof -
  let ?ys = "sort_key key xs"
  obtain h' where h': "sort_passes (\<lambda>x y. key x < key y) l h = Some h'" "dl h' (nodes l ?ys)"
    "frame (set (nodes l xs)) h h'"
    using sort_passes_dl [of h l xs key] assms unfolding list_rep_def by blast
  have "is_sorted (\<lambda>x y. key x < key y) (hd (?ys @ [tail l])) (tail l) h' = Some True"
    using is_sorted_eq [of h' "[head l]" ?ys "[tail l]" "\<lambda>x y. key x < key y"] h'(2) descents_sorted [of key ?ys]
    by (simp add: nodes_def)
  then show ?thesis
    using h' list_begin_rep [of h' l ?ys] by (simp add: list_sort_def list_rep_def ASSERT_def list_end_def)
qed

text \<open>\<^verbatim>\<open>list_insert_ordered\<close>.\<close>

lemma ordered_loop_eq:
  "dl h (us @ xs @ b # vs) \<Longrightarrow> ordered_loop lt b e h (hd (xs @ [b])) = Some (hd (dropWhile (\<lambda>x. \<not> lt e x) xs @ [b]))"
proof (induction xs arbitrary: us)
  case Nil
  then show ?case by (simp add: ordered_loop.simps)
next
  case (Cons a xs)
  obtain y ys where y: "xs @ b # vs = y # ys" "y = hd (xs @ [b])" by (cases xs) auto
  have "a \<noteq> b" using Cons.prems by (auto simp: dl_def)
  moreover have "list_next a h = Some (hd (xs @ [b]))"
    using dl_list_next [of h us a y ys] Cons.prems y by simp
  ultimately show ?case
    using Cons.IH [of "us @ [a]"] Cons.prems by (subst ordered_loop.simps) simp
qed

lemma list_insert_ordered_rep:
  assumes "list_rep h l xs" and "e \<notin> set (nodes l xs)" and "e \<noteq> NULL"
  shows "\<exists>h'. list_insert_ordered lt l e h = Some h'
    \<and> list_rep h' l (takeWhile (\<lambda>x. \<not> lt e x) xs @ e # dropWhile (\<lambda>x. \<not> lt e x) xs)
    \<and> frame (insert e (set (nodes l xs))) h h'"
  using list_insert_rep [of h l "takeWhile (\<lambda>x. \<not> lt e x) xs" "dropWhile (\<lambda>x. \<not> lt e x) xs" e]
    ordered_loop_eq [of h "[head l]" xs "tail l" "[]" lt e] list_begin_rep [OF assms(1)] assms
  by (simp add: list_insert_ordered_def ASSERT_def list_end_def list_rep_def nodes_def)

end
