(* ===== verification/Pintos_List_Ops.thy ===== *)
theory Pintos_List_Ops
  imports Pintos_List
begin

text \<open>
  The operations of \<^verbatim>\<open>src/Project_3/lib/kernel/list.c\<close> that rework a whole list
  (\<^verbatim>\<open>list_reverse\<close>, \<^verbatim>\<open>list_unique\<close>, \<^verbatim>\<open>list_max\<close>, \<^verbatim>\<open>list_min\<close>, \<^verbatim>\<open>list_splice\<close> between
  two lists), the queue interface the kernel's clients use, and the properties of the list
  library.
\<close>

text \<open>\<^verbatim>\<open>list_reverse\<close>: the loop swaps the two links of every interior element.\<close>

definition swapped :: "addr set \<Rightarrow> lheap \<Rightarrow> lheap" where
  "swapped S h = \<lparr>prev = (\<lambda>x. if x \<in> S then next h x else prev h x), next = (\<lambda>x. if x \<in> S then prev h x else next h x)\<rparr>"

lemma swapped_empty [simp]: "swapped {} h = h"
  by (cases h) (simp add: swapped_def)

lemma swap_links_swapped:
  "a \<notin> S \<Longrightarrow> a \<noteq> NULL \<Longrightarrow> swap_links a (swapped S h) = Some (swapped (insert a S) h)"
  by (auto simp: swap_links_def swapped_def set_prev_def set_next_def fun_eq_iff)

lemma reverse_loop_eq:
  "dl h (us @ ys @ xs @ b # vs) \<Longrightarrow>
   reverse_loop b (hd (xs @ [b])) (swapped (set ys) h) = Some (swapped (set (ys @ xs)) h)"
proof (induction xs arbitrary: ys)
  case Nil
  then show ?case by (simp add: reverse_loop.simps)
next
  case (Cons a xs)
  have a: "a \<noteq> b" "a \<notin> set ys" "a \<noteq> NULL" using Cons.prems by (auto simp: dl_def)
  have "next h a = hd (xs @ b # vs)" using dl_left(2) [of h "us @ ys" a "xs @ b # vs"] Cons.prems by simp
  then have "prev (swapped (insert a (set ys)) h) a = hd (xs @ [b])" by (cases xs) (simp_all add: swapped_def)
  then show ?case
    using Cons.IH [of "ys @ [a]"] Cons.prems a by (subst reverse_loop.simps) (simp add: swap_links_swapped)
qed

lemma chain_rev:
  assumes "chain h ns" and "\<And>x. x \<in> set (List.tl ns) \<Longrightarrow> next h' x = prev h x"
    and "\<And>x. x \<in> set (butlast ns) \<Longrightarrow> prev h' x = next h x"
  shows "chain h' (rev ns)"
  using assms
proof (induction h ns rule: chain.induct)
  case (1 h a b ns)
  then have "chain h' (rev (b # ns))" by (auto dest: set_tl_D split: if_splits)
  then show ?case using 1(2) 1(3) [of b] 1(4) [of a] chain_append [of "rev (b # ns)" "[a]" h'] by simp
qed auto

lemma list_reverse_rep:
  assumes "list_rep h l xs"
  shows "\<exists>h'. list_reverse l h = Some h' \<and> list_rep h' l (rev xs) \<and> frame (set (nodes l xs)) h h'"
proof (cases "xs = []")
  case True
  then show ?thesis using assms list_empty_rep [OF assms] by (simp add: list_reverse_def)
next
  case ne: False
  have d: "dl h (head l # xs @ [tail l])" using assms by (simp add: list_rep_def nodes_def)
  define s where "s = swapped (set xs) h"
  have loop: "reverse_loop (tail l) (hd (xs @ [tail l])) h = Some s"
    using reverse_loop_eq [of h "[head l]" "[]" xs "tail l" "[]"] d by (simp add: s_def)
  have links: "next h (head l) = hd xs" "prev h (tail l) = last xs" "prev h (hd xs) = head l" "next h (last xs) = tail l"
    using d ne chain_append [of "[head l]" "xs @ [tail l]" h] chain_append [of xs "[tail l]" h] by (auto simp: dl_def)
  have mem: "hd xs \<in> set xs" "last xs \<in> set xs" "head l \<notin> set xs" "tail l \<notin> set xs" "head l \<noteq> tail l"
    "head l \<noteq> NULL" "tail l \<noteq> NULL" "NULL \<notin> set xs" "distinct xs"
    using d ne by (auto simp: dl_def)
  define h' where "h' = \<lparr>prev = (prev s)(tail l := hd xs, last xs := head l), next = (next s)(head l := last xs, hd xs := tail l)\<rparr>"
  have "next s (head l) = hd xs" "prev s (tail l) = last xs" "prev s (last xs) = tail l" "next s (hd xs) = head l"
    using links mem by (simp_all add: s_def swapped_def)
  moreover have neq: "hd (xs @ [tail l]) = list_begin l h" "hd xs \<noteq> NULL" "last xs \<noteq> NULL" "last xs \<noteq> tail l" "hd xs \<noteq> head l"
    using list_begin_rep [OF assms] mem(1-4,8) by metis+
  ultimately have "list_reverse l h = Some h'"
    using loop list_empty_rep [OF assms] ne mem(5-7)
    by (simp add: list_reverse_def list_end_def set_next_def set_prev_def h'_def Let_def)
  moreover have "dl h' (head l # rev xs @ [tail l])"
  proof -
    have "chain h xs" using d ne chain_append [of "[head l]" "xs @ [tail l]" h] chain_append [of xs "[tail l]" h] by (auto simp: dl_def)
    moreover have "x \<in> set xs \<and> x \<noteq> hd xs" if "x \<in> set (List.tl xs)" for x using that mem(9) by (cases xs) auto
    moreover have "x \<in> set xs \<and> x \<noteq> last xs" if "x \<in> set (butlast xs)" for x
      using that mem(9) by (cases xs rule: rev_cases) auto
    ultimately have "chain h' (rev xs)" using mem by (intro chain_rev [of h]) (auto simp: h'_def s_def swapped_def)
    then have "chain h' ([head l] @ rev xs @ [tail l])"
      using ne mem neq by (simp add: chain_append hd_rev last_rev h'_def del: append_Cons)
    then show ?thesis using d mem by (auto simp: dl_def h'_def s_def swapped_def)
  qed
  moreover have "frame (set (nodes l xs)) h h'"
    using mem(1,2) by (auto simp: frame_def h'_def s_def swapped_def nodes_def)
  ultimately show ?thesis by (simp add: list_rep_def nodes_def)
qed

text \<open>\<^verbatim>\<open>list_unique\<close>: what stays of the elements after \<open>e\<close>, and what is taken out.\<close>

fun uniq_keep :: "(addr \<Rightarrow> addr \<Rightarrow> bool) \<Rightarrow> addr \<Rightarrow> addr list \<Rightarrow> addr list" where
  "uniq_keep lt e [] = []"
| "uniq_keep lt e (x # xs) = (if \<not> lt e x \<and> \<not> lt x e then uniq_keep lt e xs else x # uniq_keep lt x xs)"

fun uniq_dups :: "(addr \<Rightarrow> addr \<Rightarrow> bool) \<Rightarrow> addr \<Rightarrow> addr list \<Rightarrow> addr list" where
  "uniq_dups lt e [] = []"
| "uniq_dups lt e (x # xs) = (if \<not> lt e x \<and> \<not> lt x e then x # uniq_dups lt e xs else uniq_dups lt x xs)"

definition dup_rep :: "lheap \<Rightarrow> klist \<Rightarrow> addr list \<Rightarrow> klist option \<Rightarrow> addr list \<Rightarrow> bool" where
  "dup_rep h l xs dups ds \<longleftrightarrow>
     (case dups of None \<Rightarrow> True | Some d \<Rightarrow> list_rep h d ds \<and> set (nodes l xs) \<inter> set (nodes d ds) = {})"

lemma dup_step:
  assumes r: "list_rep h l (us @ e # x # xs)" and d: "dup_rep h l (us @ e # x # xs) dups ds"
  shows "\<exists>h' h''. list_remove x h = Some (hd (xs @ [tail l]), h')
    \<and> (case dups of None \<Rightarrow> Some h' | Some d \<Rightarrow> list_push_back d x h') = Some h''
    \<and> list_rep h'' l (us @ e # xs) \<and> dup_rep h'' l (us @ e # xs) dups (ds @ [x])"
proof -
  obtain h' where h': "list_remove x h = Some (hd (xs @ [tail l]), h')" "list_rep h' l ((us @ [e]) @ xs)"
    "frame (set (nodes l (us @ e # xs))) h h'"
    using list_remove_rep [of h l "us @ [e]" x xs] r by auto
  have nx: "x \<noteq> NULL" "x \<notin> set (nodes l (us @ e # xs))" using r by (auto simp: list_rep_def dl_def nodes_def)
  show ?thesis
  proof (cases dups)
    case None
    with h' show ?thesis by (simp add: dup_rep_def)
  next
    case (Some dl)
    have di: "set (nodes l (us @ e # x # xs)) \<inter> set (nodes dl ds) = {}" "list_rep h dl ds"
      using d Some by (auto simp: dup_rep_def)
    have "set (nodes dl ds) \<inter> set (nodes l (us @ e # xs)) = {}" using di(1) by (auto simp: nodes_def)
    then have "list_rep h' dl ds" using dl_frame h'(3) di(2) by (metis list_rep_def)
    moreover have "x \<notin> set (nodes dl ds)" using di by (auto simp: nodes_def)
    ultimately obtain h'' where h'': "list_push_back dl x h' = Some h''" "list_rep h'' dl (ds @ [x])"
      "frame (insert x (set (nodes dl ds))) h' h''" using list_push_back_rep nx(1) by metis
    have "set (nodes l (us @ e # xs)) \<inter> insert x (set (nodes dl ds)) = {}"
      using di(1) nx(2) by (auto simp: nodes_def)
    then have "list_rep h'' l (us @ e # xs)" "set (nodes l (us @ e # xs)) \<inter> set (nodes dl (ds @ [x])) = {}"
      using dl_frame h''(3) h'(2) by (auto simp: list_rep_def nodes_def)
    with h' h'' Some show ?thesis by (simp add: dup_rep_def)
  qed
qed

lemma unique_loop_rep:
  assumes "list_rep h l (us @ e # xs)" and "dup_rep h l (us @ e # xs) dups ds"
  shows "\<exists>h'. unique_loop lt l dups e h = Some h' \<and> list_rep h' l (us @ e # uniq_keep lt e xs)
    \<and> dup_rep h' l (us @ e # uniq_keep lt e xs) dups (ds @ uniq_dups lt e xs)"
  using assms
proof (induction xs arbitrary: us e ds h)
  case Nil
  have "list_next e h = Some (tail l)"
    using dl_list_next [of h "head l # us" e "tail l" "[]"] Nil.prems(1) by (simp add: list_rep_def nodes_def)
  then have "unique_loop lt l dups e h = Some h" by (subst unique_loop.simps) (simp add: list_end_def)
  with Nil show ?case by simp
next
  case (Cons x xs)
  have nx: "list_next e h = Some x" and ne: "x \<noteq> list_end l"
    using dl_list_next [of h "head l # us" e x "xs @ [tail l]"] Cons.prems(1)
    by (auto simp: list_rep_def nodes_def list_end_def dl_def)
  show ?case
  proof (cases "\<not> lt e x \<and> \<not> lt x e")
    case True
    obtain h' h'' where r: "list_remove x h = Some (hd (xs @ [tail l]), h')"
      "(case dups of None \<Rightarrow> Some h' | Some d \<Rightarrow> list_push_back d x h') = Some h''"
      "list_rep h'' l (us @ e # xs)" "dup_rep h'' l (us @ e # xs) dups (ds @ [x])"
      using dup_step [OF Cons.prems] by blast
    have "unique_loop lt l dups e h = unique_loop lt l dups e h''"
      using nx ne True r(1,2) by (subst unique_loop.simps) simp
    with Cons.IH [OF r(3,4)] True show ?thesis by simp
  next
    case False
    have "unique_loop lt l dups e h = unique_loop lt l dups x h"
      using nx ne False by (subst unique_loop.simps) auto
    moreover have "uniq_keep lt e (x # xs) = x # uniq_keep lt x xs" "uniq_dups lt e (x # xs) = uniq_dups lt x xs"
      using False by auto
    ultimately show ?thesis using Cons.IH [of h "us @ [e]" x ds] Cons.prems by simp
  qed
qed

lemma list_unique_rep:
  assumes "list_rep h l xs" and "dup_rep h l xs dups ds"
  shows "\<exists>h'. list_unique lt l dups h = Some h'
    \<and> list_rep h' l (case xs of [] \<Rightarrow> [] | e # ys \<Rightarrow> e # uniq_keep lt e ys)
    \<and> dup_rep h' l (case xs of [] \<Rightarrow> [] | e # ys \<Rightarrow> e # uniq_keep lt e ys) dups
         (ds @ (case xs of [] \<Rightarrow> [] | e # ys \<Rightarrow> uniq_dups lt e ys))"
proof (cases xs)
  case Nil
  then show ?thesis using assms list_empty_rep [OF assms(1)] by (simp add: list_unique_def)
next
  case (Cons e ys)
  then have "list_unique lt l dups h = unique_loop lt l dups e h"
    using list_empty_rep [OF assms(1)] list_begin_rep [OF assms(1)] by (simp add: list_unique_def)
  then show ?thesis using unique_loop_rep [of h l "[]" e ys dups ds lt] assms Cons by simp
qed

text \<open>On a sorted list what stays is the first element of each block of equal keys, in order.\<close>

lemma uniq_keep_sorted:
  fixes key :: "addr \<Rightarrow> 'k :: linorder"
  assumes "sorted (map key (e # xs))"
  shows "map key (e # uniq_keep (\<lambda>x y. key x < key y) e xs) = remdups_adj (map key (e # xs))"
  using assms
proof (induction xs arbitrary: e)
  case (Cons a xs)
  show ?case
  proof (cases "key e = key a")
    case True
    with Cons.IH [of e] Cons.prems show ?thesis by simp
  next
    case False
    with Cons.IH [of a] Cons.prems show ?thesis by (auto simp: not_less)
  qed
qed simp

lemma uniq_mset: "mset (uniq_keep lt e xs) + mset (uniq_dups lt e xs) = mset xs"
  by (induction lt e xs rule: uniq_keep.induct) auto

text \<open>\<^verbatim>\<open>list_max\<close> and \<^verbatim>\<open>list_min\<close>: a scan that keeps the first extreme element.\<close>

lemma extreme_loop_eq:
  "list_rep h l (us @ xs) \<Longrightarrow>
   extreme_loop better (tail l) h m (hd (xs @ [tail l])) = Some (foldl (\<lambda>m e. if better e m then e else m) m xs)"
proof (induction xs arbitrary: us m)
  case Nil
  then show ?case by (simp add: extreme_loop.simps)
next
  case (Cons e xs)
  have "list_next e h = Some (hd (xs @ [tail l]))"
    using dl_list_next [of h "head l # us" e "hd (xs @ [tail l])" "List.tl (xs @ [tail l])"] Cons.prems
    by (simp add: list_rep_def nodes_def)
  moreover have "e \<noteq> tail l" using Cons.prems by (auto simp: list_rep_def nodes_def dl_def)
  ultimately show ?case using Cons.IH [of "us @ [e]"] Cons.prems by (subst extreme_loop.simps) simp
qed

lemma foldl_first_extreme:
  fixes key :: "addr \<Rightarrow> 'k :: linorder"
  shows "\<exists>us vs. m # xs = us @ foldl (\<lambda>m e. if key m < key e then e else m) m xs # vs
    \<and> (\<forall>x \<in> set us. key x < key (foldl (\<lambda>m e. if key m < key e then e else m) m xs))
    \<and> (\<forall>x \<in> set vs. key x \<le> key (foldl (\<lambda>m e. if key m < key e then e else m) m xs))"
proof (induction xs rule: rev_induct)
  case Nil
  then show ?case by (intro exI [of _ "[]"]) simp
next
  case (snoc x xs)
  let ?m = "foldl (\<lambda>m e. if key m < key e then e else m) m xs"
  obtain us vs where IH: "m # xs = us @ ?m # vs" "\<forall>x \<in> set us. key x < key ?m" "\<forall>x \<in> set vs. key x \<le> key ?m"
    using snoc by blast
  show ?case
  proof (cases "key ?m < key x")
    case True
    then have "\<forall>y \<in> set (m # xs). key y < key x" unfolding IH(1) using IH(2,3) by fastforce
    with True show ?thesis by (intro exI [of _ "m # xs"] exI [of _ "[]"]) simp
  next
    case False
    with IH show ?thesis by (intro exI [of _ us] exI [of _ "vs @ [x]"]) auto
  qed
qed

lemma list_max_eq:
  assumes "list_rep h l (m # xs)"
  shows "list_max lt l h = Some (foldl (\<lambda>m e. if lt m e then e else m) m xs)"
    and "list_min lt l h = Some (foldl (\<lambda>m e. if lt e m then e else m) m xs)"
proof -
  have "list_next m h = Some (hd (xs @ [tail l]))"
    using dl_list_next [of h "[head l]" m "hd (xs @ [tail l])" "List.tl (xs @ [tail l])"] assms
    by (simp add: list_rep_def nodes_def)
  moreover have "m \<noteq> tail l" using assms by (auto simp: list_rep_def nodes_def dl_def)
  ultimately show "list_max lt l h = Some (foldl (\<lambda>m e. if lt m e then e else m) m xs)"
    "list_min lt l h = Some (foldl (\<lambda>m e. if lt e m then e else m) m xs)"
    using list_begin_rep [OF assms] extreme_loop_eq [of h l "[m]" xs] assms
    by (simp_all add: list_max_def list_min_def list_end_def)
qed

text \<open>\<^verbatim>\<open>list_splice\<close> between two lists: the six assignments move a segment.\<close>

lemma dl_splice_cross:
  assumes d: "dl h (us @ vs)" and e: "dl h (as @ bs @ cs)" and disj: "set (us @ vs) \<inter> set (as @ bs @ cs) = {}"
    and ne: "us \<noteq> []" "vs \<noteq> []" "as \<noteq> []" "bs \<noteq> []" "cs \<noteq> []"
  shows "\<exists>h'. list_splice (hd vs) (hd bs) (hd cs) h = Some h' \<and> dl h' (us @ bs @ vs) \<and> dl h' (as @ cs)
    \<and> frame (set (us @ vs) \<union> set (as @ bs @ cs)) h h'"
proof -
  let ?h = "spliced (last us) (hd vs) (last as) (hd bs) (last bs) (hd cs) h"
  have S: "last us \<in> set us" "hd vs \<in> set vs" "last as \<in> set as" "last bs \<in> set bs" "hd bs \<in> set bs" "hd cs \<in> set cs"
    using ne by auto
  have dist: "set us \<inter> set vs = {}" "set as \<inter> set bs = {}" "set as \<inter> set cs = {}" "set bs \<inter> set cs = {}"
    "set us \<inter> set as = {}" "set us \<inter> set bs = {}" "set us \<inter> set cs = {}" "set vs \<inter> set as = {}" "set vs \<inter> set bs = {}"
    "set vs \<inter> set cs = {}" "distinct us" "distinct vs" "distinct as" "distinct bs" "distinct cs"
    using d e disj by (auto simp: dl_def)
  have seg: "chain h us" "chain h vs" "chain h as" "chain h bs" "chain h cs" "prev h (hd vs) = last us"
    "prev h (hd bs) = last as" "prev h (hd cs) = last bs" "next h (last bs) = hd cs"
    using d e ne by (auto simp: dl_def chain_append)
  have int: "is_interior h (hd vs) \<or> is_tail h (hd vs)" "is_interior h (hd cs) \<or> is_tail h (hd cs)"
    "is_interior h (hd bs)" "is_interior h (last bs)"
    using d e ne dl_hd_right [of h us vs] dl_hd_right [of h "as @ bs" cs] dl_mid_interior [of h as bs cs] by auto
  have ne2: "hd bs \<noteq> hd cs" "hd vs \<noteq> hd cs" "hd vs \<noteq> hd bs" "last us \<noteq> last as" "hd bs \<noteq> NULL" "last as \<noteq> last bs"
    "last us \<noteq> last bs" using S dist e by (auto simp: dl_def)
  have sp: "list_splice (hd vs) (hd bs) (hd cs) h = Some ?h"
    using int seg ne2 by (intro list_splice_eq) auto
  have ch: "chain ?h us" "chain ?h vs" "chain ?h as" "chain ?h bs" "chain ?h cs"
    using S dist by (auto intro!: chain_off [OF seg(1)] chain_off [OF seg(2)] chain_off [OF seg(3)] chain_off [OF seg(4)]
      chain_off [OF seg(5)] simp: spliced_def disjoint_iff)
  have "next ?h (last us) = hd bs" "prev ?h (hd bs) = last us" "next ?h (last bs) = hd vs"
    "prev ?h (hd vs) = last bs" "next ?h (last as) = hd cs" "prev ?h (hd cs) = last as"
    using ne2 by (auto simp: spliced_def)
  with ch have "chain ?h (us @ bs @ vs)" "chain ?h (as @ cs)" using ne by (auto simp: chain_append)
  moreover have "hd us \<in> set us" "last vs \<in> set vs" "hd as \<in> set as" "last cs \<in> set cs" using ne by auto
  with S dist have "hd us \<notin> {hd cs, hd bs, hd vs}" "last vs \<notin> {last as, last bs, last us}"
    "hd as \<notin> {hd cs, hd bs, hd vs}" "last cs \<notin> {last as, last bs, last us}"
    unfolding disjoint_iff insert_iff empty_iff by metis+
  then have "prev ?h (hd us) = NULL" "next ?h (last vs) = NULL" "prev ?h (hd as) = NULL" "next ?h (last cs) = NULL"
    using d e ne by (auto simp: spliced_def dl_def)
  moreover have "2 \<le> length as + length cs" using ne by (cases as; cases cs) auto
  ultimately have "dl ?h (us @ bs @ vs)" "dl ?h (as @ cs)" using d e ne dist by (auto simp: dl_def)
  moreover have "frame (set (us @ vs) \<union> set (as @ bs @ cs)) h ?h"
    by (rule frame_mono [OF frame_spliced]) (use S in auto)
  ultimately show ?thesis using sp by blast
qed

section \<open>The queue interface\<close>

text \<open>
  What the clients of the library (the waiters of a semaphore, the ready list, the run of free
  blocks) rely on: adding at the back and taking from the front.  \<open>room l xs e\<close> says that \<open>e\<close>
  may be linked into \<open>l\<close> while it holds \<open>xs\<close>.
\<close>

locale fifo =
  fixes rep :: "'h \<Rightarrow> 'l \<Rightarrow> 'e list \<Rightarrow> bool"
    and room :: "'l \<Rightarrow> 'e list \<Rightarrow> 'e \<Rightarrow> bool"
    and put :: "'l \<Rightarrow> 'e \<Rightarrow> 'h \<Rightarrow> 'h option"
    and get :: "'l \<Rightarrow> 'h \<Rightarrow> ('e \<times> 'h) option"
  assumes put_back: "rep h l xs \<Longrightarrow> room l xs e \<Longrightarrow> \<exists>h'. put l e h = Some h' \<and> rep h' l (xs @ [e])"
    and get_front: "rep h l (e # xs) \<Longrightarrow> \<exists>h'. get l h = Some (e, h') \<and> rep h' l xs"
begin

fun rooms :: "'l \<Rightarrow> 'e list \<Rightarrow> 'e list \<Rightarrow> bool" where
  "rooms l xs [] = True"
| "rooms l xs (e # es) = (room l xs e \<and> rooms l (xs @ [e]) es)"

fun put_all :: "'l \<Rightarrow> 'e list \<Rightarrow> 'h \<Rightarrow> 'h option" where
  "put_all l [] h = Some h"
| "put_all l (e # es) h = (case put l e h of None \<Rightarrow> None | Some h' \<Rightarrow> put_all l es h')"

fun get_n :: "nat \<Rightarrow> 'l \<Rightarrow> 'h \<Rightarrow> ('e list \<times> 'h) option" where
  "get_n 0 l h = Some ([], h)"
| "get_n (Suc n) l h = (case get l h of None \<Rightarrow> None | Some (e, h') \<Rightarrow>
     (case get_n n l h' of None \<Rightarrow> None | Some (es, h'') \<Rightarrow> Some (e # es, h'')))"

lemma put_all_rep: "rep h l xs \<Longrightarrow> rooms l xs es \<Longrightarrow> \<exists>h'. put_all l es h = Some h' \<and> rep h' l (xs @ es)"
proof (induction es arbitrary: xs h)
  case (Cons e es)
  then show ?case using put_back [of h l xs e] by fastforce
qed simp

lemma get_n_rep: "rep h l (es @ xs) \<Longrightarrow> \<exists>h'. get_n (length es) l h = Some (es, h') \<and> rep h' l xs"
proof (induction es arbitrary: h)
  case (Cons e es)
  then show ?case using get_front [of h l e "es @ xs"] by fastforce
qed simp

lemma fifo_order:
  assumes "rep h l xs" and "rooms l xs es" and "n \<le> length xs + length es"
  shows "\<exists>h1 h2. put_all l es h = Some h1 \<and> get_n n l h1 = Some (take n (xs @ es), h2) \<and> rep h2 l (drop n (xs @ es))"
proof -
  obtain h1 where h1: "put_all l es h = Some h1" "rep h1 l (take n (xs @ es) @ drop n (xs @ es))"
    using put_all_rep [OF assms(1,2)] by (metis append_take_drop_id)
  moreover have "length (take n (xs @ es)) = n" using assms(3) by simp
  ultimately show ?thesis using get_n_rep [OF h1(2)] by metis
qed

end

definition linkable :: "klist \<Rightarrow> addr list \<Rightarrow> addr \<Rightarrow> bool" where
  "linkable l xs e \<longleftrightarrow> e \<notin> set (nodes l xs) \<and> e \<noteq> NULL"

interpretation kq: fifo list_rep linkable list_push_back list_pop_front
  using list_push_back_rep list_pop_front_rep by unfold_locales (force simp: linkable_def)+

lemma linkable_all:
  "kq.rooms l xs es \<longleftrightarrow> distinct es \<and> set es \<inter> set (nodes l xs) = {} \<and> NULL \<notin> set es"
  by (induction es arbitrary: xs) (auto simp: linkable_def nodes_def)

section \<open>Properties of the list library\<close>

text \<open>
  C11. \<^verbatim>\<open>list_sort\<close> (natural merge sort by splicing) returns on every list, never fails one of its
  assertions, and leaves the elements in the stable order of the sort key; it writes no link
  outside the list.
\<close>

theorem list_sort_correct:
  fixes key :: "addr \<Rightarrow> 'k :: linorder"
  assumes "list_rep h l xs"
  shows "\<exists>h'. list_sort (\<lambda>x y. key x < key y) l h = Some h' \<and> list_rep h' l (sort_key key xs)
    \<and> frame (set (nodes l xs)) h h'"
  by (rule list_sort_rep [OF assms])

text \<open>A heap with two lists: 1 - 10, 11, 12 - 2 and 3 - 20 - 4.\<close>

definition demo_heap :: lheap where
  "demo_heap = \<lparr>prev = (\<lambda>_. NULL)(10 := 1, 11 := 10, 12 := 11, 2 := 12, 20 := 3, 4 := 20),
     next = (\<lambda>_. NULL)(1 := 10, 10 := 11, 11 := 12, 12 := 2, 3 := 20, 20 := 4)\<rparr>"

definition demo_l1 :: klist where "demo_l1 = \<lparr>head = 1, tail = 2\<rparr>"

definition demo_l2 :: klist where "demo_l2 = \<lparr>head = 3, tail = 4\<rparr>"

lemmas demo_defs = demo_heap_def demo_l1_def demo_l2_def list_rep_def nodes_def dl_def NULL_def

lemma demo_reps: "list_rep demo_heap demo_l1 [10, 11, 12]" "list_rep demo_heap demo_l2 [20]"
  by (simp_all add: demo_defs)

theorem list_sort_correct_witness:
  "\<exists>h'. list_sort (\<lambda>x y. x mod 3 < y mod 3) demo_l1 demo_heap = Some h' \<and> list_rep h' demo_l1 [12, 10, 11]"
  using list_sort_correct [OF demo_reps(1), of "\<lambda>x. x mod 3"] by (auto simp: sort_key_def)

text \<open>
  Inserting a new element anywhere in a list and removing it again is the identity on the
  list, \<^verbatim>\<open>list_remove\<close> returns the element after the removed one, and any list that shares no
  element with it is untouched by both.
\<close>

lemma list_insert_remove:
  assumes "list_rep h l (us @ vs)" and "e \<notin> set (nodes l (us @ vs))" and "e \<noteq> NULL"
    and "list_rep h m ys" and "set (nodes m ys) \<inter> insert e (set (nodes l (us @ vs))) = {}"
  shows "\<exists>h' h''. list_insert (hd (vs @ [list_end l])) e h = Some h' \<and> list_rep h' l (us @ e # vs) \<and> list_rep h' m ys
    \<and> list_remove e h' = Some (hd (vs @ [list_end l]), h'') \<and> list_rep h'' l (us @ vs) \<and> list_rep h'' m ys"
proof -
  obtain h' where h': "list_insert (hd (vs @ [list_end l])) e h = Some h'" "list_rep h' l (us @ e # vs)"
    "frame (insert e (set (nodes l (us @ vs)))) h h'"
    using list_insert_rep [OF assms(1-3)] by (auto simp: list_end_def)
  obtain h'' where h'': "list_remove e h' = Some (hd (vs @ [list_end l]), h'')" "list_rep h'' l (us @ vs)"
    "frame (set (nodes l (us @ vs))) h' h''"
    using list_remove_rep [OF h'(2)] by (auto simp: list_end_def)
  have m': "list_rep h' m ys" using dl_frame h'(3) assms(4,5) by (metis list_rep_def)
  have "set (nodes m ys) \<inter> set (nodes l (us @ vs)) = {}" using assms(5) by auto
  then have "list_rep h'' m ys" using dl_frame h''(3) m' by (metis list_rep_def)
  with h' h'' m' show ?thesis by blast
qed

text \<open>
  C30. \<^verbatim>\<open>list_splice\<close> moves a segment of one list in front of an element (or the end) of another:
  the first list gains exactly that segment, in order, the second loses it, and no other link
  changes.
\<close>

theorem list_splice_moves:
  assumes "list_rep h l (us @ vs)" and "list_rep h m (as @ bs @ cs)"
    and "set (nodes l (us @ vs)) \<inter> set (nodes m (as @ bs @ cs)) = {}"
  shows "\<exists>h'. list_splice (hd (vs @ [list_end l])) (hd (bs @ cs @ [list_end m])) (hd (cs @ [list_end m])) h = Some h'
    \<and> list_rep h' l (us @ bs @ vs) \<and> list_rep h' m (as @ cs)
    \<and> frame (set (nodes l (us @ vs)) \<union> set (nodes m (as @ bs @ cs))) h h'"
proof (cases "bs = []")
  case True
  have "is_interior h (hd (vs @ [tail l])) \<or> is_tail h (hd (vs @ [tail l]))"
    using dl_hd_right [of h "head l # us" "vs @ [tail l]"] assms(1) by (simp add: list_rep_def nodes_def)
  with True assms show ?thesis by (simp add: list_splice_def ASSERT_def list_end_def)
next
  case False
  then show ?thesis
    using dl_splice_cross [of h "head l # us" "vs @ [tail l]" "head m # as" bs "cs @ [tail m]"] assms
    by (simp add: list_rep_def nodes_def list_end_def)
qed

theorem list_splice_moves_witness:
  "\<exists>h'. list_splice 20 11 2 demo_heap = Some h' \<and> list_rep h' demo_l2 [11, 12, 20] \<and> list_rep h' demo_l1 [10]"
  using list_splice_moves [of demo_heap demo_l2 "[]" "[20]" demo_l1 "[10]" "[11, 12]" "[]"] demo_reps
  by (simp add: nodes_def demo_l1_def demo_l2_def list_end_def) blast

text \<open>
  \<^verbatim>\<open>list_reverse\<close> returns and leaves the elements in the opposite order; reversing twice gives
  the list back.
\<close>

lemma list_reverse_twice:
  assumes "list_rep h l xs"
  shows "\<exists>h' h''. list_reverse l h = Some h' \<and> list_rep h' l (rev xs) \<and> list_reverse l h' = Some h'' \<and> list_rep h'' l xs"
  using list_reverse_rep [OF assms] list_reverse_rep [of _ l "rev xs"] by (metis rev_rev_ident)

text \<open>
  \<^verbatim>\<open>list_unique\<close> on a sorted list keeps one element of each key, in order, and appends every
  element it takes out to the duplicates list: no element is lost.
\<close>

lemma list_unique_correct:
  fixes key :: "addr \<Rightarrow> 'k :: linorder"
  assumes "list_rep h l xs" and "list_rep h d ds" and "set (nodes l xs) \<inter> set (nodes d ds) = {}"
    and "sorted (map key xs)"
  shows "\<exists>h' ks rs. list_unique (\<lambda>x y. key x < key y) l (Some d) h = Some h' \<and> list_rep h' l ks \<and> list_rep h' d (ds @ rs)
    \<and> map key ks = remdups_adj (map key xs) \<and> mset ks + mset rs = mset xs"
proof (cases xs)
  case Nil
  then show ?thesis
    using list_unique_rep [of h l xs "Some d" ds "\<lambda>x y. key x < key y"] assms by (auto simp: dup_rep_def)
next
  case (Cons e ys)
  let ?k = "e # uniq_keep (\<lambda>x y. key x < key y) e ys" and ?r = "uniq_dups (\<lambda>x y. key x < key y) e ys"
  have "map key ?k = remdups_adj (map key xs)" "mset ?k + mset ?r = mset xs"
    using assms(4) uniq_keep_sorted [of key e ys] uniq_mset [of "\<lambda>x y. key x < key y" e ys] Cons by auto
  moreover obtain h' where "list_unique (\<lambda>x y. key x < key y) l (Some d) h = Some h'" "list_rep h' l ?k" "list_rep h' d (ds @ ?r)"
    using list_unique_rep [of h l xs "Some d" ds "\<lambda>x y. key x < key y"] assms(1-3) Cons by (auto simp: dup_rep_def)
  ultimately show ?thesis by blast
qed

text \<open>
  On a non-empty list \<^verbatim>\<open>list_max\<close> returns the first element of the greatest key: every earlier
  element is smaller and none is greater.
\<close>

lemma list_max_first:
  fixes key :: "addr \<Rightarrow> 'k :: linorder"
  assumes "list_rep h l (x # xs)"
  shows "\<exists>us m vs. x # xs = us @ m # vs \<and> list_max (\<lambda>x y. key x < key y) l h = Some m
    \<and> (\<forall>y \<in> set us. key y < key m) \<and> (\<forall>y \<in> set vs. key y \<le> key m)"
proof -
  obtain us vs where "x # xs = us @ foldl (\<lambda>m e. if key m < key e then e else m) x xs # vs"
    "\<forall>y \<in> set us. key y < key (foldl (\<lambda>m e. if key m < key e then e else m) x xs)"
    "\<forall>y \<in> set vs. key y \<le> key (foldl (\<lambda>m e. if key m < key e then e else m) x xs)"
    using foldl_first_extreme [of x xs key] by blast
  then show ?thesis unfolding list_max_eq(1) [OF assms] by (intro exI conjI) auto
qed

end
