(* ===== verification/Pintos_Block.thy ===== *)
theory Pintos_Block
  imports Pintos_List_Ops
begin

text \<open>
  The block layer of \<^verbatim>\<open>src/Project_3/devices/block.c\<close>: the list of devices in probe order, the
  device of each role, and sector access with its bounds check. The driver behind a device
  (\<^verbatim>\<open>struct block_operations\<close>) is a store of sectors that returns what was last written. A kernel
  panic is \<open>None\<close>.
\<close>

datatype block_kind = BLOCK_KERNEL | BLOCK_FILESYS | BLOCK_SCRATCH | BLOCK_SWAP | BLOCK_RAW | BLOCK_FOREIGN

definition BLOCK_SECTOR_SIZE :: nat where
  "BLOCK_SECTOR_SIZE = 512"

record block =
  b_name :: string
  b_type :: block_kind
  b_size :: nat
  b_data :: "nat \<Rightarrow> bytes"
  read_cnt :: nat
  write_cnt :: nat

record block_layer =
  b_links :: lheap
  all_blocks :: klist
  blocks :: "addr \<Rightarrow> block option"
  block_by_role :: "block_kind \<Rightarrow> addr"

fun block_type_name :: "block_kind \<Rightarrow> string" where
  "block_type_name BLOCK_KERNEL = ''kernel''"
| "block_type_name BLOCK_FILESYS = ''filesys''"
| "block_type_name BLOCK_SCRATCH = ''scratch''"
| "block_type_name BLOCK_SWAP = ''swap''"
| "block_type_name BLOCK_RAW = ''raw''"
| "block_type_name BLOCK_FOREIGN = ''foreign''"

definition is_role :: "block_kind \<Rightarrow> bool" where
  "is_role k \<longleftrightarrow> k \<noteq> BLOCK_RAW \<and> k \<noteq> BLOCK_FOREIGN"

definition block_get_role :: "block_kind \<Rightarrow> block_layer \<Rightarrow> addr option" where
  "block_get_role role s = do { _ \<leftarrow> ASSERT (is_role role); Some (block_by_role s role) }"

definition block_set_role :: "block_kind \<Rightarrow> addr \<Rightarrow> block_layer \<Rightarrow> block_layer option" where
  "block_set_role role blk s = do { _ \<leftarrow> ASSERT (is_role role); Some (s\<lparr>block_by_role := (block_by_role s)(role := blk)\<rparr>) }"

text \<open>The list element is the first member of \<^verbatim>\<open>struct block\<close>, so both have the same address.\<close>

definition list_elem_to_block :: "addr \<Rightarrow> block_layer \<Rightarrow> addr" where
  "list_elem_to_block e s = (if e \<noteq> list_end (all_blocks s) then e else NULL)"

definition block_first :: "block_layer \<Rightarrow> addr" where
  "block_first s = list_elem_to_block (list_begin (all_blocks s) (b_links s)) s"

definition block_next :: "addr \<Rightarrow> block_layer \<Rightarrow> addr option" where
  "block_next blk s = do { e \<leftarrow> list_next blk (b_links s); Some (list_elem_to_block e s) }"

partial_function (option) by_name_loop :: "string \<Rightarrow> block_layer \<Rightarrow> addr \<Rightarrow> addr option" where
  [code]: "by_name_loop nm s e =
     (if e \<noteq> list_end (all_blocks s) then do {
        b \<leftarrow> blocks s e;
        if nm = b_name b then Some e
        else do { e \<leftarrow> list_next e (b_links s); by_name_loop nm s e } }
      else Some NULL)"

definition block_get_by_name :: "string \<Rightarrow> block_layer \<Rightarrow> addr option" where
  "block_get_by_name nm s = by_name_loop nm s (list_begin (all_blocks s) (b_links s))"

definition check_sector :: "block \<Rightarrow> nat \<Rightarrow> unit option" where
  "check_sector b sec = (if sec \<ge> b_size b then None else Some ())"

definition block_read :: "block \<Rightarrow> nat \<Rightarrow> (bytes \<times> block) option" where
  "block_read b sec = do {
     _ \<leftarrow> check_sector b sec;
     Some (b_data b sec, b\<lparr>read_cnt := read_cnt b + 1\<rparr>) }"

definition block_write :: "block \<Rightarrow> nat \<Rightarrow> bytes \<Rightarrow> block option" where
  "block_write b sec buf = do {
     _ \<leftarrow> check_sector b sec;
     _ \<leftarrow> ASSERT (b_type b \<noteq> BLOCK_FOREIGN);
     Some (b\<lparr>b_data := (b_data b)(sec := buf), write_cnt := write_cnt b + 1\<rparr>) }"

definition block_size :: "block \<Rightarrow> nat" where
  "block_size b = b_size b"

definition block_name :: "block \<Rightarrow> string" where
  "block_name b = b_name b"

definition block_type :: "block \<Rightarrow> block_kind" where
  "block_type b = b_type b"

text \<open>
  \<open>blk\<close> is the answer of \<^verbatim>\<open>malloc\<close>; the name is cut to the 16 bytes of the field. The console
  message is not modelled.
\<close>

definition block_register :: "addr \<Rightarrow> string \<Rightarrow> block_kind \<Rightarrow> nat \<Rightarrow> (nat \<Rightarrow> bytes) \<Rightarrow> block_layer \<Rightarrow> (addr \<times> block_layer) option" where
  "block_register blk nm k sz ops s =
     (if blk = NULL then None
      else do {
        h \<leftarrow> list_push_back (all_blocks s) blk (b_links s);
        Some (blk, s\<lparr>b_links := h, blocks := (blocks s)(blk \<mapsto>
          \<lparr>b_name = take 15 nm, b_type = k, b_size = sz, b_data = ops, read_cnt = 0, write_cnt = 0\<rparr>)\<rparr>) })"

text \<open>The devices in probe order.\<close>

definition probe_order :: "block_layer \<Rightarrow> addr list \<Rightarrow> bool" where
  "probe_order s bs \<longleftrightarrow> list_rep (b_links s) (all_blocks s) bs \<and> (\<forall>b \<in> set bs. blocks s b \<noteq> None)"

lemma by_name_loop_eq:
  assumes "list_rep (b_links s) (all_blocks s) (us @ bs)" and "\<forall>b \<in> set bs. blocks s b \<noteq> None"
  shows "by_name_loop nm s (hd (bs @ [tail (all_blocks s)])) =
    Some (case find (\<lambda>b. nm = b_name (the (blocks s b))) bs of None \<Rightarrow> NULL | Some b \<Rightarrow> b)"
  using assms
proof (induction bs arbitrary: us)
  case Nil
  then show ?case by (simp add: by_name_loop.simps list_end_def)
next
  case (Cons b bs)
  have "list_next b (b_links s) = Some (hd (bs @ [tail (all_blocks s)]))"
    using dl_list_next [of "b_links s" "head (all_blocks s) # us" b "hd (bs @ [tail (all_blocks s)])" "List.tl (bs @ [tail (all_blocks s)])"]
      Cons.prems(1) by (simp add: list_rep_def nodes_def)
  moreover have "b \<noteq> tail (all_blocks s)" using Cons.prems(1) by (auto simp: list_rep_def nodes_def dl_def)
  moreover obtain x where "blocks s b = Some x" using Cons.prems(2) by auto
  ultimately show ?case using Cons.IH [of "us @ [b]"] Cons.prems
    by (subst by_name_loop.simps) (simp add: list_end_def)
qed

lemma block_get_by_name_eq:
  "probe_order s bs \<Longrightarrow> block_get_by_name nm s =
     Some (case find (\<lambda>b. nm = b_name (the (blocks s b))) bs of None \<Rightarrow> NULL | Some b \<Rightarrow> b)"
  using by_name_loop_eq [of s "[]" bs nm] list_begin_rep [of "b_links s" "all_blocks s" bs]
  by (simp add: probe_order_def block_get_by_name_def)

lemma block_register_order:
  assumes "probe_order s bs" and "linkable (all_blocks s) bs blk"
  shows "\<exists>s'. block_register blk nm k sz ops s = Some (blk, s') \<and> probe_order s' (bs @ [blk])
    \<and> (\<forall>b \<in> set bs. blocks s' b = blocks s b)"
proof -
  obtain h where h: "list_push_back (all_blocks s) blk (b_links s) = Some h" "list_rep h (all_blocks s) (bs @ [blk])"
    using kq.put_back [of "b_links s" "all_blocks s" bs blk] assms by (auto simp: probe_order_def)
  then show ?thesis using assms by (auto simp: block_register_def probe_order_def linkable_def nodes_def)
qed

end
