(* ===== verification/Pintos_Bitmap.thy ===== *)
theory Pintos_Bitmap
  imports Pintos_Base
begin

unbundle bit_operations_syntax

text \<open>
  The bitmaps of \<^verbatim>\<open>src/Project_3/lib/kernel/bitmap.c\<close>. A \<^verbatim>\<open>struct bitmap\<close> is its number of
  bits and its array of 32-bit elements; the single-bit updates are the masked \<^verbatim>\<open>or\<close>,
  \<^verbatim>\<open>and\<close> and \<^verbatim>\<open>xor\<close> of the code, an access outside the array is \<open>None\<close>. The abstraction
  \<open>bools\<close> reads the array as a list of truth values and every operation is shown to be the
  corresponding list operation. The file input and output of bitmaps is in \<open>Pintos_Inode\<close>, with
  the files it needs.
\<close>

section \<open>Elements and masks\<close>

record bitmap =
  bit_cnt :: nat
  bits :: "32 word list"

definition ELEM_BITS :: nat where
  "ELEM_BITS = 32"

definition elem_idx :: "nat \<Rightarrow> nat" where
  "elem_idx bit_idx = bit_idx div ELEM_BITS"

definition bit_mask :: "nat \<Rightarrow> 32 word" where
  "bit_mask bit_idx = push_bit (bit_idx mod ELEM_BITS) 1"

definition elem_cnt :: "nat \<Rightarrow> nat" where
  "elem_cnt n = DIV_ROUND_UP n ELEM_BITS"

definition byte_cnt :: "nat \<Rightarrow> nat" where
  "byte_cnt n = szt (4 * elem_cnt n)"

definition last_mask :: "bitmap \<Rightarrow> 32 word" where
  "last_mask b = (let last_bits = bit_cnt b mod ELEM_BITS in if last_bits \<noteq> 0 then push_bit last_bits 1 - 1 else - 1)"

text \<open>An element of the array; outside of it the access is undefined.\<close>

definition get_elem :: "bitmap \<Rightarrow> nat \<Rightarrow> 32 word option" where
  "get_elem b k = (if k < length (bits b) then Some (bits b ! k) else None)"

definition put_elem :: "bitmap \<Rightarrow> nat \<Rightarrow> 32 word \<Rightarrow> bitmap" where
  "put_elem b k x = b\<lparr>bits := (bits b)[k := x]\<rparr>"

section \<open>Single bits\<close>

definition bitmap_size :: "bitmap \<Rightarrow> nat" where
  "bitmap_size b = bit_cnt b"

definition bitmap_mark :: "bitmap \<Rightarrow> nat \<Rightarrow> bitmap option" where
  "bitmap_mark b bit_idx = do {
     x \<leftarrow> get_elem b (elem_idx bit_idx);
     Some (put_elem b (elem_idx bit_idx) (x OR bit_mask bit_idx)) }"

definition bitmap_reset :: "bitmap \<Rightarrow> nat \<Rightarrow> bitmap option" where
  "bitmap_reset b bit_idx = do {
     x \<leftarrow> get_elem b (elem_idx bit_idx);
     Some (put_elem b (elem_idx bit_idx) (x AND NOT (bit_mask bit_idx))) }"

definition bitmap_flip :: "bitmap \<Rightarrow> nat \<Rightarrow> bitmap option" where
  "bitmap_flip b bit_idx = do {
     x \<leftarrow> get_elem b (elem_idx bit_idx);
     Some (put_elem b (elem_idx bit_idx) (x XOR bit_mask bit_idx)) }"

definition bitmap_set :: "bitmap \<Rightarrow> nat \<Rightarrow> bool \<Rightarrow> bitmap option" where
  "bitmap_set b idx v = do {
     _ \<leftarrow> ASSERT (idx < bit_cnt b);
     if v then bitmap_mark b idx else bitmap_reset b idx }"

definition bitmap_test :: "bitmap \<Rightarrow> nat \<Rightarrow> bool option" where
  "bitmap_test b idx = do {
     _ \<leftarrow> ASSERT (idx < bit_cnt b);
     x \<leftarrow> get_elem b (elem_idx idx);
     Some ((x AND bit_mask idx) \<noteq> 0) }"

section \<open>Ranges of bits\<close>

text \<open>The loops run from \<open>i\<close> for the given number of rounds.\<close>

fun set_loop :: "nat \<Rightarrow> bool \<Rightarrow> nat \<Rightarrow> nat \<Rightarrow> bitmap \<Rightarrow> bitmap option" where
  "set_loop start v i 0 b = Some b"
| "set_loop start v i (Suc n) b = do { b \<leftarrow> bitmap_set b (szt (start + i)) v; set_loop start v (i + 1) n b }"

definition bitmap_set_multiple :: "bitmap \<Rightarrow> nat \<Rightarrow> nat \<Rightarrow> bool \<Rightarrow> bitmap option" where
  "bitmap_set_multiple b start cnt v = do {
     _ \<leftarrow> ASSERT (start \<le> bit_cnt b);
     _ \<leftarrow> ASSERT (szt (start + cnt) \<le> bit_cnt b);
     set_loop start v 0 cnt b }"

definition bitmap_set_all :: "bitmap \<Rightarrow> bool \<Rightarrow> bitmap option" where
  "bitmap_set_all b v = bitmap_set_multiple b 0 (bitmap_size b) v"

fun count_loop :: "bitmap \<Rightarrow> nat \<Rightarrow> bool \<Rightarrow> nat \<Rightarrow> nat \<Rightarrow> nat \<Rightarrow> nat option" where
  "count_loop b start v i 0 value_cnt = Some value_cnt"
| "count_loop b start v i (Suc n) value_cnt = do {
     t \<leftarrow> bitmap_test b (szt (start + i));
     count_loop b start v (i + 1) n (if t = v then value_cnt + 1 else value_cnt) }"

definition bitmap_count :: "bitmap \<Rightarrow> nat \<Rightarrow> nat \<Rightarrow> bool \<Rightarrow> nat option" where
  "bitmap_count b start cnt v = do {
     _ \<leftarrow> ASSERT (start \<le> bit_cnt b);
     _ \<leftarrow> ASSERT (szt (start + cnt) \<le> bit_cnt b);
     count_loop b start v 0 cnt 0 }"

fun contains_loop :: "bitmap \<Rightarrow> nat \<Rightarrow> bool \<Rightarrow> nat \<Rightarrow> nat \<Rightarrow> bool option" where
  "contains_loop b start v i 0 = Some False"
| "contains_loop b start v i (Suc n) = do {
     t \<leftarrow> bitmap_test b (szt (start + i));
     if t = v then Some True else contains_loop b start v (i + 1) n }"

definition bitmap_contains :: "bitmap \<Rightarrow> nat \<Rightarrow> nat \<Rightarrow> bool \<Rightarrow> bool option" where
  "bitmap_contains b start cnt v = do {
     _ \<leftarrow> ASSERT (start \<le> bit_cnt b);
     _ \<leftarrow> ASSERT (szt (start + cnt) \<le> bit_cnt b);
     contains_loop b start v 0 cnt }"

definition bitmap_any :: "bitmap \<Rightarrow> nat \<Rightarrow> nat \<Rightarrow> bool option" where
  "bitmap_any b start cnt = bitmap_contains b start cnt True"

definition bitmap_none :: "bitmap \<Rightarrow> nat \<Rightarrow> nat \<Rightarrow> bool option" where
  "bitmap_none b start cnt = do { c \<leftarrow> bitmap_contains b start cnt True; Some (\<not> c) }"

definition bitmap_all :: "bitmap \<Rightarrow> nat \<Rightarrow> nat \<Rightarrow> bool option" where
  "bitmap_all b start cnt = do { c \<leftarrow> bitmap_contains b start cnt False; Some (\<not> c) }"

definition BITMAP_ERROR :: nat where
  "BITMAP_ERROR = SIZE_MAX"

function scan_loop :: "bitmap \<Rightarrow> nat \<Rightarrow> bool \<Rightarrow> nat \<Rightarrow> nat \<Rightarrow> nat option" where
  "scan_loop b cnt v lst i =
     (if i \<le> lst then do {
        c \<leftarrow> bitmap_contains b i cnt (\<not> v);
        if \<not> c then Some i else scan_loop b cnt v lst (i + 1) }
      else Some BITMAP_ERROR)"
  by pat_completeness auto
termination by (relation "measure (\<lambda>(b, cnt, v, lst, i). Suc lst - i)") auto

declare scan_loop.simps [simp del]

definition bitmap_scan :: "bitmap \<Rightarrow> nat \<Rightarrow> nat \<Rightarrow> bool \<Rightarrow> nat option" where
  "bitmap_scan b start cnt v = do {
     _ \<leftarrow> ASSERT (start \<le> bit_cnt b);
     if cnt \<le> bit_cnt b then scan_loop b cnt v (bit_cnt b - cnt) start
     else Some BITMAP_ERROR }"

definition bitmap_scan_and_flip :: "bitmap \<Rightarrow> nat \<Rightarrow> nat \<Rightarrow> bool \<Rightarrow> (nat \<times> bitmap) option" where
  "bitmap_scan_and_flip b start cnt v = do {
     idx \<leftarrow> bitmap_scan b start cnt v;
     if idx \<noteq> BITMAP_ERROR then do { b \<leftarrow> bitmap_set_multiple b idx cnt (\<not> v); Some (idx, b) }
     else Some (idx, b) }"

section \<open>Creation\<close>

text \<open>
  \<open>mb\<close> and \<open>ma\<close> are the answers of the two calls of \<^verbatim>\<open>malloc\<close>; the second carries the
  contents of the memory it returns, which the code never initializes as a whole.
\<close>

definition bitmap_create :: "bool \<Rightarrow> (nat \<Rightarrow> 32 word list option) \<Rightarrow> nat \<Rightarrow> bitmap option option" where
  "bitmap_create mb ma cnt =
     (if mb then
        case ma (byte_cnt cnt) of
          Some xs \<Rightarrow> do { b \<leftarrow> bitmap_set_all \<lparr>bit_cnt = cnt, bits = xs\<rparr> False; Some (Some b) }
        | None \<Rightarrow> if cnt = 0 then do { b \<leftarrow> bitmap_set_all \<lparr>bit_cnt = cnt, bits = []\<rparr> False; Some (Some b) }
                  else Some None
      else Some None)"

definition bitmap_buf_size :: "nat \<Rightarrow> nat" where
  "bitmap_buf_size cnt = szt (8 + byte_cnt cnt)"

definition bitmap_create_in_buf :: "nat \<Rightarrow> 32 word list \<Rightarrow> nat \<Rightarrow> bitmap option" where
  "bitmap_create_in_buf cnt block block_size = do {
     _ \<leftarrow> ASSERT (block_size \<ge> bitmap_buf_size cnt);
     bitmap_set_all \<lparr>bit_cnt = cnt, bits = block\<rparr> False }"

section \<open>The list of truth values\<close>

definition bools :: "bitmap \<Rightarrow> bool list" where
  "bools b = map (\<lambda>i. bit (bits b ! (i div 32)) (i mod 32)) [0..<bit_cnt b]"

definition wf_bitmap :: "bitmap \<Rightarrow> bool" where
  "wf_bitmap b \<longleftrightarrow> bit_cnt b + 31 < 2 ^ 32 \<and> length (bits b) = elem_cnt (bit_cnt b)"

lemma length_bools [simp]: "length (bools b) = bit_cnt b"
  by (simp add: bools_def)

lemma nth_bools: "i < bit_cnt b \<Longrightarrow> bools b ! i = bit (bits b ! (i div 32)) (i mod 32)"
  by (simp add: bools_def)

lemma elem_idx_bound:
  assumes "wf_bitmap b" and "i < bit_cnt b"
  shows "elem_idx i < length (bits b)"
proof -
  have "bit_cnt b \<le> elem_cnt (bit_cnt b) * 32"
    using assms(1) DIV_ROUND_UP_bound(1) [of "bit_cnt b" 32] by (simp add: wf_bitmap_def elem_cnt_def ELEM_BITS_def)
  then show ?thesis using assms by (simp add: wf_bitmap_def elem_idx_def ELEM_BITS_def less_mult_imp_div_less)
qed

text \<open>One masked update changes exactly one truth value.\<close>

lemma bools_put_elem:
  assumes "i < bit_cnt b" and "i div 32 < length (bits b)"
    and "\<And>k. k < 32 \<Longrightarrow> bit y k = (if k = i mod 32 then v else bit (bits b ! (i div 32)) k)"
  shows "bools (put_elem b (i div 32) y) = (bools b)[i := v]"
proof (rule nth_equalityI)
  fix j assume "j < length (bools (put_elem b (i div 32) y))"
  then have j: "j < bit_cnt b" by (simp add: put_elem_def)
  have "j div 32 = i div 32 \<Longrightarrow> j mod 32 = i mod 32 \<Longrightarrow> j = i" by (metis div_mult_mod_eq)
  then show "bools (put_elem b (i div 32) y) ! j = (bools b)[i := v] ! j"
    using assms j by (auto simp: bools_def put_elem_def nth_list_update)
qed (simp add: put_elem_def)

lemma wf_put_elem [simp]: "wf_bitmap (put_elem b k y) = wf_bitmap b"
  by (simp add: wf_bitmap_def put_elem_def)

lemma bit_cnt_put_elem [simp]: "bit_cnt (put_elem b k y) = bit_cnt b"
  by (simp add: put_elem_def)

lemma bit_bit_mask: "k < 32 \<Longrightarrow> bit (bit_mask i) k \<longleftrightarrow> k = i mod 32"
  by (auto simp: bit_mask_def ELEM_BITS_def bit_exp_iff)

lemma bitmap_update:
  assumes "wf_bitmap b" and "i < bit_cnt b"
  shows bitmap_mark_bools: "\<exists>b'. bitmap_mark b i = Some b' \<and> wf_bitmap b' \<and> bools b' = (bools b)[i := True]"
    and bitmap_reset_bools: "\<exists>b'. bitmap_reset b i = Some b' \<and> wf_bitmap b' \<and> bools b' = (bools b)[i := False]"
    and bitmap_flip_bools: "\<exists>b'. bitmap_flip b i = Some b' \<and> wf_bitmap b' \<and> bools b' = (bools b)[i := \<not> bools b ! i]"
proof -
  have e: "i div 32 < length (bits b)" using elem_idx_bound [OF assms] by (simp add: elem_idx_def ELEM_BITS_def)
  note upd = bools_put_elem [OF assms(2) e]
  have "bools (put_elem b (i div 32) (bits b ! (i div 32) OR bit_mask i)) = (bools b)[i := True]"
    by (rule upd) (auto simp: bit_or_iff bit_bit_mask)
  then show "\<exists>b'. bitmap_mark b i = Some b' \<and> wf_bitmap b' \<and> bools b' = (bools b)[i := True]"
    using e assms by (simp add: bitmap_mark_def elem_idx_def ELEM_BITS_def get_elem_def)
  have "bools (put_elem b (i div 32) (bits b ! (i div 32) AND NOT (bit_mask i))) = (bools b)[i := False]"
    by (rule upd) (auto simp: bit_and_iff bit_not_iff bit_bit_mask)
  then show "\<exists>b'. bitmap_reset b i = Some b' \<and> wf_bitmap b' \<and> bools b' = (bools b)[i := False]"
    using e assms by (simp add: bitmap_reset_def elem_idx_def ELEM_BITS_def get_elem_def)
  have "bools (put_elem b (i div 32) (bits b ! (i div 32) XOR bit_mask i)) = (bools b)[i := \<not> bools b ! i]"
    by (rule upd) (auto simp: bit_xor_iff bit_bit_mask nth_bools assms(2))
  then show "\<exists>b'. bitmap_flip b i = Some b' \<and> wf_bitmap b' \<and> bools b' = (bools b)[i := \<not> bools b ! i]"
    using e assms by (simp add: bitmap_flip_def elem_idx_def ELEM_BITS_def get_elem_def)
qed

lemma bitmap_set_bools:
  "wf_bitmap b \<Longrightarrow> i < bit_cnt b \<Longrightarrow> \<exists>b'. bitmap_set b i v = Some b' \<and> wf_bitmap b' \<and> bools b' = (bools b)[i := v]"
  using bitmap_mark_bools [of b i] bitmap_reset_bools [of b i] by (cases v) (simp_all add: bitmap_set_def)

lemma bitmap_test_bools:
  assumes "wf_bitmap b" and "i < bit_cnt b"
  shows "bitmap_test b i = Some (bools b ! i)"
proof -
  have "(x AND bit_mask i \<noteq> 0) = bit x (i mod 32)" for x :: "32 word"
  proof -
    have "i mod 32 < 32" by simp
    moreover have "x AND bit_mask i = 0 \<longleftrightarrow> (\<forall>k < 32. \<not> (bit x k \<and> bit (bit_mask i) k))"
      by (auto simp: bit_eq_iff bit_and_iff dest: bit_imp_le_length)
    ultimately show ?thesis by (auto simp: bit_bit_mask)
  qed
  then show ?thesis using elem_idx_bound [OF assms] assms
    by (simp add: bitmap_test_def get_elem_def nth_bools elem_idx_def ELEM_BITS_def)
qed

lemma bit_cnt_bools: "bools b' = xs \<Longrightarrow> bit_cnt b' = length xs"
  using length_bools by metis

text \<open>A range of bits set to one value, as a list.\<close>

definition set_range :: "nat \<Rightarrow> nat \<Rightarrow> bool \<Rightarrow> bool list \<Rightarrow> bool list" where
  "set_range start cnt v xs = take start xs @ replicate cnt v @ drop (start + cnt) xs"

lemma length_set_range [simp]: "start + cnt \<le> length xs \<Longrightarrow> length (set_range start cnt v xs) = length xs"
  by (simp add: set_range_def)

lemma nth_set_range:
  "start + cnt \<le> length xs \<Longrightarrow> i < length xs \<Longrightarrow>
   set_range start cnt v xs ! i = (if start \<le> i \<and> i < start + cnt then v else xs ! i)"
  by (auto simp: set_range_def nth_append min_def)

lemma set_range_0 [simp]: "set_range start 0 v xs = xs"
  by (simp add: set_range_def)

lemma set_range_Suc:
  "start + Suc cnt \<le> length xs \<Longrightarrow> set_range start (Suc cnt) v xs = set_range (Suc start) cnt v (xs[start := v])"
  by (rule nth_equalityI) (auto simp: nth_set_range nth_list_update)

lemma set_loop_bools:
  "wf_bitmap b \<Longrightarrow> start + i + n \<le> bit_cnt b \<Longrightarrow>
   \<exists>b'. set_loop start v i n b = Some b' \<and> wf_bitmap b' \<and> bools b' = set_range (start + i) n v (bools b)"
proof (induction n arbitrary: i b)
  case (Suc n)
  have lt: "start + i < 2 ^ 32" using Suc.prems by (simp add: wf_bitmap_def)
  obtain b1 where b1: "bitmap_set b (start + i) v = Some b1" "wf_bitmap b1" "bools b1 = (bools b)[start + i := v]"
    using bitmap_set_bools [of b "start + i" v] Suc.prems by auto
  have "bit_cnt b1 = bit_cnt b" using bit_cnt_bools [OF b1(3)] by simp
  with Suc.IH [of b1 "i + 1"] Suc.prems b1 lt show ?case by (auto simp: set_range_Suc)
qed simp

lemma bitmap_set_multiple_bools:
  assumes "wf_bitmap b" and "start + cnt \<le> bit_cnt b"
  shows "\<exists>b'. bitmap_set_multiple b start cnt v = Some b' \<and> wf_bitmap b' \<and> bools b' = set_range start cnt v (bools b)"
  using set_loop_bools [of b start 0 cnt v] assms by (simp add: bitmap_set_multiple_def wf_bitmap_def)

lemma count_loop_bools:
  "wf_bitmap b \<Longrightarrow> start + i + n \<le> bit_cnt b \<Longrightarrow>
   count_loop b start v i n c = Some (c + length (filter (\<lambda>x. x = v) (take n (drop (start + i) (bools b)))))"
proof (induction n arbitrary: i c)
  case (Suc n)
  have lt: "start + i < 2 ^ 32" "start + i < bit_cnt b" using Suc.prems by (simp_all add: wf_bitmap_def)
  then have "drop (start + i) (bools b) = bools b ! (start + i) # drop (start + (i + 1)) (bools b)"
    by (simp add: Cons_nth_drop_Suc)
  with Suc.IH [of "i + 1"] Suc.prems lt show ?case by (simp add: bitmap_test_bools)
qed simp

lemma contains_loop_bools:
  "wf_bitmap b \<Longrightarrow> start + i + n \<le> bit_cnt b \<Longrightarrow>
   contains_loop b start v i n = Some (v \<in> set (take n (drop (start + i) (bools b))))"
proof (induction n arbitrary: i)
  case (Suc n)
  have lt: "start + i < 2 ^ 32" "start + i < bit_cnt b" using Suc.prems by (simp_all add: wf_bitmap_def)
  then have "drop (start + i) (bools b) = bools b ! (start + i) # drop (start + (i + 1)) (bools b)"
    by (simp add: Cons_nth_drop_Suc)
  with Suc.IH [of "i + 1"] Suc.prems lt show ?case by (simp add: bitmap_test_bools)
qed simp

lemma bitmap_count_bools:
  "wf_bitmap b \<Longrightarrow> start + cnt \<le> bit_cnt b \<Longrightarrow>
   bitmap_count b start cnt v = Some (length (filter (\<lambda>x. x = v) (take cnt (drop start (bools b)))))"
  using count_loop_bools [of b start 0 cnt v 0] by (simp add: bitmap_count_def wf_bitmap_def)

lemma bitmap_contains_bools:
  "wf_bitmap b \<Longrightarrow> start + cnt \<le> bit_cnt b \<Longrightarrow>
   bitmap_contains b start cnt v = Some (v \<in> set (take cnt (drop start (bools b))))"
  using contains_loop_bools [of b start 0 cnt v] by (simp add: bitmap_contains_def wf_bitmap_def)

text \<open>\<open>free_at xs v cnt k\<close>: the \<open>cnt\<close> values from \<open>k\<close> on exist and are all \<open>v\<close>.\<close>

definition free_at :: "bool list \<Rightarrow> bool \<Rightarrow> nat \<Rightarrow> nat \<Rightarrow> bool" where
  "free_at xs v cnt k \<longleftrightarrow> k + cnt \<le> length xs \<and> (\<forall>j < cnt. xs ! (k + j) = v)"

lemma free_at_iff: "free_at xs v cnt k \<longleftrightarrow> k + cnt \<le> length xs \<and> (\<forall>i. k \<le> i \<and> i < k + cnt \<longrightarrow> xs ! i = v)"
  unfolding free_at_def by (metis add_less_cancel_left le_add1 le_iff_add)

lemma free_at_take:
  "k + cnt \<le> length xs \<Longrightarrow> (\<not> v) \<notin> set (take cnt (drop k xs)) \<longleftrightarrow> free_at xs v cnt k"
  by (auto simp: free_at_def in_set_conv_nth)

lemma scan_loop_bools:
  assumes "wf_bitmap b" and "cnt \<le> bit_cnt b"
  shows "\<exists>r. scan_loop b cnt v (bit_cnt b - cnt) i = Some r \<and>
    (r = BITMAP_ERROR \<and> (\<forall>k \<ge> i. \<not> free_at (bools b) v cnt k)
     \<or> i \<le> r \<and> free_at (bools b) v cnt r \<and> (\<forall>k. i \<le> k \<and> k < r \<longrightarrow> \<not> free_at (bools b) v cnt k))"
  using assms
proof (induction "bit_cnt b - cnt + 1 - i" arbitrary: i)
  case 0
  then have "\<not> i \<le> bit_cnt b - cnt" by simp
  then show ?case using 0 by (auto simp: scan_loop.simps free_at_def)
next
  case (Suc n)
  have le: "i + cnt \<le> bit_cnt b" "i \<le> bit_cnt b - cnt" using Suc.hyps(2) assms(2) by linarith+
  have c: "bitmap_contains b i cnt (\<not> v) = Some (\<not> free_at (bools b) v cnt i)"
    using bitmap_contains_bools [OF assms(1) le(1)] free_at_take [of i cnt "bools b" v] le by auto
  show ?case
  proof (cases "free_at (bools b) v cnt i")
    case True
    then have "scan_loop b cnt v (bit_cnt b - cnt) i = Some i" using c le by (subst scan_loop.simps) simp
    with True show ?thesis by auto
  next
    case False
    then have "scan_loop b cnt v (bit_cnt b - cnt) i = scan_loop b cnt v (bit_cnt b - cnt) (i + 1)"
      using c le by (subst scan_loop.simps) simp
    moreover have "n = bit_cnt b - cnt + 1 - (i + 1)" using Suc.hyps(2) by simp
    ultimately show ?thesis using Suc.hyps(1) [of "i + 1"] assms False
      by (metis (no_types, opaque_lifting) Suc_eq_plus1 Suc_leD Suc_leI le_neq_implies_less)
  qed
qed

lemma bitmap_scan_bools:
  assumes "wf_bitmap b" and "start \<le> bit_cnt b"
  shows "\<exists>r. bitmap_scan b start cnt v = Some r \<and>
    (r = BITMAP_ERROR \<and> (\<forall>k \<ge> start. \<not> free_at (bools b) v cnt k)
     \<or> start \<le> r \<and> free_at (bools b) v cnt r \<and> (\<forall>k. start \<le> k \<and> k < r \<longrightarrow> \<not> free_at (bools b) v cnt k))"
proof (cases "cnt \<le> bit_cnt b")
  case True
  then show ?thesis using scan_loop_bools [OF assms(1) True, of v start] assms by (simp add: bitmap_scan_def)
next
  case False
  then show ?thesis using assms by (simp add: bitmap_scan_def free_at_def)
qed

lemma free_at_not_error: "wf_bitmap b \<Longrightarrow> free_at (bools b) v cnt r \<Longrightarrow> r \<noteq> BITMAP_ERROR"
  by (auto simp: wf_bitmap_def free_at_def BITMAP_ERROR_def SIZE_MAX_def)

lemma bitmap_scan_and_flip_bools:
  assumes "wf_bitmap b" and "start \<le> bit_cnt b"
  shows "\<exists>r b'. bitmap_scan_and_flip b start cnt v = Some (r, b') \<and> wf_bitmap b' \<and>
    (r = BITMAP_ERROR \<and> b' = b \<and> (\<forall>k \<ge> start. \<not> free_at (bools b) v cnt k)
     \<or> r \<noteq> BITMAP_ERROR \<and> start \<le> r \<and> free_at (bools b) v cnt r \<and> (\<forall>k. start \<le> k \<and> k < r \<longrightarrow> \<not> free_at (bools b) v cnt k)
       \<and> bools b' = set_range r cnt (\<not> v) (bools b))"
proof -
  obtain r where r: "bitmap_scan b start cnt v = Some r"
    "r = BITMAP_ERROR \<and> (\<forall>k \<ge> start. \<not> free_at (bools b) v cnt k)
     \<or> start \<le> r \<and> free_at (bools b) v cnt r \<and> (\<forall>k. start \<le> k \<and> k < r \<longrightarrow> \<not> free_at (bools b) v cnt k)"
    using bitmap_scan_bools [OF assms, of cnt v] by blast
  show ?thesis
  proof (cases "r = BITMAP_ERROR")
    case True
    then have "\<not> free_at (bools b) v cnt r" using free_at_not_error [OF assms(1)] by blast
    with r True assms show ?thesis by (simp add: bitmap_scan_and_flip_def)
  next
    case False
    with r have f: "free_at (bools b) v cnt r" by simp
    then obtain b' where "bitmap_set_multiple b r cnt (\<not> v) = Some b'" "wf_bitmap b'" "bools b' = set_range r cnt (\<not> v) (bools b)"
      using bitmap_set_multiple_bools [OF assms(1), of r cnt "\<not> v"] by (auto simp: free_at_def)
    with r False show ?thesis by (simp add: bitmap_scan_and_flip_def)
  qed
qed

lemma bitmap_set_all_bools:
  "wf_bitmap b \<Longrightarrow> \<exists>b'. bitmap_set_all b v = Some b' \<and> wf_bitmap b' \<and> bools b' = replicate (bit_cnt b) v"
  using bitmap_set_multiple_bools [of b 0 "bit_cnt b" v]
  by (simp add: bitmap_set_all_def bitmap_size_def set_range_def)

lemma bitmap_create_bools:
  assumes "cnt + 31 < 2 ^ 32" and "ma (byte_cnt cnt) = Some xs" and "length xs = elem_cnt cnt"
  shows "\<exists>b. bitmap_create True ma cnt = Some (Some b) \<and> wf_bitmap b \<and> bools b = replicate cnt False"
  using bitmap_set_all_bools [of "\<lparr>bit_cnt = cnt, bits = xs\<rparr>" False] assms
  by (auto simp: bitmap_create_def wf_bitmap_def)

section \<open>Extents\<close>

text \<open>
  What the allocators built on a bitmap (the free map of the file system, the page pools) rely
  on: taking the first free extent of a size, and giving an extent back.
\<close>

locale extents =
  fixes ok :: "'b \<Rightarrow> bool"
    and view :: "'b \<Rightarrow> bool list"
    and grab :: "'b \<Rightarrow> nat \<Rightarrow> (nat \<times> 'b) option"
    and give :: "'b \<Rightarrow> nat \<Rightarrow> nat \<Rightarrow> 'b option"
    and err :: nat
  assumes grab_law: "ok b \<Longrightarrow> \<exists>r b'. grab b n = Some (r, b') \<and> ok b' \<and>
      (r = err \<and> b' = b \<and> (\<forall>k. \<not> free_at (view b) False n k)
       \<or> r \<noteq> err \<and> free_at (view b) False n r \<and> view b' = set_range r n True (view b))"
    and give_law: "ok b \<Longrightarrow> r + n \<le> length (view b) \<Longrightarrow>
      \<exists>b'. give b r n = Some b' \<and> ok b' \<and> view b' = set_range r n False (view b)"
begin

lemma grab_give:
  assumes "ok b" and "grab b n = Some (r, b')" and "r \<noteq> err"
  shows "\<exists>b''. give b' r n = Some b'' \<and> ok b'' \<and> view b'' = view b"
proof -
  have g: "ok b'" "free_at (view b) False n r" "view b' = set_range r n True (view b)"
    using grab_law [OF assms(1), of n] assms(2,3) by auto
  then have "set_range r n False (view b') = view b"
    by (intro nth_equalityI) (auto simp: free_at_iff nth_set_range)
  with give_law [OF g(1), of r n] g show ?thesis by (auto simp: free_at_def)
qed

text \<open>Extents taken one after the other are free, disjoint from each other and marked used.\<close>

fun grab_all :: "'b \<Rightarrow> nat list \<Rightarrow> (nat list \<times> 'b) option" where
  "grab_all b [] = Some ([], b)"
| "grab_all b (n # ns) = (case grab b n of None \<Rightarrow> None | Some (r, b') \<Rightarrow>
     (case grab_all b' ns of None \<Rightarrow> None | Some (rs, b'') \<Rightarrow> Some (r # rs, b'')))"

definition extent :: "nat \<Rightarrow> nat \<Rightarrow> nat set" where
  "extent r n = (if r = err then {} else {r..<r + n})"

lemma grab_all_disjoint:
  assumes "ok b" and "grab_all b ns = Some (rs, b')"
  shows "ok b' \<and> length (view b') = length (view b) \<and> length rs = length ns
    \<and> (\<forall>i < length ns. extent (rs ! i) (ns ! i) \<subseteq> {k. k < length (view b) \<and> \<not> view b ! k})
    \<and> (\<forall>i < length ns. \<forall>j < i. extent (rs ! i) (ns ! i) \<inter> extent (rs ! j) (ns ! j) = {})
    \<and> (\<forall>k < length (view b). view b' ! k \<longleftrightarrow> view b ! k \<or> (\<exists>i < length ns. k \<in> extent (rs ! i) (ns ! i)))"
  using assms
proof (induction ns arbitrary: b rs b')
  case (Cons n ns)
  then obtain r b1 rs1 where g: "grab b n = Some (r, b1)" "grab_all b1 ns = Some (rs1, b')" "rs = r # rs1"
    by (auto split: option.splits)
  have b1: "ok b1" "length (view b1) = length (view b)" "extent r n \<subseteq> {k. k < length (view b) \<and> \<not> view b ! k}"
    "\<forall>k < length (view b). view b1 ! k \<longleftrightarrow> view b ! k \<or> k \<in> extent r n"
    using grab_law [OF Cons.prems(1), of n] g(1)
    by (auto simp: extent_def free_at_iff nth_set_range split: if_splits)
  note IH = Cons.IH [OF b1(1) g(2)]
  have sub: "extent (rs1 ! i) (ns ! i) \<subseteq> {k. k < length (view b) \<and> \<not> view b ! k \<and> k \<notin> extent r n}" if "i < length ns" for i
  proof
    fix k assume "k \<in> extent (rs1 ! i) (ns ! i)"
    then have "k < length (view b1) \<and> \<not> view b1 ! k" using IH that by auto
    then show "k \<in> {k. k < length (view b) \<and> \<not> view b ! k \<and> k \<notin> extent r n}" using b1(2,4) by auto
  qed
  have "extent (rs ! i) ((n # ns) ! i) \<subseteq> {k. k < length (view b) \<and> \<not> view b ! k}" if "i < length (n # ns)" for i
    using sub [of "i - 1"] b1(3) that g(3) by (cases i) auto
  moreover have "extent (rs ! i) ((n # ns) ! i) \<inter> extent (rs ! j) ((n # ns) ! j) = {}" if "i < length (n # ns)" "j < i" for i j
    using sub [of "i - 1"] IH that g(3) by (cases i; cases j) auto
  moreover have "view b' ! k \<longleftrightarrow> view b ! k \<or> (\<exists>i < length (n # ns). k \<in> extent (rs ! i) ((n # ns) ! i))"
    if "k < length (view b)" for k
  proof -
    have "view b' ! k \<longleftrightarrow> view b1 ! k \<or> (\<exists>i < length ns. k \<in> extent (rs1 ! i) (ns ! i))" using IH b1(2) that by simp
    then show ?thesis using b1(4) that unfolding g(3) length_Cons Ex_less_Suc2 by simp
  qed
  ultimately show ?case using IH b1(2) g(3) by simp
qed simp

end

interpretation bitmap_extents:
  extents wf_bitmap bools "\<lambda>b n. bitmap_scan_and_flip b 0 n False" "\<lambda>b r n. bitmap_set_multiple b r n False" BITMAP_ERROR
proof unfold_locales
  fix b n assume "wf_bitmap b"
  then show "\<exists>r b'. bitmap_scan_and_flip b 0 n False = Some (r, b') \<and> wf_bitmap b' \<and>
      (r = BITMAP_ERROR \<and> b' = b \<and> (\<forall>k. \<not> free_at (bools b) False n k)
       \<or> r \<noteq> BITMAP_ERROR \<and> free_at (bools b) False n r \<and> bools b' = set_range r n True (bools b))"
    using bitmap_scan_and_flip_bools [of b 0 n False] by auto
qed (simp add: bitmap_set_multiple_bools)

section \<open>Properties of bitmaps\<close>

text \<open>
  On a well-formed bitmap \<^verbatim>\<open>bitmap_set_multiple\<close> sets exactly the bits of the range: each
  later \<^verbatim>\<open>bitmap_test\<close> sees the new value inside the range and the old one outside, and
  \<^verbatim>\<open>bitmap_count\<close> over any range counts the bits that read as the value.
\<close>

lemma bitmap_set_multiple_exact:
  assumes "wf_bitmap b" and "start + cnt \<le> bit_cnt b" and "from + n \<le> bit_cnt b"
  shows "\<exists>b'. bitmap_set_multiple b start cnt v = Some b' \<and> wf_bitmap b' \<and> bit_cnt b' = bit_cnt b
    \<and> (\<forall>i < bit_cnt b. bitmap_test b' i = (if start \<le> i \<and> i < start + cnt then Some v else bitmap_test b i))
    \<and> bitmap_count b' from n w = Some (card {i. from \<le> i \<and> i < from + n \<and> bitmap_test b' i = Some w})"
proof -
  obtain b' where b': "bitmap_set_multiple b start cnt v = Some b'" "wf_bitmap b'" "bools b' = set_range start cnt v (bools b)"
    using bitmap_set_multiple_bools [OF assms(1,2)] by blast
  have c: "bit_cnt b' = bit_cnt b" using bit_cnt_bools [OF b'(3)] assms(2) by simp
  have t: "bitmap_test b' i = Some (bools b' ! i)" if "i < bit_cnt b" for i using bitmap_test_bools b'(2) c that by simp
  have "bitmap_test b' i = (if start \<le> i \<and> i < start + cnt then Some v else bitmap_test b i)" if "i < bit_cnt b" for i
    using t [OF that] that assms(1,2) b'(3) by (simp add: nth_set_range bitmap_test_bools)
  moreover have "bitmap_count b' from n w = Some (card {i. from \<le> i \<and> i < from + n \<and> bitmap_test b' i = Some w})"
  proof -
    have "{i. from \<le> i \<and> i < from + n \<and> bitmap_test b' i = Some w} = (\<lambda>j. from + j) ` {j. j < n \<and> bools b' ! (from + j) = w}"
      using t assms(3) by (auto simp: image_iff) (metis le_add_diff_inverse less_diff_conv2 add.commute)+
    moreover have "card ((\<lambda>j. from + j) ` {j. j < n \<and> bools b' ! (from + j) = w}) = card {j. j < n \<and> bools b' ! (from + j) = w}"
      by (simp add: card_image)
    moreover have "length (filter (\<lambda>x. x = w) (take n (drop from (bools b')))) = card {j. j < n \<and> bools b' ! (from + j) = w}"
      unfolding length_filter_conv_card using assms(3) c by (intro arg_cong [where f = card]) auto
    ultimately show ?thesis using bitmap_count_bools [OF b'(2)] assms(3) c by simp
  qed
  ultimately show ?thesis using b' c by blast
qed

definition demo_bitmap :: bitmap where
  "demo_bitmap = \<lparr>bit_cnt = 40, bits = [7, 0]\<rparr>"

lemma wf_demo_bitmap: "wf_bitmap demo_bitmap"
  by (simp add: wf_bitmap_def demo_bitmap_def elem_cnt_def DIV_ROUND_UP_def ELEM_BITS_def)

text \<open>
  C33. \<^verbatim>\<open>bitmap_scan_and_flip\<close> returns the first position at or after \<open>start\<close> where \<open>cnt\<close> bits have
  the value, and flips exactly these bits; it reports \<^verbatim>\<open>BITMAP_ERROR\<close>, with the bitmap
  unchanged, only if there is no such position. For no bits at all this is \<open>start\<close> itself, with no bit
  flipped, whatever \<open>start\<close> is; the comment of the function says that it returns 0 then.
\<close>

theorem bitmap_scan_and_flip_first:
  assumes "wf_bitmap b" and "start \<le> bit_cnt b"
  shows "\<exists>r b'. bitmap_scan_and_flip b start cnt v = Some (r, b') \<and> wf_bitmap b' \<and>
    (if r = BITMAP_ERROR then b' = b \<and> (\<forall>k \<ge> start. \<not> free_at (bools b) v cnt k)
     else start \<le> r \<and> free_at (bools b) v cnt r \<and> (\<forall>k. start \<le> k \<and> k < r \<longrightarrow> \<not> free_at (bools b) v cnt k)
       \<and> bools b' = set_range r cnt (\<not> v) (bools b)) \<and>
    (cnt = 0 \<longrightarrow> r = start \<and> bools b' = bools b)"
proof -
  obtain r b' where r: "bitmap_scan_and_flip b start cnt v = Some (r, b')" "wf_bitmap b'"
    and d: "r = BITMAP_ERROR \<and> b' = b \<and> (\<forall>k \<ge> start. \<not> free_at (bools b) v cnt k)
     \<or> r \<noteq> BITMAP_ERROR \<and> start \<le> r \<and> free_at (bools b) v cnt r \<and> (\<forall>k. start \<le> k \<and> k < r \<longrightarrow> \<not> free_at (bools b) v cnt k)
       \<and> bools b' = set_range r cnt (\<not> v) (bools b)"
    using bitmap_scan_and_flip_bools [OF assms, of cnt v] by blast
  have "r = start \<and> bools b' = bools b" if "cnt = 0"
  proof -
    have "free_at (bools b) v cnt start" unfolding free_at_iff using assms(2) that by auto
    with d have "start \<le> r" "\<not> start < r" "bools b' = set_range r cnt (\<not> v) (bools b)" by blast+
    then show ?thesis using that by (simp add: set_range_def)
  qed
  with r d show ?thesis by (intro exI [of _ r] exI [of _ b'], cases "r = BITMAP_ERROR") simp_all
qed

theorem bitmap_scan_and_flip_first_witness:
  "\<exists>r b'. bitmap_scan_and_flip demo_bitmap 0 35 False = Some (r, b') \<and> wf_bitmap b' \<and> r = 3"
proof -
  have f: "free_at (bools demo_bitmap) False 35 3" "\<not> free_at (bools demo_bitmap) False 35 0"
    "\<not> free_at (bools demo_bitmap) False 35 1" "\<not> free_at (bools demo_bitmap) False 35 2"
    by code_simp+
  obtain r b' where r: "bitmap_scan_and_flip demo_bitmap 0 35 False = Some (r, b')" "wf_bitmap b'"
    "if r = BITMAP_ERROR then b' = demo_bitmap \<and> (\<forall>k \<ge> 0. \<not> free_at (bools demo_bitmap) False 35 k)
     else 0 \<le> r \<and> free_at (bools demo_bitmap) False 35 r \<and> (\<forall>k. 0 \<le> k \<and> k < r \<longrightarrow> \<not> free_at (bools demo_bitmap) False 35 k)
       \<and> bools b' = set_range r 35 (\<not> False) (bools demo_bitmap)"
    using bitmap_scan_and_flip_first [OF wf_demo_bitmap, of 0 35 False] by blast
  with f have "\<not> 3 < r" "free_at (bools demo_bitmap) False 35 r" by (auto split: if_splits)
  moreover from this have "r \<in> {0, 1, 2, 3}" by auto
  ultimately show ?thesis using f r by blast
qed

end
