(* ===== verification/Pintos_Inode.thy ===== *)
theory Pintos_Inode
  imports Pintos_Block Pintos_Bitmap "HOL-Library.Signed_Division"
begin

text \<open>
  The state of the Pintos file system and the data path of its inodes
  (\<^verbatim>\<open>src/Project_3/filesys/inode.c\<close>, \<^verbatim>\<open>inode_read_at\<close> and \<^verbatim>\<open>inode_write_at\<close>), with the
  layout of on-disk inodes. In-memory inodes, files and directories live in stores indexed by
  their address; the answers of \<^verbatim>\<open>malloc\<close> and \<^verbatim>\<open>calloc\<close> are a sequence of addresses in the state
  (the null pointer for a failed allocation). \<^verbatim>\<open>off_t\<close> is an integer; the offsets and sizes that occur
  are bounded by file lengths, so its additions do not overflow. \<open>None\<close> is a kernel panic or a
  dereference of a pointer to no object.
\<close>

section \<open>On-disk and in-memory inodes\<close>

record inode_disk =
  di_start :: nat
  di_length :: int
  di_magic :: nat

definition INODE_MAGIC :: nat where
  "INODE_MAGIC = 0x494e4f44"

record inode =
  sector :: nat
  open_cnt :: int
  removed :: bool
  deny_write_cnt :: int
  data :: inode_disk

text \<open>The layout of \<^verbatim>\<open>struct inode_disk\<close>: three 32-bit fields and 500 unused bytes.\<close>

definition inode_disk_bytes :: "inode_disk \<Rightarrow> bytes" where
  "inode_disk_bytes d =
     enc32 (word_of_nat (di_start d)) @ enc32 (word_of_int (di_length d)) @ enc32 (word_of_nat (di_magic d)) @ replicate 500 NUL"

definition inode_disk_of :: "bytes \<Rightarrow> inode_disk" where
  "inode_disk_of bs = \<lparr>di_start = unat (dec32 bs), di_length = sint (dec32 (drop 4 bs)), di_magic = unat (dec32 (drop 8 bs))\<rparr>"

record kfile =
  f_inode :: addr
  f_pos :: int
  f_deny_write :: bool

record kdir =
  d_inode :: addr
  d_pos :: int

record fs =
  fs_device :: block
  links :: lheap
  open_inodes :: klist
  inodes :: "addr \<Rightarrow> inode option"
  files :: "addr \<Rightarrow> kfile option"
  dirs :: "addr \<Rightarrow> kdir option"
  free_map :: bitmap
  free_map_file :: addr
  allocs :: "nat \<Rightarrow> addr"

text \<open>The answers that remain after \<open>k\<close> calls.\<close>

definition shift :: "nat \<Rightarrow> (nat \<Rightarrow> 'a) \<Rightarrow> nat \<Rightarrow> 'a" where
  "shift k f = (\<lambda>n. f (n + k))"

lemma shift_0 [simp]: "shift 0 f = f"
  by (simp add: shift_def)

lemma shift_shift [simp]: "shift j (shift k f) = shift (j + k) f"
  by (simp add: shift_def fun_eq_iff add.assoc)

definition malloc :: "fs \<Rightarrow> addr \<times> fs" where
  "malloc s = (allocs s 0, s\<lparr>allocs := shift 1 (allocs s)\<rparr>)"

definition dev_read :: "nat \<Rightarrow> fs \<Rightarrow> (bytes \<times> fs) option" where
  "dev_read sec s = do { (bs, b) \<leftarrow> block_read (fs_device s) sec; Some (bs, s\<lparr>fs_device := b\<rparr>) }"

definition dev_write :: "nat \<Rightarrow> bytes \<Rightarrow> fs \<Rightarrow> fs option" where
  "dev_write sec bs s = do { b \<leftarrow> block_write (fs_device s) sec bs; Some (s\<lparr>fs_device := b\<rparr>) }"

section \<open>Sectors of an inode\<close>

definition bytes_to_sectors :: "int \<Rightarrow> nat" where
  "bytes_to_sectors sz = unat (word_of_int ((sz + 511) sdiv 512) :: 32 word)"

definition byte_to_sector :: "inode \<Rightarrow> int \<Rightarrow> nat" where
  "byte_to_sector ino ps =
     (if ps < di_length (data ino) then unat (word_of_nat (di_start (data ino)) + word_of_int (ps sdiv 512) :: 32 word)
      else SIZE_MAX)"

definition inode_length :: "inode \<Rightarrow> int" where
  "inode_length ino = di_length (data ino)"

text \<open>The size of the chunk of one round: the least of what is wanted, what the file has left and
  what the sector has left.\<close>

definition chunk_size :: "inode \<Rightarrow> int \<Rightarrow> int \<Rightarrow> int" where
  "chunk_size ino sz off =
     (let sector_ofs = off smod 512; inode_left = inode_length ino - off; sector_left = 512 - sector_ofs;
          min_left = (if inode_left < sector_left then inode_left else sector_left) in
      if sz < min_left then sz else min_left)"

text \<open>
  The loop of \<^verbatim>\<open>inode_read_at\<close>. \<open>bounce\<close> says whether the bounce buffer has been allocated and
  \<open>acc\<close> are the bytes copied to the caller's buffer so far.
\<close>

function read_loop :: "inode \<Rightarrow> bool \<Rightarrow> int \<Rightarrow> int \<Rightarrow> bytes \<Rightarrow> fs \<Rightarrow> (bytes \<times> fs) option" where
  "read_loop ino bounce sz off acc s =
     (if sz > 0 then
        let sector_idx = byte_to_sector ino off; sector_ofs = off smod 512; chunk = chunk_size ino sz off in
        if chunk \<le> 0 then Some (acc, s)
        else if sector_ofs = 0 \<and> chunk = 512 then do {
          (bs, s) \<leftarrow> dev_read sector_idx s;
          read_loop ino bounce (sz - chunk) (off + chunk) (acc @ bs) s }
        else
          let (b, s) = (if bounce then (1, s) else malloc s) in
          if b = NULL then Some (acc, s)
          else do {
            (bs, s) \<leftarrow> dev_read sector_idx s;
            read_loop ino True (sz - chunk) (off + chunk) (acc @ take (nat chunk) (drop (nat sector_ofs) bs)) s }
      else Some (acc, s))"
  by pat_completeness auto
termination by (relation "measure (\<lambda>(ino, bounce, sz, off, acc, s). nat sz)") auto

declare read_loop.simps [simp del]

definition inode_read_at :: "inode \<Rightarrow> int \<Rightarrow> int \<Rightarrow> fs \<Rightarrow> (bytes \<times> fs) option" where
  "inode_read_at ino sz off s = read_loop ino False sz off [] s"

text \<open>The loop of \<^verbatim>\<open>inode_write_at\<close>; \<open>buf\<close> are the bytes still to write and \<open>n\<close> counts those written.\<close>

function write_loop :: "inode \<Rightarrow> bool \<Rightarrow> bytes \<Rightarrow> int \<Rightarrow> int \<Rightarrow> int \<Rightarrow> fs \<Rightarrow> (int \<times> fs) option" where
  "write_loop ino bounce buf sz off n s =
     (if sz > 0 then
        let sector_idx = byte_to_sector ino off; sector_ofs = off smod 512; chunk = chunk_size ino sz off in
        if chunk \<le> 0 then Some (n, s)
        else if sector_ofs = 0 \<and> chunk = 512 then do {
          s \<leftarrow> dev_write sector_idx (take 512 buf) s;
          write_loop ino bounce (drop (nat chunk) buf) (sz - chunk) (off + chunk) (n + chunk) s }
        else
          let (b, s) = (if bounce then (1, s) else malloc s) in
          if b = NULL then Some (n, s)
          else do {
            (bs, s) \<leftarrow> (if sector_ofs > 0 \<or> chunk < 512 - sector_ofs then dev_read sector_idx s
                        else Some (replicate 512 NUL, s));
            s \<leftarrow> dev_write sector_idx
                   (take (nat sector_ofs) bs @ take (nat chunk) buf @ drop (nat (sector_ofs + chunk)) bs) s;
            write_loop ino True (drop (nat chunk) buf) (sz - chunk) (off + chunk) (n + chunk) s }
      else Some (n, s))"
  by pat_completeness auto
termination by (relation "measure (\<lambda>(ino, bounce, buf, sz, off, n, s). nat sz)") auto

declare write_loop.simps [simp del]

definition inode_write_at :: "inode \<Rightarrow> bytes \<Rightarrow> int \<Rightarrow> int \<Rightarrow> fs \<Rightarrow> (int \<times> fs) option" where
  "inode_write_at ino buf sz off s =
     (if deny_write_cnt ino \<noteq> 0 then Some (0, s) else write_loop ino False buf sz off 0 s)"

section \<open>The contents of an inode\<close>

definition file_sectors :: "fs \<Rightarrow> inode_disk \<Rightarrow> bytes list" where
  "file_sectors s d = map (b_data (fs_device s)) [di_start d..<di_start d + bytes_to_sectors (di_length d)]"

definition contents :: "fs \<Rightarrow> inode_disk \<Rightarrow> bytes" where
  "contents s d = take (nat (di_length d)) (concat (file_sectors s d))"

text \<open>The device stores whole sectors and an inode's sectors lie on the device.\<close>

definition wf_dev :: "fs \<Rightarrow> bool" where
  "wf_dev s \<longleftrightarrow> (\<forall>k < b_size (fs_device s). length (b_data (fs_device s) k) = 512) \<and> b_size (fs_device s) < 2 ^ 32
     \<and> b_type (fs_device s) \<noteq> BLOCK_FOREIGN"

definition wf_disk :: "fs \<Rightarrow> inode_disk \<Rightarrow> bool" where
  "wf_disk s d \<longleftrightarrow> 0 \<le> di_length d \<and> di_length d < 2 ^ 31 - 511
     \<and> di_start d + bytes_to_sectors (di_length d) \<le> b_size (fs_device s)"

lemma sdiv_nonneg: "0 \<le> (a :: int) \<Longrightarrow> a sdiv 512 = a div 512"
  by (simp add: signed_divide_int_def sgn_if)

lemma smod_nonneg: "0 \<le> (a :: int) \<Longrightarrow> a smod 512 = a mod 512"
  by (cases "a = 0") (simp_all add: signed_modulo_int_def sgn_if)

lemma bytes_to_sectors_eq:
  assumes "0 \<le> sz" and "sz < 2 ^ 31 - 511"
  shows "bytes_to_sectors sz = nat ((sz + 511) div 512)"
proof -
  have "(sz + 511) div 512 < 4294967296" using assms by simp
  then show ?thesis using assms
    by (simp add: bytes_to_sectors_def sdiv_nonneg unsigned_of_int take_bit_int_eq_self pos_imp_zdiv_nonneg_iff)
qed

lemma bytes_to_sectors_bound:
  assumes "0 \<le> sz" and "sz < 2 ^ 31 - 511"
  shows "sz \<le> 512 * int (bytes_to_sectors sz)" and "512 * int (bytes_to_sectors sz) < sz + 512"
proof -
  have "512 * ((sz + 511) div 512) + (sz + 511) mod 512 = sz + 511" "0 \<le> (sz + 511) mod 512" "(sz + 511) mod 512 < 512"
    by simp_all
  moreover have "0 \<le> (sz + 511) div 512" using assms(1) by (simp add: pos_imp_zdiv_nonneg_iff)
  ultimately show "sz \<le> 512 * int (bytes_to_sectors sz)" "512 * int (bytes_to_sectors sz) < sz + 512"
    unfolding bytes_to_sectors_eq [OF assms] by linarith+
qed

text \<open>Sectors as one sequence of bytes.\<close>

definition overwrite :: "nat \<Rightarrow> 'a list \<Rightarrow> 'a list \<Rightarrow> 'a list" where
  "overwrite k bs xs = take k xs @ bs @ drop (k + length bs) xs"

lemma length_overwrite [simp]: "k + length bs \<le> length xs \<Longrightarrow> length (overwrite k bs xs) = length xs"
  by (simp add: overwrite_def)

lemma overwrite_Nil [simp]: "overwrite k [] xs = xs"
  by (simp add: overwrite_def)

lemma overwrite_append:
  "k + length as + length bs \<le> length xs \<Longrightarrow> overwrite (k + length as) bs (overwrite k as xs) = overwrite k (as @ bs) xs"
  by (simp add: overwrite_def ac_simps)

lemma overwrite_nth:
  "k + length bs \<le> length xs \<Longrightarrow> i < length xs \<Longrightarrow>
   overwrite k bs xs ! i = (if k \<le> i \<and> i < k + length bs then bs ! (i - k) else xs ! i)"
  by (auto simp: overwrite_def nth_append min_def)

lemma take_overwrite: "k + length bs \<le> n \<Longrightarrow> n \<le> length xs \<Longrightarrow> take n (overwrite k bs xs) = overwrite k bs (take n xs)"
  by (rule nth_equalityI) (auto simp: overwrite_nth)

lemma overwrite_read: "k + length bs \<le> length xs \<Longrightarrow> take (length bs) (drop k (overwrite k bs xs)) = bs"
  by (simp add: overwrite_def)

lemma concat_slice:
  "\<forall>x \<in> set xs. length x = n \<Longrightarrow> k < length xs \<Longrightarrow> p + c \<le> n \<Longrightarrow>
   take c (drop p (xs ! k)) = take c (drop (n * k + p) (concat xs))"
proof (induction xs arbitrary: k)
  case (Cons x xs)
  then show ?case by (cases k) (auto simp: add.assoc)
qed simp

lemma concat_overwrite:
  "\<forall>x \<in> set xs. length x = n \<Longrightarrow> k < length xs \<Longrightarrow> p + length bs \<le> n \<Longrightarrow>
   concat (xs[k := overwrite p bs (xs ! k)]) = overwrite (n * k + p) bs (concat xs)"
proof (induction xs arbitrary: k)
  case (Cons x xs)
  then show ?case by (cases k) (auto simp: overwrite_def add.assoc)
qed simp

lemma length_concat_const: "\<forall>x \<in> set xs. length x = n \<Longrightarrow> length (concat xs) = n * length xs"
  by (induction xs) auto

lemma file_sectors_length [simp]: "length (file_sectors s d) = bytes_to_sectors (di_length d)"
  by (simp add: file_sectors_def)

lemma file_sectors_512:
  "wf_dev s \<Longrightarrow> wf_disk s d \<Longrightarrow> \<forall>x \<in> set (file_sectors s d). length x = 512"
  by (auto simp: file_sectors_def wf_dev_def wf_disk_def)

lemma length_contents:
  assumes "wf_dev s" and "wf_disk s d"
  shows "length (contents s d) = nat (di_length d)" and "length (concat (file_sectors s d)) = 512 * bytes_to_sectors (di_length d)"
    and "nat (di_length d) \<le> 512 * bytes_to_sectors (di_length d)"
proof -
  show l: "length (concat (file_sectors s d)) = 512 * bytes_to_sectors (di_length d)"
    using length_concat_const [OF file_sectors_512 [OF assms]] by simp
  have "di_length d \<le> 512 * int (bytes_to_sectors (di_length d))"
    using assms(2) bytes_to_sectors_bound(1) [of "di_length d"] by (simp add: wf_disk_def)
  then show "nat (di_length d) \<le> 512 * bytes_to_sectors (di_length d)" by linarith
  then show "length (contents s d) = nat (di_length d)" using l by (simp add: contents_def)
qed

text \<open>The sector that holds the byte at an offset below the length.\<close>

lemma sector_at:
  assumes "wf_dev s" and "wf_disk s (data ino)" and "0 \<le> off" and "off < di_length (data ino)"
  shows "byte_to_sector ino off = di_start (data ino) + nat (off div 512)"
    and "nat (off div 512) < bytes_to_sectors (di_length (data ino))"
    and "byte_to_sector ino off < b_size (fs_device s)"
proof -
  have "512 * (off div 512) \<le> off" by simp
  moreover have "di_length (data ino) \<le> 512 * int (bytes_to_sectors (di_length (data ino)))"
    using assms(2) bytes_to_sectors_bound(1) by (simp add: wf_disk_def)
  ultimately have lt: "off div 512 < int (bytes_to_sectors (di_length (data ino)))" using assms(4) by linarith
  have nn: "0 \<le> off div 512" using assms(3) by (simp add: pos_imp_zdiv_nonneg_iff)
  show k: "nat (off div 512) < bytes_to_sectors (di_length (data ino))" using lt nn by linarith
  then have b: "di_start (data ino) + nat (off div 512) < b_size (fs_device s)" "b_size (fs_device s) < 2 ^ 32"
    using assms(1,2) by (auto simp: wf_disk_def wf_dev_def)
  have w: "word_of_nat (di_start (data ino)) + word_of_int (off div 512) = (word_of_nat (di_start (data ino) + nat (off div 512)) :: 32 word)"
    using nn by (metis nat_0_le of_int_of_nat_eq of_nat_add)
  have "unat (word_of_nat (di_start (data ino)) + word_of_int (off div 512) :: 32 word) = di_start (data ino) + nat (off div 512)"
    unfolding w using b by (simp add: unsigned_of_nat take_bit_nat_eq_self del: of_nat_add)
  then show e: "byte_to_sector ino off = di_start (data ino) + nat (off div 512)"
    using assms(3,4) by (simp add: byte_to_sector_def sdiv_nonneg)
  show "byte_to_sector ino off < b_size (fs_device s)" using e b(1) by simp
qed

text \<open>What a read may change: the read counter and the answers of \<^verbatim>\<open>malloc\<close> still to come.\<close>

definition quiet :: "fs \<Rightarrow> fs \<Rightarrow> bool" where
  "quiet s s' \<longleftrightarrow> (\<exists>r k. s' = s\<lparr>fs_device := (fs_device s)\<lparr>read_cnt := r\<rparr>, allocs := shift k (allocs s)\<rparr>)"

lemma quietI: "s' = s\<lparr>fs_device := (fs_device s)\<lparr>read_cnt := r\<rparr>, allocs := shift k (allocs s)\<rparr> \<Longrightarrow> quiet s s'"
  unfolding quiet_def by blast

lemma quiet_refl [simp]: "quiet s s"
  by (rule quietI [where r = "read_cnt (fs_device s)" and k = 0]) simp

lemma quiet_trans [trans]: "quiet s s' \<Longrightarrow> quiet s' s'' \<Longrightarrow> quiet s s''"
  unfolding quiet_def by auto (intro exI, rule refl)

lemma quiet_same:
  assumes "quiet s s'"
  shows "b_data (fs_device s') = b_data (fs_device s)" "b_size (fs_device s') = b_size (fs_device s)"
    "b_type (fs_device s') = b_type (fs_device s)" "links s' = links s" "open_inodes s' = open_inodes s"
    "inodes s' = inodes s" "files s' = files s" "dirs s' = dirs s" "free_map s' = free_map s" "free_map_file s' = free_map_file s"
    "\<exists>k. allocs s' = shift k (allocs s)"
  using assms by (auto simp: quiet_def)

lemma quiet_contents:
  assumes "quiet s s'"
  shows "wf_dev s' = wf_dev s" "wf_disk s' d = wf_disk s d" "file_sectors s' d = file_sectors s d" "contents s' d = contents s d"
  using quiet_same [OF assms] by (simp_all add: wf_dev_def wf_disk_def file_sectors_def contents_def)

lemma dev_read_ok: "k < b_size (fs_device s) \<Longrightarrow> \<exists>s'. dev_read k s = Some (b_data (fs_device s) k, s') \<and> quiet s s' \<and> allocs s' = allocs s"
  by (simp add: dev_read_def block_read_def check_sector_def)
    (rule quietI [where r = "Suc (read_cnt (fs_device s))" and k = 0], simp)

lemma malloc_quiet: "quiet s (snd (malloc s))"
  by (rule quietI [where r = "read_cnt (fs_device s)" and k = 1]) (simp add: malloc_def)

definition avail :: "fs \<Rightarrow> bool" where
  "avail s \<longleftrightarrow> allocs s 0 \<noteq> NULL"

lemma avail_malloc: "fst (malloc s) \<noteq> NULL \<longleftrightarrow> avail s"
  by (simp add: malloc_def avail_def)

lemma chunk_size_props:
  assumes "0 \<le> off" and "off < di_length (data ino)" and "0 < sz"
  shows "0 < chunk_size ino sz off" "chunk_size ino sz off \<le> sz" "off + chunk_size ino sz off \<le> di_length (data ino)"
    "off mod 512 + chunk_size ino sz off \<le> 512"
proof -
  have "0 \<le> off mod 512" "off mod 512 < 512" by simp_all
  then show "0 < chunk_size ino sz off" "chunk_size ino sz off \<le> sz" "off + chunk_size ino sz off \<le> di_length (data ino)"
    "off mod 512 + chunk_size ino sz off \<le> 512"
    using assms by (auto simp: chunk_size_def Let_def smod_nonneg inode_length_def)
qed

lemma chunk_size_end: "0 \<le> off \<Longrightarrow> di_length (data ino) \<le> off \<Longrightarrow> chunk_size ino sz off \<le> 0"
  by (auto simp: chunk_size_def Let_def smod_nonneg inode_length_def)

text \<open>The bytes of a chunk within its sector.\<close>

lemma off_split: "0 \<le> off \<Longrightarrow> nat off = 512 * nat (off div 512) + nat (off mod 512)"
  by (metis Euclidean_Rings.pos_mod_sign mult_div_mod_eq nat_0_le nat_add_distrib nat_mult_distrib nat_numeral
    pos_imp_zdiv_nonneg_iff zero_le_numeral zero_less_numeral mult_nonneg_nonneg)

lemma chunk_slice:
  assumes "wf_dev s" and "wf_disk s (data ino)" and "0 \<le> off" and "off < di_length (data ino)" and "0 < sz"
  defines "c \<equiv> nat (chunk_size ino sz off)"
  shows "take c (drop (nat (off mod 512)) (b_data (fs_device s) (byte_to_sector ino off)))
    = take c (drop (nat off) (contents s (data ino)))"
proof -
  note at = sector_at [OF assms(1-4)]
  note ch = chunk_size_props [OF assms(3-5)]
  let ?k = "nat (off div 512)" and ?p = "nat (off mod 512)"
  have off: "nat off = 512 * ?k + ?p" using assms(3) by (rule off_split)
  have "b_data (fs_device s) (byte_to_sector ino off) = file_sectors s (data ino) ! ?k"
    using at(1,2) by (simp add: file_sectors_def)
  moreover have "?p + c \<le> 512" using ch(1,4) by (simp add: c_def nat_add_distrib [symmetric])
  ultimately have "take c (drop ?p (b_data (fs_device s) (byte_to_sector ino off))) = take c (drop (nat off) (concat (file_sectors s (data ino))))"
    using concat_slice [OF file_sectors_512 [OF assms(1,2)], of ?k ?p c] at(2) off by simp
  also have "\<dots> = take c (drop (nat off) (contents s (data ino)))"
    using ch(1,3) assms(3) by (simp add: contents_def c_def drop_take min_def)
  finally show ?thesis .
qed

text \<open>One round of the read loop: it copies a chunk, or gives up because there is no bounce buffer.\<close>

lemma read_loop_step:
  assumes wf: "wf_dev s" "wf_disk s (data ino)" and off: "0 \<le> off" "off < di_length (data ino)" and sz: "0 < sz"
  defines "c \<equiv> chunk_size ino sz off"
  shows "\<exists>s1 b'. quiet s s1 \<and> (bounce \<or> avail s \<longrightarrow> b' \<or> avail s1) \<and>
    (read_loop ino bounce sz off acc s
       = read_loop ino b' (sz - c) (off + c) (acc @ take (nat c) (drop (nat off) (contents s (data ino)))) s1
     \<or> \<not> (bounce \<or> avail s) \<and> read_loop ino bounce sz off acc s = Some (acc, s1))"
proof -
  define C where "C = contents s (data ino)"
  note ch = chunk_size_props [OF off sz, folded c_def]
  note sl = chunk_slice [OF wf off sz, folded c_def C_def]
  note at = sector_at [OF wf off]
  let ?d = "b_data (fs_device s) (byte_to_sector ino off)"
  show ?thesis
  proof (cases "off mod 512 = 0 \<and> c = 512")
    case True
    obtain s1 where s1: "dev_read (byte_to_sector ino off) s = Some (?d, s1)" "quiet s s1" "allocs s1 = allocs s"
      using dev_read_ok [OF at(3)] by blast
    have "length ?d = 512" using wf(1) at(3) by (simp add: wf_dev_def)
    then have "?d = take (nat c) (drop (nat off) C)" using sl True by simp
    then have "read_loop ino bounce sz off acc s = read_loop ino bounce (sz - c) (off + c) (acc @ take (nat c) (drop (nat off) C)) s1"
      using True sz s1(1) ch(1) off(1) by (subst read_loop.simps) (simp add: Let_def smod_nonneg c_def)
    then show ?thesis using s1 unfolding C_def avail_def by metis
  next
    case False
    define s0 where "s0 = (if bounce then s else snd (malloc s))"
    have q0: "quiet s s0" using malloc_quiet by (simp add: s0_def)
    show ?thesis
    proof (cases "bounce \<or> avail s")
      case no: False
      then have "read_loop ino bounce sz off acc s = Some (acc, s0)"
        using False sz ch(1) off(1) avail_malloc [of s]
        by (subst read_loop.simps) (auto simp: Let_def smod_nonneg c_def s0_def split: prod.splits)
      then show ?thesis using q0 no by blast
    next
      case True
      obtain s2 where s2: "dev_read (byte_to_sector ino off) s0 = Some (?d, s2)" "quiet s0 s2"
        using dev_read_ok [of "byte_to_sector ino off" s0] at(3) quiet_same [OF q0] by auto
      have "read_loop ino bounce sz off acc s = read_loop ino True (sz - c) (off + c) (acc @ take (nat c) (drop (nat off) C)) s2"
        using False True sz ch(1) off(1) avail_malloc [of s] s2(1) sl
        by (subst read_loop.simps) (auto simp: Let_def smod_nonneg c_def [symmetric] s0_def NULL_def split: prod.splits)
      then show ?thesis using quiet_trans [OF q0 s2(2)] unfolding C_def by blast
    qed
  qed
qed

lemma read_loop_contents:
  assumes "wf_dev s" and "wf_disk s (data ino)" and "0 \<le> off"
  shows "\<exists>n s'. read_loop ino bounce sz off acc s = Some (acc @ take n (drop (nat off) (contents s (data ino))), s')
    \<and> quiet s s' \<and> n \<le> nat sz \<and> (bounce \<or> avail s \<longrightarrow> n = nat sz)"
  using assms
proof (induction "nat sz" arbitrary: bounce sz off acc s rule: less_induct)
  case less
  consider (stop) "sz \<le> 0" | (eof) "0 < sz" "di_length (data ino) \<le> off" | (go) "0 < sz" "off < di_length (data ino)" by linarith
  then show ?case
  proof cases
    case stop
    then show ?thesis by (intro exI [of _ 0] exI [of _ s]) (simp add: read_loop.simps)
  next
    case eof
    then have "read_loop ino bounce sz off acc s = Some (acc, s)"
      using chunk_size_end [OF less.prems(3)] by (subst read_loop.simps) (simp add: Let_def)
    moreover have "drop (nat off) (contents s (data ino)) = []"
      using eof length_contents(1) [OF less.prems(1,2)] by simp
    ultimately show ?thesis by (intro exI [of _ "nat sz"] exI [of _ s]) simp
  next
    case go
    define c where "c = chunk_size ino sz off"
    define C where "C = contents s (data ino)"
    note ch = chunk_size_props [OF less.prems(3) go(2,1), folded c_def]
    obtain s1 b' where st: "quiet s s1" "bounce \<or> avail s \<longrightarrow> b' \<or> avail s1"
      "read_loop ino bounce sz off acc s = read_loop ino b' (sz - c) (off + c) (acc @ take (nat c) (drop (nat off) C)) s1
       \<or> \<not> (bounce \<or> avail s) \<and> read_loop ino bounce sz off acc s = Some (acc, s1)"
      using read_loop_step [OF less.prems go(2,1), of bounce acc] unfolding c_def C_def by blast
    show ?thesis
    proof (cases "\<not> (bounce \<or> avail s) \<and> read_loop ino bounce sz off acc s = Some (acc, s1)")
      case True
      with st(1) show ?thesis by (intro exI [of _ 0] exI [of _ s1]) auto
    next
      case False
      have "nat (sz - c) < nat sz" using ch(1) go(1) by linarith
      then obtain n s' where r: "read_loop ino b' (sz - c) (off + c) (acc @ take (nat c) (drop (nat off) C)) s1
          = Some ((acc @ take (nat c) (drop (nat off) C)) @ take n (drop (nat (off + c)) C), s')"
        "quiet s1 s'" "n \<le> nat (sz - c)" "b' \<or> avail s1 \<longrightarrow> n = nat (sz - c)"
        using less.hyps [of "sz - c" s1 "off + c" b' "acc @ take (nat c) (drop (nat off) C)"] less.prems ch(1) quiet_contents [OF st(1)]
        unfolding C_def by auto
      have "nat (off + c) = nat c + nat off" using ch(1) less.prems(3) by simp
      then have "take (nat c) (drop (nat off) C) @ take n (drop (nat (off + c)) C) = take (nat c + n) (drop (nat off) C)"
        by (simp add: take_add)
      moreover have "nat c + nat (sz - c) = nat sz" using ch(1,2) by linarith
      ultimately show ?thesis using r st False quiet_trans [OF st(1) r(2)] unfolding C_def [symmetric]
        by (intro exI [of _ "nat c + n"] exI [of _ s']) auto
    qed
  qed
qed

section \<open>Writing\<close>

text \<open>What a write may change: the given sectors, the counters and the answers of \<^verbatim>\<open>malloc\<close> still to
  come.\<close>

definition writes :: "nat set \<Rightarrow> fs \<Rightarrow> fs \<Rightarrow> bool" where
  "writes K s s' \<longleftrightarrow> (\<exists>f r w k. s' = s\<lparr>fs_device := (fs_device s)\<lparr>b_data := f, read_cnt := r, write_cnt := w\<rparr>, allocs := shift k (allocs s)\<rparr>
     \<and> (\<forall>x. x \<notin> K \<longrightarrow> f x = b_data (fs_device s) x))"

lemma writesI:
  "s' = s\<lparr>fs_device := (fs_device s)\<lparr>b_data := f, read_cnt := r, write_cnt := w\<rparr>, allocs := shift k (allocs s)\<rparr> \<Longrightarrow>
   (\<And>x. x \<notin> K \<Longrightarrow> f x = b_data (fs_device s) x) \<Longrightarrow> writes K s s'"
  unfolding writes_def by blast

lemma quiet_writes: "quiet s s' \<Longrightarrow> writes K s s'"
  unfolding quiet_def
  by (elim exE, rule writesI [where f = "b_data (fs_device s)" and w = "write_cnt (fs_device s)"]) auto

lemma writes_trans: "writes K s s' \<Longrightarrow> writes K s' s'' \<Longrightarrow> writes K s s''"
  unfolding writes_def by auto blast

lemma writes_mono: "writes K s s' \<Longrightarrow> K \<subseteq> L \<Longrightarrow> writes L s s'"
  unfolding writes_def by blast

lemma writes_same:
  assumes "writes K s s'"
  shows "b_size (fs_device s') = b_size (fs_device s)" "b_type (fs_device s') = b_type (fs_device s)" "links s' = links s"
    "open_inodes s' = open_inodes s" "inodes s' = inodes s" "files s' = files s" "dirs s' = dirs s" "free_map s' = free_map s"
    "free_map_file s' = free_map_file s" "\<exists>k. allocs s' = shift k (allocs s)"
    "x \<notin> K \<Longrightarrow> b_data (fs_device s') x = b_data (fs_device s) x" "wf_disk s' d = wf_disk s d"
  using assms by (auto simp: writes_def wf_disk_def)

definition secs :: "inode_disk \<Rightarrow> nat set" where
  "secs d = {di_start d..<di_start d + bytes_to_sectors (di_length d)}"

lemma writes_contents: "writes K s s' \<Longrightarrow> K \<inter> secs d = {} \<Longrightarrow> contents s' d = contents s d"
proof -
  assume w: "writes K s s'" and d: "K \<inter> secs d = {}"
  have "b_data (fs_device s') x = b_data (fs_device s) x" if "x \<in> secs d" for x
    using writes_same(11) [OF w] d that by blast
  then have "file_sectors s' d = file_sectors s d" by (auto simp: file_sectors_def secs_def)
  then show ?thesis by (simp add: contents_def)
qed

lemma overwrite_chunk:
  assumes wf: "wf_dev s" "wf_disk s (data ino)" and off: "0 \<le> off" "off < di_length (data ino)" and sz: "0 < sz"
    and len: "length bs = nat (chunk_size ino sz off)"
  defines "sec \<equiv> byte_to_sector ino off"
  shows "\<exists>s'. dev_write sec (overwrite (nat (off mod 512)) bs (b_data (fs_device s) sec)) s = Some s'
    \<and> writes (secs (data ino)) s s' \<and> wf_dev s' \<and> allocs s' = allocs s
    \<and> contents s' (data ino) = overwrite (nat off) bs (contents s (data ino))"
proof -
  let ?k = "nat (off div 512)" and ?p = "nat (off mod 512)" and ?d = "data ino"
  note at = sector_at [OF wf off, folded sec_def]
  note ch = chunk_size_props [OF off sz]
  define new where "new = overwrite ?p bs (b_data (fs_device s) sec)"
  define s' where "s' = s\<lparr>fs_device := (fs_device s)\<lparr>b_data := (b_data (fs_device s))(sec := new), write_cnt := write_cnt (fs_device s) + 1\<rparr>\<rparr>"
  have l512: "length (b_data (fs_device s) sec) = 512" using wf(1) at(3) by (simp add: wf_dev_def)
  have pc: "?p + length bs \<le> 512" using ch(1,4) len by (simp add: nat_add_distrib [symmetric])
  have "dev_write sec new s = Some s'"
    using at(3) wf(1) by (simp add: dev_write_def block_write_def check_sector_def wf_dev_def s'_def)
  moreover have "writes (secs ?d) s s'"
    using at(1,2) by (intro writesI [where f = "(b_data (fs_device s))(sec := new)" and r = "read_cnt (fs_device s)"
      and w = "write_cnt (fs_device s) + 1" and k = 0]) (auto simp: s'_def secs_def)
  moreover have "wf_dev s'" using wf(1) l512 pc by (simp add: wf_dev_def s'_def new_def)
  moreover have "file_sectors s' ?d = (file_sectors s ?d)[?k := new]"
    using at(1,2) by (intro nth_equalityI) (auto simp: file_sectors_def s'_def nth_list_update)
  moreover have "new = overwrite ?p bs (file_sectors s ?d ! ?k)" using at(1,2) by (simp add: new_def file_sectors_def)
  ultimately have "concat (file_sectors s' ?d) = overwrite (512 * ?k + ?p) bs (concat (file_sectors s ?d))"
    using concat_overwrite [OF file_sectors_512 [OF wf] _ pc] at(2) by simp
  moreover have "nat off = 512 * ?k + ?p" using off(1) by (rule off_split)
  moreover have "nat off + length bs \<le> nat (di_length ?d)" using ch(1,3) len off(1) by linarith
  ultimately have "contents s' ?d = overwrite (nat off) bs (contents s ?d)"
    using take_overwrite [of "nat off" bs "nat (di_length ?d)" "concat (file_sectors s ?d)"] length_contents [OF wf]
    by (simp add: contents_def)
  with \<open>dev_write sec new s = Some s'\<close> \<open>writes (secs ?d) s s'\<close> \<open>wf_dev s'\<close> show ?thesis by (auto simp: new_def s'_def)
qed

lemma quiet_wf: "quiet s s' \<Longrightarrow> wf_dev s' = wf_dev s \<and> contents s' d = contents s d"
  using quiet_contents by blast

text \<open>One round of the write loop.\<close>

lemma write_loop_step:
  assumes wf: "wf_dev s" "wf_disk s (data ino)" and off: "0 \<le> off" "off < di_length (data ino)" and sz: "0 < sz"
    and buf: "nat sz \<le> length buf"
  defines "c \<equiv> chunk_size ino sz off" and "d \<equiv> data ino"
  shows "\<exists>s1 b'. writes (secs d) s s1 \<and> wf_dev s1 \<and> (bounce \<or> avail s \<longrightarrow> b' \<or> avail s1) \<and>
    (contents s1 d = overwrite (nat off) (take (nat c) buf) (contents s d)
       \<and> write_loop ino bounce buf sz off n s = write_loop ino b' (drop (nat c) buf) (sz - c) (off + c) (n + c) s1
     \<or> \<not> (bounce \<or> avail s) \<and> write_loop ino bounce buf sz off n s = Some (n, s1) \<and> contents s1 d = contents s d)"
proof -
  define sec where "sec = byte_to_sector ino off"
  note ch = chunk_size_props [OF off sz, folded c_def]
  have len: "length (take (nat c) buf) = nat (chunk_size ino sz off)" using buf ch(1,2) by (simp add: c_def [symmetric])
  note at = sector_at [OF wf off, folded sec_def]
  have l512: "length (b_data (fs_device s) sec) = 512" using wf(1) at(3) by (simp add: wf_dev_def)
  show ?thesis
  proof (cases "off mod 512 = 0 \<and> c = 512")
    case True
    have "overwrite (nat (off mod 512)) (take (nat c) buf) (b_data (fs_device s) sec) = take 512 buf"
      using True l512 len by (simp add: overwrite_def c_def)
    then obtain s1 where s1: "dev_write sec (take 512 buf) s = Some s1" "writes (secs d) s s1" "wf_dev s1" "allocs s1 = allocs s"
      "contents s1 d = overwrite (nat off) (take (nat c) buf) (contents s d)"
      using overwrite_chunk [OF wf off sz len] unfolding sec_def d_def by auto
    have "write_loop ino bounce buf sz off n s = write_loop ino bounce (drop (nat c) buf) (sz - c) (off + c) (n + c) s1"
      using True sz s1(1) off(1) by (subst write_loop.simps) (simp add: Let_def smod_nonneg c_def sec_def)
    then show ?thesis using s1 unfolding avail_def by metis
  next
    case False
    define s0 where "s0 = (if bounce then s else snd (malloc s))"
    have q0: "quiet s s0" using malloc_quiet by (simp add: s0_def)
    show ?thesis
    proof (cases "bounce \<or> avail s")
      case no: False
      then have "write_loop ino bounce buf sz off n s = Some (n, s0)"
        using False sz ch(1) off(1) avail_malloc [of s]
        by (subst write_loop.simps) (auto simp: Let_def smod_nonneg c_def s0_def split: prod.splits)
      then show ?thesis using quiet_writes [OF q0] quiet_wf [OF q0] wf(1) no by blast
    next
      case True
      obtain s2 where s2: "dev_read sec s0 = Some (b_data (fs_device s) sec, s2)" "quiet s0 s2"
        using dev_read_ok [of sec s0] at(3) quiet_same [OF q0] by auto
      have q2: "quiet s s2" using quiet_trans [OF q0 s2(2)] .
      have wf2: "wf_dev s2" "wf_disk s2 (data ino)" using quiet_contents [OF q2] wf by simp_all
      obtain s1 where s1: "dev_write sec (overwrite (nat (off mod 512)) (take (nat c) buf) (b_data (fs_device s) sec)) s2 = Some s1"
        "writes (secs d) s2 s1" "wf_dev s1" "contents s1 d = overwrite (nat off) (take (nat c) buf) (contents s d)"
        using overwrite_chunk [OF wf2 off sz len] quiet_contents [OF q2] quiet_same [OF q2] unfolding sec_def d_def by auto
      have rd: "off mod 512 > 0 \<or> c < 512 - off mod 512" using False ch(4) pos_mod_sign [of 512 off] by linarith
      have sum: "nat (off mod 512) + length (take (nat c) buf) = nat (off mod 512 + c)"
        using len ch(1) by (simp add: c_def nat_add_distrib)
      define b0 where "b0 = (if bounce then 1 else fst (malloc s))"
      have m: "(if bounce then (1, s) else malloc s) = (b0, s0)" by (simp add: b0_def s0_def)
      have "b0 \<noteq> NULL" using True avail_malloc [of s] by (auto simp: b0_def NULL_def)
      then have g: "(0 < sz) = True" "(c \<le> 0) = False" "(off mod 512 = 0 \<and> c = 512) = False" "(b0 = NULL) = False"
        "(off mod 512 > 0 \<or> c < 512 - off mod 512) = True" using False sz ch(1) rd by auto
      have "write_loop ino bounce buf sz off n s = write_loop ino True (drop (nat c) buf) (sz - c) (off + c) (n + c) s1"
        using s1(1) unfolding overwrite_def sum
        by (subst write_loop.simps) (simp only: Let_def smod_nonneg [OF off(1)] c_def [symmetric] sec_def [symmetric] m g
          if_True if_False prod.case s2(1) Option.bind.simps)
      then show ?thesis using writes_trans [OF quiet_writes [OF q2] s1(2)] s1(3,4) by blast
    qed
  qed
qed

lemma write_loop_contents:
  assumes "wf_dev s" and "wf_disk s (data ino)" and "0 \<le> off" and "nat sz \<le> length buf"
  shows "\<exists>k s'. write_loop ino bounce buf sz off n s = Some (n + int k, s') \<and> writes (secs (data ino)) s s' \<and> wf_dev s'
    \<and> contents s' (data ino) = overwrite (nat off) (take k buf) (contents s (data ino))
    \<and> k \<le> nat sz \<and> int k \<le> max 0 (di_length (data ino) - off)
    \<and> (bounce \<or> avail s \<longrightarrow> k = min (nat sz) (nat (di_length (data ino) - off)))"
  using assms
proof (induction "nat sz" arbitrary: bounce sz off buf n s rule: less_induct)
  case less
  consider (stop) "sz \<le> 0 \<or> di_length (data ino) \<le> off" | (go) "0 < sz" "off < di_length (data ino)" by linarith
  then show ?case
  proof cases
    case stop
    then have "sz \<le> 0 \<or> chunk_size ino sz off \<le> 0" using chunk_size_end [OF less.prems(3)] by blast
    then have "write_loop ino bounce buf sz off n s = Some (n, s)"
      by (cases "0 < sz") (subst write_loop.simps, simp add: Let_def)+
    then show ?thesis using stop less.prems(1) quiet_writes [OF quiet_refl]
      by (intro exI [of _ 0] exI [of _ s]) auto
  next
    case go
    define c where "c = chunk_size ino sz off"
    define d where "d = data ino"
    note ch = chunk_size_props [OF less.prems(3) go(2,1), folded c_def]
    obtain s1 b' where st: "writes (secs d) s s1" "wf_dev s1" "bounce \<or> avail s \<longrightarrow> b' \<or> avail s1"
      "contents s1 d = overwrite (nat off) (take (nat c) buf) (contents s d)
         \<and> write_loop ino bounce buf sz off n s = write_loop ino b' (drop (nat c) buf) (sz - c) (off + c) (n + c) s1
       \<or> \<not> (bounce \<or> avail s) \<and> write_loop ino bounce buf sz off n s = Some (n, s1) \<and> contents s1 d = contents s d"
      using write_loop_step [OF less.prems(1-3) go(2,1) less.prems(4), of bounce n] unfolding c_def d_def by blast
    show ?thesis unfolding d_def [symmetric] using st(4)
    proof (elim disjE conjE)
      assume "\<not> (bounce \<or> avail s)" "write_loop ino bounce buf sz off n s = Some (n, s1)" "contents s1 d = contents s d"
      with st(1,2) show "\<exists>k s'. write_loop ino bounce buf sz off n s = Some (n + int k, s') \<and> writes (secs d) s s' \<and> wf_dev s'
          \<and> contents s' d = overwrite (nat off) (take k buf) (contents s d) \<and> k \<le> nat sz \<and> int k \<le> max 0 (di_length d - off)
          \<and> (bounce \<or> avail s \<longrightarrow> k = min (nat sz) (nat (di_length d - off)))"
        by (intro exI [of _ 0] exI [of _ s1]) simp
    next
      assume c1: "contents s1 d = overwrite (nat off) (take (nat c) buf) (contents s d)"
        and eq: "write_loop ino bounce buf sz off n s = write_loop ino b' (drop (nat c) buf) (sz - c) (off + c) (n + c) s1"
      have "nat (sz - c) < nat sz" "wf_disk s1 (data ino)" "nat (sz - c) \<le> length (drop (nat c) buf)" "0 \<le> off + c"
        using ch(1) go(1) writes_same(12) [OF st(1)] less.prems by auto
      then obtain k s' where r: "write_loop ino b' (drop (nat c) buf) (sz - c) (off + c) (n + c) s1 = Some (n + c + int k, s')"
        "writes (secs d) s1 s'" "wf_dev s'" "contents s' d = overwrite (nat (off + c)) (take k (drop (nat c) buf)) (contents s1 d)"
        "k \<le> nat (sz - c)" "int k \<le> max 0 (di_length d - (off + c))"
        "b' \<or> avail s1 \<longrightarrow> k = min (nat (sz - c)) (nat (di_length d - (off + c)))"
        using less.hyps [of "sz - c" s1 "off + c" "drop (nat c) buf" b' "n + c"] st(2) unfolding d_def by blast
      have l: "length (take (nat c) buf) = nat c" using ch(1,2) less.prems(4) by simp
      have le: "nat off + length (take (nat c) buf) + length (take k (drop (nat c) buf)) \<le> length (contents s d)"
      proof -
        have "int k \<le> di_length (data ino) - (off + c)" using r(6) ch(3) unfolding d_def by simp
        moreover have "length (take k (drop (nat c) buf)) \<le> k" by simp
        ultimately show ?thesis using length_contents(1) [OF less.prems(1,2)] l ch(1) less.prems(3) unfolding d_def by linarith
      qed
      have "nat (off + c) = nat off + length (take (nat c) buf)" using l ch(1) less.prems(3) by simp
      then have "contents s' d = overwrite (nat off) (take (nat c + k) buf) (contents s d)"
        using r(4) c1 overwrite_append [OF le] by (simp add: take_add)
      moreover have "n + c + int k = n + int (nat c + k)" using ch(1) by simp
      moreover have "nat c + k \<le> nat sz" "int (nat c + k) \<le> max 0 (di_length d - off)" using r(5,6) ch(1-3) unfolding d_def by linarith+
      moreover have "bounce \<or> avail s \<longrightarrow> nat c + k = min (nat sz) (nat (di_length d - off))"
        using st(3) r(7) ch(1-3) unfolding d_def by linarith
      ultimately show "\<exists>k s'. write_loop ino bounce buf sz off n s = Some (n + int k, s') \<and> writes (secs d) s s' \<and> wf_dev s'
          \<and> contents s' d = overwrite (nat off) (take k buf) (contents s d) \<and> k \<le> nat sz \<and> int k \<le> max 0 (di_length d - off)
          \<and> (bounce \<or> avail s \<longrightarrow> k = min (nat sz) (nat (di_length d - off)))"
        using eq r(1,3) writes_trans [OF st(1) r(2)] by metis
    qed
  qed
qed

lemma inode_read_at_contents:
  assumes "wf_dev s" and "wf_disk s (data ino)" and "0 \<le> off"
  shows "\<exists>n s'. inode_read_at ino sz off s = Some (take n (drop (nat off) (contents s (data ino))), s')
    \<and> quiet s s' \<and> n \<le> nat sz \<and> (avail s \<longrightarrow> n = nat sz)"
  using read_loop_contents [OF assms, of False sz "[]"] by (simp add: inode_read_at_def)

lemma inode_write_at_contents:
  assumes "wf_dev s" and "wf_disk s (data ino)" and "0 \<le> off" and "nat sz \<le> length buf" and "deny_write_cnt ino = 0"
  shows "\<exists>k s'. inode_write_at ino buf sz off s = Some (int k, s') \<and> writes (secs (data ino)) s s' \<and> wf_dev s'
    \<and> contents s' (data ino) = overwrite (nat off) (take k buf) (contents s (data ino))
    \<and> k \<le> nat sz \<and> int k \<le> max 0 (di_length (data ino) - off)
    \<and> (avail s \<longrightarrow> k = min (nat sz) (nat (di_length (data ino) - off)))"
  using write_loop_contents [OF assms(1-4), of False 0] assms(5) by (simp add: inode_write_at_def)

section \<open>The layout of inodes\<close>

lemma length_inode_disk_bytes [simp]: "length (inode_disk_bytes d) = 512"
  by (simp add: inode_disk_bytes_def)

lemma inode_disk_roundtrip:
  assumes "di_start d < 2 ^ 32" and "- (2 ^ 31) \<le> di_length d" and "di_length d < 2 ^ 31" and "di_magic d < 2 ^ 32"
  shows "inode_disk_of (inode_disk_bytes d) = d"
proof -
  have "drop 4 (enc32 a @ bs) = bs" for a bs by simp
  moreover have "drop 8 (enc32 a @ enc32 b @ bs) = bs" for a b bs by simp
  moreover have "sint (word_of_int (di_length d) :: 32 word) = di_length d"
    using assms(2,3) by (simp add: signed_of_int signed_take_bit_int_eq_self)
  ultimately show ?thesis using assms(1,4)
    by (simp add: inode_disk_of_def inode_disk_bytes_def unsigned_of_nat take_bit_nat_eq_self)
qed

end
