(* ===== verification/Pintos_Filesys.thy ===== *)
theory Pintos_Filesys
  imports Pintos_Inode
begin

text \<open>
  The operations of the Pintos file system above the data path: open inodes
  (\<^verbatim>\<open>inode.c\<close>), files (\<^verbatim>\<open>file.c\<close>), the free map (\<^verbatim>\<open>free-map.c\<close>, with the file input and output of
  \<^verbatim>\<open>bitmap.c\<close>), directories (\<^verbatim>\<open>directory.c\<close>) and \<^verbatim>\<open>filesys.c\<close> (all under
  \<^verbatim>\<open>src/Project_3/filesys\<close>). Pointers to inodes, files and directories are addresses into the
  stores of the state, \<^verbatim>\<open>NULL\<close> is 0, and a pointer to no object gives \<open>None\<close>. The list element
  is the first member of \<^verbatim>\<open>struct inode\<close>, so an inode and its element have one address.
\<close>

section \<open>Files at an offset, and bitmaps in files\<close>

definition file_read_at :: "addr \<Rightarrow> int \<Rightarrow> int \<Rightarrow> fs \<Rightarrow> (bytes \<times> fs) option" where
  "file_read_at f sz ofs s = do {
     fl \<leftarrow> files s f;
     ino \<leftarrow> inodes s (f_inode fl);
     inode_read_at ino sz ofs s }"

definition file_write_at :: "addr \<Rightarrow> bytes \<Rightarrow> int \<Rightarrow> int \<Rightarrow> fs \<Rightarrow> (int \<times> fs) option" where
  "file_write_at f buf sz ofs s = do {
     fl \<leftarrow> files s f;
     ino \<leftarrow> inodes s (f_inode fl);
     inode_write_at ino buf sz ofs s }"

definition bitmap_bytes :: "bitmap \<Rightarrow> bytes" where
  "bitmap_bytes b = concat (map enc32 (bits b))"

fun words_of_bytes :: "nat \<Rightarrow> bytes \<Rightarrow> 32 word list" where
  "words_of_bytes 0 bs = []"
| "words_of_bytes (Suc n) bs = dec32 (take 4 bs) # words_of_bytes n (drop 4 bs)"

definition bitmap_file_size :: "bitmap \<Rightarrow> nat" where
  "bitmap_file_size b = byte_cnt (bit_cnt b)"

definition bitmap_read :: "addr \<Rightarrow> fs \<Rightarrow> (bool \<times> fs) option" where
  "bitmap_read f s =
     (let b = free_map s in
      if bit_cnt b > 0 then do {
        let sz = int (byte_cnt (bit_cnt b));
        (bs, s) \<leftarrow> file_read_at f sz 0 s;
        let b = b\<lparr>bits := words_of_bytes (length (bits b)) (bs @ drop (length bs) (bitmap_bytes b))\<rparr>;
        x \<leftarrow> get_elem b (elem_cnt (bit_cnt b) - 1);
        Some (int (length bs) = sz, s\<lparr>free_map := put_elem b (elem_cnt (bit_cnt b) - 1) (and x (last_mask b))\<rparr>) }
      else Some (True, s))"

definition bitmap_write :: "addr \<Rightarrow> fs \<Rightarrow> (bool \<times> fs) option" where
  "bitmap_write f s = do {
     let sz = int (byte_cnt (bit_cnt (free_map s)));
     (n, s) \<leftarrow> file_write_at f (bitmap_bytes (free_map s)) sz 0 s;
     Some (n = sz, s) }"

section \<open>The free map\<close>

definition FREE_MAP_SECTOR :: nat where
  "FREE_MAP_SECTOR = 0"

definition ROOT_DIR_SECTOR :: nat where
  "ROOT_DIR_SECTOR = 1"

text \<open>\<open>g\<close> are the contents of the memory that \<^verbatim>\<open>malloc\<close> returns for the bits.\<close>

definition free_map_init :: "32 word list \<Rightarrow> fs \<Rightarrow> fs option" where
  "free_map_init g s = do {
     let (a, s) = malloc s;
     let (c, s) = (if a \<noteq> NULL then malloc s else (NULL, s));
     b \<leftarrow> bitmap_create (a \<noteq> NULL) (\<lambda>_. if c = NULL then None else Some g) (block_size (fs_device s));
     b \<leftarrow> b;
     b \<leftarrow> bitmap_mark b FREE_MAP_SECTOR;
     b \<leftarrow> bitmap_mark b ROOT_DIR_SECTOR;
     Some (s\<lparr>free_map := b\<rparr>) }"

definition free_map_allocate :: "nat \<Rightarrow> fs \<Rightarrow> (nat option \<times> fs) option" where
  "free_map_allocate cnt s = do {
     (sec, b) \<leftarrow> bitmap_scan_and_flip (free_map s) 0 cnt False;
     let s = s\<lparr>free_map := b\<rparr>;
     if sec \<noteq> BITMAP_ERROR \<and> free_map_file s \<noteq> NULL then do {
       (okay, s) \<leftarrow> bitmap_write (free_map_file s) s;
       if \<not> okay then do {
         b \<leftarrow> bitmap_set_multiple (free_map s) sec cnt False;
         Some (None, s\<lparr>free_map := b\<rparr>) }
       else Some (Some sec, s) }
     else Some (if sec \<noteq> BITMAP_ERROR then Some sec else None, s) }"

definition free_map_release :: "nat \<Rightarrow> nat \<Rightarrow> fs \<Rightarrow> fs option" where
  "free_map_release sec cnt s = do {
     used \<leftarrow> bitmap_all (free_map s) sec cnt;
     _ \<leftarrow> ASSERT used;
     b \<leftarrow> bitmap_set_multiple (free_map s) sec cnt False;
     (_, s) \<leftarrow> bitmap_write (free_map_file s) (s\<lparr>free_map := b\<rparr>);
     Some s }"

section \<open>Inodes\<close>

definition inode_init :: "fs \<Rightarrow> fs option" where
  "inode_init s = do { h \<leftarrow> list_init (open_inodes s) (links s); Some (s\<lparr>links := h\<rparr>) }"

fun zero_loop :: "nat \<Rightarrow> nat \<Rightarrow> nat \<Rightarrow> fs \<Rightarrow> fs option" where
  "zero_loop first i 0 s = Some s"
| "zero_loop first i (Suc n) s = do {
     s \<leftarrow> dev_write (szt (first + i)) (replicate BLOCK_SECTOR_SIZE NUL) s;
     zero_loop first (i + 1) n s }"

definition inode_create :: "nat \<Rightarrow> int \<Rightarrow> fs \<Rightarrow> (bool \<times> fs) option" where
  "inode_create sec len s = do {
     _ \<leftarrow> ASSERT (len \<ge> 0);
     let (a, s) = malloc s;
     if a \<noteq> NULL then do {
       let sectors = bytes_to_sectors len;
       (r, s) \<leftarrow> free_map_allocate sectors s;
       case r of
         Some first \<Rightarrow> do {
           s \<leftarrow> dev_write sec (inode_disk_bytes \<lparr>di_start = first, di_length = len, di_magic = INODE_MAGIC\<rparr>) s;
           s \<leftarrow> (if sectors > 0 then zero_loop first 0 sectors s else Some s);
           Some (True, s) }
       | None \<Rightarrow> Some (False, s) }
     else Some (False, s) }"

definition put_inode :: "addr \<Rightarrow> inode \<Rightarrow> fs \<Rightarrow> fs" where
  "put_inode a ino s = s\<lparr>inodes := (inodes s)(a \<mapsto> ino)\<rparr>"

definition inode_reopen :: "addr \<Rightarrow> fs \<Rightarrow> (addr \<times> fs) option" where
  "inode_reopen a s =
     (if a \<noteq> NULL then do { ino \<leftarrow> inodes s a; Some (a, put_inode a (ino\<lparr>open_cnt := open_cnt ino + 1\<rparr>) s) }
      else Some (a, s))"

partial_function (option) open_loop :: "nat \<Rightarrow> fs \<Rightarrow> addr \<Rightarrow> addr option" where
  [code]: "open_loop sec s e =
     (if e \<noteq> list_end (open_inodes s) then do {
        ino \<leftarrow> inodes s e;
        if sector ino = sec then Some e
        else do { e \<leftarrow> list_next e (links s); open_loop sec s e } }
      else Some NULL)"

definition inode_open :: "nat \<Rightarrow> fs \<Rightarrow> (addr \<times> fs) option" where
  "inode_open sec s = do {
     e \<leftarrow> open_loop sec s (list_begin (open_inodes s) (links s));
     if e \<noteq> NULL then inode_reopen e s
     else do {
       let (a, s) = malloc s;
       if a = NULL then Some (NULL, s)
       else do {
         h \<leftarrow> list_push_front (open_inodes s) a (links s);
         (bs, s) \<leftarrow> dev_read sec (s\<lparr>links := h\<rparr>);
         Some (a, put_inode a \<lparr>sector = sec, open_cnt = 1, removed = False, deny_write_cnt = 0, data = inode_disk_of bs\<rparr> s) } } }"

definition inode_get_inumber :: "addr \<Rightarrow> fs \<Rightarrow> nat option" where
  "inode_get_inumber a s = do { ino \<leftarrow> inodes s a; Some (sector ino) }"

definition inode_close :: "addr \<Rightarrow> fs \<Rightarrow> fs option" where
  "inode_close a s =
     (if a = NULL then Some s
      else do {
        ino \<leftarrow> inodes s a;
        let ino = ino\<lparr>open_cnt := open_cnt ino - 1\<rparr>;
        let s = put_inode a ino s;
        if open_cnt ino = 0 then do {
          (_, h) \<leftarrow> list_remove a (links s);
          let s = s\<lparr>links := h\<rparr>;
          s \<leftarrow> (if removed ino then do {
                  s \<leftarrow> free_map_release (sector ino) 1 s;
                  free_map_release (di_start (data ino)) (bytes_to_sectors (di_length (data ino))) s }
                else Some s);
          Some (s\<lparr>inodes := (inodes s)(a := None)\<rparr>) }
        else Some s })"

definition inode_remove :: "addr \<Rightarrow> fs \<Rightarrow> fs option" where
  "inode_remove a s = do {
     _ \<leftarrow> ASSERT (a \<noteq> NULL);
     ino \<leftarrow> inodes s a;
     Some (put_inode a (ino\<lparr>removed := True\<rparr>) s) }"

definition inode_deny_write :: "addr \<Rightarrow> fs \<Rightarrow> fs option" where
  "inode_deny_write a s = do {
     ino \<leftarrow> inodes s a;
     let ino = ino\<lparr>deny_write_cnt := deny_write_cnt ino + 1\<rparr>;
     _ \<leftarrow> ASSERT (deny_write_cnt ino \<le> open_cnt ino);
     Some (put_inode a ino s) }"

definition inode_allow_write :: "addr \<Rightarrow> fs \<Rightarrow> fs option" where
  "inode_allow_write a s = do {
     ino \<leftarrow> inodes s a;
     _ \<leftarrow> ASSERT (deny_write_cnt ino > 0);
     _ \<leftarrow> ASSERT (deny_write_cnt ino \<le> open_cnt ino);
     Some (put_inode a (ino\<lparr>deny_write_cnt := deny_write_cnt ino - 1\<rparr>) s) }"

section \<open>Files\<close>

definition put_file :: "addr \<Rightarrow> kfile \<Rightarrow> fs \<Rightarrow> fs" where
  "put_file f fl s = s\<lparr>files := (files s)(f \<mapsto> fl)\<rparr>"

definition file_open :: "addr \<Rightarrow> fs \<Rightarrow> (addr \<times> fs) option" where
  "file_open a s = do {
     let (f, s) = malloc s;
     if a \<noteq> NULL \<and> f \<noteq> NULL then Some (f, put_file f \<lparr>f_inode = a, f_pos = 0, f_deny_write = False\<rparr> s)
     else do { s \<leftarrow> inode_close a s; Some (NULL, s) } }"

definition file_reopen :: "addr \<Rightarrow> fs \<Rightarrow> (addr \<times> fs) option" where
  "file_reopen f s = do { fl \<leftarrow> files s f; (a, s) \<leftarrow> inode_reopen (f_inode fl) s; file_open a s }"

definition file_deny_write :: "addr \<Rightarrow> fs \<Rightarrow> fs option" where
  "file_deny_write f s = do {
     _ \<leftarrow> ASSERT (f \<noteq> NULL);
     fl \<leftarrow> files s f;
     if \<not> f_deny_write fl then inode_deny_write (f_inode fl) (put_file f (fl\<lparr>f_deny_write := True\<rparr>) s)
     else Some s }"

definition file_allow_write :: "addr \<Rightarrow> fs \<Rightarrow> fs option" where
  "file_allow_write f s = do {
     _ \<leftarrow> ASSERT (f \<noteq> NULL);
     fl \<leftarrow> files s f;
     if f_deny_write fl then inode_allow_write (f_inode fl) (put_file f (fl\<lparr>f_deny_write := False\<rparr>) s)
     else Some s }"

definition file_close :: "addr \<Rightarrow> fs \<Rightarrow> fs option" where
  "file_close f s =
     (if f \<noteq> NULL then do {
        s \<leftarrow> file_allow_write f s;
        fl \<leftarrow> files s f;
        s \<leftarrow> inode_close (f_inode fl) s;
        Some (s\<lparr>files := (files s)(f := None)\<rparr>) }
      else Some s)"

definition file_get_inode :: "addr \<Rightarrow> fs \<Rightarrow> addr option" where
  "file_get_inode f s = do { fl \<leftarrow> files s f; Some (f_inode fl) }"

definition file_read :: "addr \<Rightarrow> int \<Rightarrow> fs \<Rightarrow> (bytes \<times> fs) option" where
  "file_read f sz s = do {
     fl \<leftarrow> files s f;
     ino \<leftarrow> inodes s (f_inode fl);
     (bs, s) \<leftarrow> inode_read_at ino sz (f_pos fl) s;
     Some (bs, put_file f (fl\<lparr>f_pos := f_pos fl + int (length bs)\<rparr>) s) }"

definition file_write :: "addr \<Rightarrow> bytes \<Rightarrow> int \<Rightarrow> fs \<Rightarrow> (int \<times> fs) option" where
  "file_write f buf sz s = do {
     fl \<leftarrow> files s f;
     ino \<leftarrow> inodes s (f_inode fl);
     (n, s) \<leftarrow> inode_write_at ino buf sz (f_pos fl) s;
     Some (n, put_file f (fl\<lparr>f_pos := f_pos fl + n\<rparr>) s) }"

definition file_length :: "addr \<Rightarrow> fs \<Rightarrow> int option" where
  "file_length f s = do {
     _ \<leftarrow> ASSERT (f \<noteq> NULL);
     fl \<leftarrow> files s f;
     ino \<leftarrow> inodes s (f_inode fl);
     Some (inode_length ino) }"

definition file_seek :: "addr \<Rightarrow> int \<Rightarrow> fs \<Rightarrow> fs option" where
  "file_seek f new_pos s = do {
     _ \<leftarrow> ASSERT (f \<noteq> NULL);
     _ \<leftarrow> ASSERT (new_pos \<ge> 0);
     fl \<leftarrow> files s f;
     Some (put_file f (fl\<lparr>f_pos := new_pos\<rparr>) s) }"

definition file_tell :: "addr \<Rightarrow> fs \<Rightarrow> int option" where
  "file_tell f s = do { _ \<leftarrow> ASSERT (f \<noteq> NULL); fl \<leftarrow> files s f; Some (f_pos fl) }"

section \<open>The free map file\<close>

definition open_free_map_file :: "fs \<Rightarrow> fs option" where
  "open_free_map_file s = do {
     (a, s) \<leftarrow> inode_open FREE_MAP_SECTOR s;
     (f, s) \<leftarrow> file_open a s;
     if f = NULL then None else Some (s\<lparr>free_map_file := f\<rparr>) }"

definition free_map_open :: "fs \<Rightarrow> fs option" where
  "free_map_open s = do {
     s \<leftarrow> open_free_map_file s;
     (okay, s) \<leftarrow> bitmap_read (free_map_file s) s;
     if okay then Some s else None }"

definition free_map_close :: "fs \<Rightarrow> fs option" where
  "free_map_close s = file_close (free_map_file s) s"

definition free_map_create :: "fs \<Rightarrow> fs option" where
  "free_map_create s = do {
     (okay, s) \<leftarrow> inode_create FREE_MAP_SECTOR (int (bitmap_file_size (free_map s))) s;
     _ \<leftarrow> (if okay then Some () else None);
     s \<leftarrow> open_free_map_file s;
     (okay, s) \<leftarrow> bitmap_write (free_map_file s) s;
     if okay then Some s else None }"

section \<open>Directories\<close>

definition NAME_MAX :: nat where
  "NAME_MAX = 14"

record dir_entry =
  e_sector :: nat
  e_name :: bytes
  e_in_use :: bool

definition dir_entry_bytes :: "dir_entry \<Rightarrow> bytes" where
  "dir_entry_bytes e = enc32 (word_of_nat (e_sector e)) @ e_name e @ [if e_in_use e then CHR 0x01 else NUL]"

definition dir_entry_of :: "bytes \<Rightarrow> dir_entry" where
  "dir_entry_of bs = \<lparr>e_sector = unat (dec32 bs), e_name = take 15 (drop 4 bs), e_in_use = (bs ! 19 \<noteq> NUL)\<rparr>"

definition sizeof_dir_entry :: nat where
  "sizeof_dir_entry = 20"

definition dir_create :: "nat \<Rightarrow> nat \<Rightarrow> fs \<Rightarrow> (bool \<times> fs) option" where
  "dir_create sec entry_cnt s = inode_create sec (int (entry_cnt * sizeof_dir_entry)) s"

definition put_dir :: "addr \<Rightarrow> kdir \<Rightarrow> fs \<Rightarrow> fs" where
  "put_dir d dd s = s\<lparr>dirs := (dirs s)(d \<mapsto> dd)\<rparr>"

definition dir_open :: "addr \<Rightarrow> fs \<Rightarrow> (addr \<times> fs) option" where
  "dir_open a s = do {
     let (d, s) = malloc s;
     if a \<noteq> NULL \<and> d \<noteq> NULL then Some (d, put_dir d \<lparr>d_inode = a, d_pos = 0\<rparr> s)
     else do { s \<leftarrow> inode_close a s; Some (NULL, s) } }"

definition dir_open_root :: "fs \<Rightarrow> (addr \<times> fs) option" where
  "dir_open_root s = do { (a, s) \<leftarrow> inode_open ROOT_DIR_SECTOR s; dir_open a s }"

definition dir_reopen :: "addr \<Rightarrow> fs \<Rightarrow> (addr \<times> fs) option" where
  "dir_reopen d s = do { dd \<leftarrow> dirs s d; (a, s) \<leftarrow> inode_reopen (d_inode dd) s; dir_open a s }"

definition dir_close :: "addr \<Rightarrow> fs \<Rightarrow> fs option" where
  "dir_close d s =
     (if d \<noteq> NULL then do {
        dd \<leftarrow> dirs s d;
        s \<leftarrow> inode_close (d_inode dd) s;
        Some (s\<lparr>dirs := (dirs s)(d := None)\<rparr>) }
      else Some s)"

definition dir_get_inode :: "addr \<Rightarrow> fs \<Rightarrow> addr option" where
  "dir_get_inode d s = do { dd \<leftarrow> dirs s d; Some (d_inode dd) }"

text \<open>\<^verbatim>\<open>strcmp\<close> sees the name up to its zero byte.\<close>

definition entry_name :: "dir_entry \<Rightarrow> string" where
  "entry_name e = cstr (e_name e) 0"

partial_function (option) lookup_loop :: "inode \<Rightarrow> string \<Rightarrow> int \<Rightarrow> fs \<Rightarrow> ((dir_entry \<times> int) option \<times> fs) option" where
  [code]: "lookup_loop ino nm ofs s = do {
     (bs, s) \<leftarrow> inode_read_at ino (int sizeof_dir_entry) ofs s;
     if length bs = sizeof_dir_entry then
       let e = dir_entry_of bs in
       if e_in_use e \<and> nm = entry_name e then Some (Some (e, ofs), s)
       else lookup_loop ino nm (ofs + int sizeof_dir_entry) s
     else Some (None, s) }"

definition lookup :: "addr \<Rightarrow> string \<Rightarrow> fs \<Rightarrow> ((dir_entry \<times> int) option \<times> fs) option" where
  "lookup d nm s = do {
     _ \<leftarrow> ASSERT (d \<noteq> NULL);
     dd \<leftarrow> dirs s d;
     ino \<leftarrow> inodes s (d_inode dd);
     lookup_loop ino nm 0 s }"

definition dir_lookup :: "addr \<Rightarrow> string \<Rightarrow> fs \<Rightarrow> (addr \<times> fs) option" where
  "dir_lookup d nm s = do {
     (r, s) \<leftarrow> lookup d nm s;
     case r of Some (e, _) \<Rightarrow> inode_open (e_sector e) s | None \<Rightarrow> Some (NULL, s) }"

text \<open>
  The search of \<^verbatim>\<open>dir_add\<close> for a free slot. \<open>e\<close> are the bytes of the local entry, which a short
  read overwrites in part.
\<close>

partial_function (option) slot_loop :: "inode \<Rightarrow> bytes \<Rightarrow> int \<Rightarrow> fs \<Rightarrow> (int \<times> bytes \<times> fs) option" where
  [code]: "slot_loop ino e ofs s = do {
     (bs, s) \<leftarrow> inode_read_at ino (int sizeof_dir_entry) ofs s;
     let e = bs @ drop (length bs) e;
     if length bs = sizeof_dir_entry then
       if \<not> e_in_use (dir_entry_of e) then Some (ofs, e, s)
       else slot_loop ino e (ofs + int sizeof_dir_entry) s
     else Some (ofs, e, s) }"

text \<open>\<open>g\<close> are the bytes of the uninitialized local entry.\<close>

definition dir_add :: "bytes \<Rightarrow> addr \<Rightarrow> string \<Rightarrow> nat \<Rightarrow> fs \<Rightarrow> (bool \<times> fs) option" where
  "dir_add g d nm inode_sector s = do {
     _ \<leftarrow> ASSERT (d \<noteq> NULL);
     if nm = [] \<or> length nm > NAME_MAX then Some (False, s)
     else do {
       (r, s) \<leftarrow> lookup d nm s;
       if r \<noteq> None then Some (False, s)
       else do {
         dd \<leftarrow> dirs s d;
         ino \<leftarrow> inodes s (d_inode dd);
         (ofs, e, s) \<leftarrow> slot_loop ino g 0 s;
         let e = dir_entry_of e;
         let e = e\<lparr>e_in_use := True, e_name := strcpy_to (e_name e) nm, e_sector := inode_sector\<rparr>;
         (n, s) \<leftarrow> inode_write_at ino (dir_entry_bytes e) (int sizeof_dir_entry) ofs s;
         Some (n = int sizeof_dir_entry, s) } } }"

definition dir_remove :: "addr \<Rightarrow> string \<Rightarrow> fs \<Rightarrow> (bool \<times> fs) option" where
  "dir_remove d nm s = do {
     (r, s) \<leftarrow> lookup d nm s;
     case r of
       None \<Rightarrow> Some (False, s)
     | Some (e, ofs) \<Rightarrow> do {
         (a, s) \<leftarrow> inode_open (e_sector e) s;
         if a = NULL then Some (False, s)
         else do {
           dd \<leftarrow> dirs s d;
           ino \<leftarrow> inodes s (d_inode dd);
           (n, s) \<leftarrow> inode_write_at ino (dir_entry_bytes (e\<lparr>e_in_use := False\<rparr>)) (int sizeof_dir_entry) ofs s;
           if n \<noteq> int sizeof_dir_entry then do { s \<leftarrow> inode_close a s; Some (False, s) }
           else do {
             s \<leftarrow> inode_remove a s;
             s \<leftarrow> inode_close a s;
             Some (True, s) } } } }"

partial_function (option) readdir_loop :: "inode \<Rightarrow> int \<Rightarrow> fs \<Rightarrow> (string option \<times> int \<times> fs) option" where
  [code]: "readdir_loop ino ps s = do {
     (bs, s) \<leftarrow> inode_read_at ino (int sizeof_dir_entry) ps s;
     if length bs = sizeof_dir_entry then
       if e_in_use (dir_entry_of bs) then Some (Some (entry_name (dir_entry_of bs)), ps + int sizeof_dir_entry, s)
       else readdir_loop ino (ps + int sizeof_dir_entry) s
     else Some (None, ps, s) }"

definition dir_readdir :: "addr \<Rightarrow> fs \<Rightarrow> (string option \<times> fs) option" where
  "dir_readdir d s = do {
     dd \<leftarrow> dirs s d;
     ino \<leftarrow> inodes s (d_inode dd);
     (r, ps, s) \<leftarrow> readdir_loop ino (d_pos dd) s;
     Some (r, put_dir d (dd\<lparr>d_pos := ps\<rparr>) s) }"

section \<open>The file system\<close>

definition do_format :: "fs \<Rightarrow> fs option" where
  "do_format s = do {
     s \<leftarrow> free_map_create s;
     (okay, s) \<leftarrow> dir_create ROOT_DIR_SECTOR 16 s;
     _ \<leftarrow> (if okay then Some () else None);
     free_map_close s }"

definition filesys_init :: "block option \<Rightarrow> 32 word list \<Rightarrow> bool \<Rightarrow> fs \<Rightarrow> fs option" where
  "filesys_init dev g format s = do {
     b \<leftarrow> dev;
     s \<leftarrow> inode_init (s\<lparr>fs_device := b\<rparr>);
     s \<leftarrow> free_map_init g s;
     s \<leftarrow> (if format then do_format s else Some s);
     free_map_open s }"

definition filesys_done :: "fs \<Rightarrow> fs option" where
  "filesys_done s = free_map_close s"

definition filesys_create :: "bytes \<Rightarrow> string \<Rightarrow> int \<Rightarrow> fs \<Rightarrow> (bool \<times> fs) option" where
  "filesys_create g nm initial_size s = do {
     (d, s) \<leftarrow> dir_open_root s;
     (inode_sector, success, s) \<leftarrow>
       (if d = NULL then Some (0, False, s)
        else do {
          (r, s) \<leftarrow> free_map_allocate 1 s;
          case r of
            None \<Rightarrow> Some (0, False, s)
          | Some sec \<Rightarrow> do {
              (okay, s) \<leftarrow> inode_create sec initial_size s;
              if \<not> okay then Some (sec, False, s)
              else do { (okay, s) \<leftarrow> dir_add g d nm sec s; Some (sec, okay, s) } } });
     s \<leftarrow> (if \<not> success \<and> inode_sector \<noteq> 0 then free_map_release inode_sector 1 s else Some s);
     s \<leftarrow> dir_close d s;
     Some (success, s) }"

definition filesys_open :: "string \<Rightarrow> fs \<Rightarrow> (addr \<times> fs) option" where
  "filesys_open nm s = do {
     (d, s) \<leftarrow> dir_open_root s;
     (a, s) \<leftarrow> (if d \<noteq> NULL then dir_lookup d nm s else Some (NULL, s));
     s \<leftarrow> dir_close d s;
     file_open a s }"

definition filesys_remove :: "string \<Rightarrow> fs \<Rightarrow> (bool \<times> fs) option" where
  "filesys_remove nm s = do {
     (d, s) \<leftarrow> dir_open_root s;
     (success, s) \<leftarrow> (if d \<noteq> NULL then dir_remove d nm s else Some (False, s));
     s \<leftarrow> dir_close d s;
     Some (success, s) }"

end
