(* ===== verification/Pintos_Fs_Props.thy ===== *)
theory Pintos_Fs_Props
  imports Pintos_Filesys
begin

text \<open>
  What the file system operations do: the data path reads back what was written and touches no
  other file, the free map hands out sectors that were free, open inodes are shared and counted,
  and a directory is searched entry by entry.
\<close>

section \<open>The free map\<close>

lemma length_bitmap_bytes [simp]: "length (bitmap_bytes b) = 4 * length (bits b)"
  by (simp add: bitmap_bytes_def length_concat comp_def sum_list_triv)

lemma byte_cnt_bits: "wf_bitmap b \<Longrightarrow> byte_cnt (bit_cnt b) = 4 * length (bits b)"
proof -
  assume wf: "wf_bitmap b"
  then have "elem_cnt (bit_cnt b) * 32 < bit_cnt b + 32"
    using DIV_ROUND_UP_bound(2) [of "bit_cnt b" 32] by (simp add: wf_bitmap_def elem_cnt_def ELEM_BITS_def)
  then have "4 * elem_cnt (bit_cnt b) < 2 ^ 32" using wf by (simp add: wf_bitmap_def)
  then show ?thesis using wf by (simp add: byte_cnt_def wf_bitmap_def)
qed

text \<open>The free map file is open on an inode whose sectors are on the device.\<close>

definition map_file :: "fs \<Rightarrow> inode \<Rightarrow> bool" where
  "map_file s ino \<longleftrightarrow> (\<exists>fl. files s (free_map_file s) = Some fl \<and> inodes s (f_inode fl) = Some ino)
     \<and> wf_disk s (data ino) \<and> deny_write_cnt ino = 0 \<and> free_map_file s \<noteq> NULL"

lemma bitmap_write_ok:
  assumes "wf_dev s" and "map_file s ino" and "wf_bitmap (free_map s)"
  shows "\<exists>okay s'. bitmap_write (free_map_file s) s = Some (okay, s') \<and> writes (secs (data ino)) s s' \<and> wf_dev s'
    \<and> (avail s \<and> int (byte_cnt (bit_cnt (free_map s))) \<le> di_length (data ino) \<longrightarrow> okay)"
proof -
  obtain fl where f: "files s (free_map_file s) = Some fl" "inodes s (f_inode fl) = Some ino" "wf_disk s (data ino)" "deny_write_cnt ino = 0"
    using assms(2) by (auto simp: map_file_def)
  let ?b = "bitmap_bytes (free_map s)" and ?sz = "int (byte_cnt (bit_cnt (free_map s)))"
  have "nat ?sz \<le> length ?b" using byte_cnt_bits [OF assms(3)] by (simp del: of_nat_mult)
  then obtain k s' where "inode_write_at ino ?b ?sz 0 s = Some (int k, s')" "writes (secs (data ino)) s s'" "wf_dev s'"
    "avail s \<longrightarrow> k = min (nat ?sz) (nat (di_length (data ino) - 0))"
    using inode_write_at_contents [OF assms(1) f(3) order_refl _ f(4), of ?sz ?b] by blast
  with f(1,2) show ?thesis by (auto simp: bitmap_write_def file_write_at_def)
qed

lemma set_range_undo: "free_at xs v n r \<Longrightarrow> set_range r n v (set_range r n w xs) = xs"
  by (rule nth_equalityI) (auto simp: free_at_iff nth_set_range)

lemma writes_free_map:
  assumes "writes K s s'"
  shows "writes K (s\<lparr>free_map := b\<rparr>) (s'\<lparr>free_map := b\<rparr>)"
proof -
  from assms obtain f r w k where
    "s' = s\<lparr>fs_device := (fs_device s)\<lparr>b_data := f, read_cnt := r, write_cnt := w\<rparr>, allocs := shift k (allocs s)\<rparr>"
    "\<forall>x. x \<notin> K \<longrightarrow> f x = b_data (fs_device s) x"
    unfolding writes_def by blast
  then show ?thesis by (intro writesI [where f = f and r = r and w = w and k = k]) simp_all
qed

lemma free_map_allocate_ok:
  assumes "wf_dev s" and "map_file s ino" and "wf_bitmap (free_map s)"
  shows "\<exists>r s'. free_map_allocate cnt s = Some (r, s') \<and> wf_bitmap (free_map s') \<and> wf_dev s' \<and> map_file s' ino
    \<and> writes (secs (data ino)) (s\<lparr>free_map := free_map s'\<rparr>) s'
    \<and> (case r of None \<Rightarrow> bools (free_map s') = bools (free_map s)
        \<and> (avail s \<and> int (byte_cnt (bit_cnt (free_map s))) \<le> di_length (data ino) \<longrightarrow> (\<forall>k. \<not> free_at (bools (free_map s)) False cnt k))
       | Some sec \<Rightarrow> free_at (bools (free_map s)) False cnt sec
        \<and> bools (free_map s') = set_range sec cnt True (bools (free_map s)))"
proof -
  obtain sec b where sf: "bitmap_scan_and_flip (free_map s) 0 cnt False = Some (sec, b)" "wf_bitmap b"
    "sec = BITMAP_ERROR \<and> b = free_map s \<and> (\<forall>k. \<not> free_at (bools (free_map s)) False cnt k)
     \<or> sec \<noteq> BITMAP_ERROR \<and> free_at (bools (free_map s)) False cnt sec \<and> bools b = set_range sec cnt True (bools (free_map s))"
    using bitmap_extents.grab_law [OF assms(3), of cnt] by blast
  define s1 where "s1 = s\<lparr>free_map := b\<rparr>"
  have w1: "wf_dev s1" "map_file s1 ino" "wf_bitmap (free_map s1)"
    using assms sf(2) by (auto simp: s1_def wf_dev_def map_file_def wf_disk_def)
  show ?thesis
  proof (cases "sec = BITMAP_ERROR")
    case True
    then have "free_map_allocate cnt s = Some (None, s1)" using sf(1) by (simp add: free_map_allocate_def s1_def)
    moreover have "s1 = s" "\<forall>k. \<not> free_at (bools (free_map s)) False cnt k" using True sf(3) by (auto simp: s1_def)
    ultimately show ?thesis using assms quiet_writes [OF quiet_refl] by (intro exI [of _ None] exI [of _ s]) auto
  next
    case False
    then have fr: "free_at (bools (free_map s)) False cnt sec" "bools b = set_range sec cnt True (bools (free_map s))" using sf(3) by auto
    have bl: "bit_cnt b = bit_cnt (free_map s)" using bit_cnt_bools [OF fr(2)] fr(1) by (simp add: free_at_def)
    obtain okay s2 where bw: "bitmap_write (free_map_file s1) s1 = Some (okay, s2)" "writes (secs (data ino)) s1 s2" "wf_dev s2"
      "avail s1 \<and> int (byte_cnt (bit_cnt (free_map s1))) \<le> di_length (data ino) \<longrightarrow> okay"
      using bitmap_write_ok [OF w1] by blast
    have nn: "free_map_file s \<noteq> NULL" using assms(2) by (simp add: map_file_def)
    have mf2: "map_file s2 ino" using w1(2) writes_same [OF bw(2)] by (simp add: map_file_def)
    show ?thesis
    proof (cases okay)
      case True
      then have "free_map_allocate cnt s = Some (Some sec, s2)"
        using sf(1) False bw(1) nn by (simp add: free_map_allocate_def s1_def)
      moreover have "free_map s2 = b" "s\<lparr>free_map := free_map s2\<rparr> = s1" using writes_same(8) [OF bw(2)] by (simp_all add: s1_def)
      ultimately show ?thesis using sf(2) bw fr mf2 by (intro exI [of _ "Some sec"] exI [of _ s2]) simp
    next
      case no: False
      have b2: "free_map s2 = b" using writes_same(8) [OF bw(2)] by (simp add: s1_def)
      obtain b' where b': "bitmap_set_multiple b sec cnt False = Some b'" "wf_bitmap b'" "bools b' = set_range sec cnt False (bools b)"
        using bitmap_set_multiple_bools [OF sf(2), of sec cnt False] fr(1) bl by (auto simp: free_at_def)
      then have "bools b' = bools (free_map s)" using fr set_range_undo by metis
      moreover have "free_map_allocate cnt s = Some (None, s2\<lparr>free_map := b'\<rparr>)"
        using sf(1) False bw(1) nn no b2 b'(1) by (simp add: free_map_allocate_def s1_def)
      moreover have "writes (secs (data ino)) (s\<lparr>free_map := b'\<rparr>) (s2\<lparr>free_map := b'\<rparr>)"
        using writes_free_map [OF bw(2), of b'] by (simp add: s1_def)
      moreover have "avail s \<Longrightarrow> int (byte_cnt (bit_cnt (free_map s))) \<le> di_length (data ino) \<Longrightarrow> False"
        using no bw(4) bl by (simp add: s1_def avail_def)
      ultimately show ?thesis using b'(2) bw(3) mf2
        by (intro exI [of _ None] exI [of _ "s2\<lparr>free_map := b'\<rparr>"]) (auto simp: wf_dev_def map_file_def wf_disk_def)
    qed
  qed
qed

lemma bitmap_all_bools:
  "wf_bitmap b \<Longrightarrow> sec + cnt \<le> bit_cnt b \<Longrightarrow> bitmap_all b sec cnt = Some (free_at (bools b) True cnt sec)"
  using free_at_take [of sec cnt "bools b" True] by (simp add: bitmap_all_def bitmap_contains_bools)

lemma free_map_release_ok:
  assumes "wf_dev s" and "map_file s ino" and "wf_bitmap (free_map s)" and "free_at (bools (free_map s)) True cnt sec"
  shows "\<exists>s'. free_map_release sec cnt s = Some s' \<and> wf_bitmap (free_map s') \<and> wf_dev s' \<and> map_file s' ino
    \<and> bools (free_map s') = set_range sec cnt False (bools (free_map s)) \<and> writes (secs (data ino)) (s\<lparr>free_map := free_map s'\<rparr>) s'"
proof -
  have le: "sec + cnt \<le> bit_cnt (free_map s)" using assms(4) by (simp add: free_at_def)
  obtain b where b: "bitmap_set_multiple (free_map s) sec cnt False = Some b" "wf_bitmap b" "bools b = set_range sec cnt False (bools (free_map s))"
    using bitmap_set_multiple_bools [OF assms(3) le] by blast
  define s1 where "s1 = s\<lparr>free_map := b\<rparr>"
  have w1: "wf_dev s1" "map_file s1 ino" "wf_bitmap (free_map s1)"
    using assms b(2) by (auto simp: s1_def wf_dev_def map_file_def wf_disk_def)
  obtain okay s2 where bw: "bitmap_write (free_map_file s1) s1 = Some (okay, s2)" "writes (secs (data ino)) s1 s2" "wf_dev s2"
    using bitmap_write_ok [OF w1] by blast
  have "free_map_release sec cnt s = Some s2"
    using bitmap_all_bools [OF assms(3) le] assms(4) b(1) bw(1) by (simp add: free_map_release_def s1_def)
  moreover have "free_map s2 = b" "s\<lparr>free_map := free_map s2\<rparr> = s1" using writes_same(8) [OF bw(2)] by (simp_all add: s1_def)
  moreover have "map_file s2 ino" using w1(2) writes_same [OF bw(2)] by (simp add: map_file_def)
  ultimately show ?thesis using b bw by simp
qed

section \<open>Open inodes\<close>

definition open_list :: "fs \<Rightarrow> addr list \<Rightarrow> bool" where
  "open_list s xs \<longleftrightarrow> list_rep (links s) (open_inodes s) xs \<and> dom (inodes s) = set xs"

lemma open_loop_eq:
  assumes "list_rep (links s) (open_inodes s) (us @ xs)" and "\<forall>a \<in> set xs. inodes s a \<noteq> None"
  shows "open_loop sec s (hd (xs @ [tail (open_inodes s)])) =
    Some (case find (\<lambda>a. sector (the (inodes s a)) = sec) xs of None \<Rightarrow> NULL | Some a \<Rightarrow> a)"
  using assms
proof (induction xs arbitrary: us)
  case Nil
  then show ?case by (simp add: open_loop.simps list_end_def)
next
  case (Cons a xs)
  have "list_next a (links s) = Some (hd (xs @ [tail (open_inodes s)]))"
    using dl_list_next [of "links s" "head (open_inodes s) # us" a "hd (xs @ [tail (open_inodes s)])" "List.tl (xs @ [tail (open_inodes s)])"]
      Cons.prems(1) by (simp add: list_rep_def nodes_def)
  moreover have "a \<noteq> tail (open_inodes s)" using Cons.prems(1) by (auto simp: list_rep_def nodes_def dl_def)
  moreover obtain ino where "inodes s a = Some ino" using Cons.prems(2) by auto
  ultimately show ?case using Cons.IH [of "us @ [a]"] Cons.prems
    by (subst open_loop.simps) (simp add: list_end_def)
qed

lemma open_list_nonnull: "open_list s xs \<Longrightarrow> inodes s a = Some ino \<Longrightarrow> a \<noteq> NULL"
  by (auto simp: open_list_def list_rep_def nodes_def dl_def)

text \<open>The inode of a sector that is open already is shared; otherwise a new one is put in front.\<close>

lemma inode_open_again:
  assumes "open_list s xs" and "inodes s a = Some ino" and "sector ino = sec"
    and "\<forall>b ino'. inodes s b = Some ino' \<and> sector ino' = sec \<longrightarrow> b = a"
  shows "inode_open sec s = Some (a, put_inode a (ino\<lparr>open_cnt := open_cnt ino + 1\<rparr>) s)"
proof -
  have l: "list_rep (links s) (open_inodes s) xs" "\<forall>a \<in> set xs. inodes s a \<noteq> None" using assms(1) by (auto simp: open_list_def)
  have "find (\<lambda>a. sector (the (inodes s a)) = sec) xs = Some a"
  proof (cases "find (\<lambda>a. sector (the (inodes s a)) = sec) xs")
    case None
    then have "sector (the (inodes s a)) \<noteq> sec"
      using assms(1,2) unfolding find_None_iff open_list_def by (metis domI)
    with assms show ?thesis by simp
  next
    case (Some b)
    then have "b \<in> set xs" "sector (the (inodes s b)) = sec" by (auto simp: find_Some_iff)
    with l(2) assms(4) have "b = a" by (metis option.exhaust_sel)
    with Some show ?thesis by simp
  qed
  with open_loop_eq [of s "[]" xs sec] l list_begin_rep [OF l(1)]
  have "open_loop sec s (list_begin (open_inodes s) (links s)) = Some a" by simp
  then show ?thesis using open_list_nonnull [OF assms(1,2)] assms(2) by (simp add: inode_open_def inode_reopen_def)
qed

lemma inode_open_new:
  assumes "open_list s xs" and "\<forall>b ino'. inodes s b = Some ino' \<longrightarrow> sector ino' \<noteq> sec"
    and "linkable (open_inodes s) xs (allocs s 0)" and "sec < b_size (fs_device s)"
  shows "\<exists>s'. inode_open sec s = Some (allocs s 0, s') \<and> open_list s' (allocs s 0 # xs)
    \<and> inodes s' = (inodes s)(allocs s 0 \<mapsto> \<lparr>sector = sec, open_cnt = 1, removed = False, deny_write_cnt = 0,
        data = inode_disk_of (b_data (fs_device s) sec)\<rparr>)
    \<and> (\<exists>r h. s' = s\<lparr>fs_device := (fs_device s)\<lparr>read_cnt := r\<rparr>, links := h, inodes := inodes s', allocs := shift 1 (allocs s)\<rparr>)"
proof -
  have l: "list_rep (links s) (open_inodes s) xs" "\<forall>a \<in> set xs. inodes s a \<noteq> None" using assms(1) by (auto simp: open_list_def)
  have "find (\<lambda>a. sector (the (inodes s a)) = sec) xs = None"
    using l(2) assms(2) by (force simp: find_None_iff)
  with open_loop_eq [of s "[]" xs sec] l list_begin_rep [OF l(1)]
  have ol: "open_loop sec s (list_begin (open_inodes s) (links s)) = Some NULL" by simp
  obtain h where h: "list_push_front (open_inodes s) (allocs s 0) (links s) = Some h" "list_rep h (open_inodes s) (allocs s 0 # xs)"
    using list_push_front_rep [OF l(1)] assms(3) by (auto simp: linkable_def)
  have nn: "allocs s 0 \<noteq> NULL" using assms(3) by (simp add: linkable_def)
  let ?s1 = "s\<lparr>allocs := shift 1 (allocs s), links := h\<rparr>"
  have "dev_read sec ?s1 = Some (b_data (fs_device s) sec, ?s1\<lparr>fs_device := (fs_device s)\<lparr>read_cnt := read_cnt (fs_device s) + 1\<rparr>\<rparr>)"
    using assms(4) by (simp add: dev_read_def block_read_def check_sector_def)
  then have "inode_open sec s = Some (allocs s 0, put_inode (allocs s 0) \<lparr>sector = sec, open_cnt = 1, removed = False, deny_write_cnt = 0,
        data = inode_disk_of (b_data (fs_device s) sec)\<rparr> (?s1\<lparr>fs_device := (fs_device s)\<lparr>read_cnt := read_cnt (fs_device s) + 1\<rparr>\<rparr>))"
    using ol h(1) nn by (simp add: inode_open_def malloc_def)
  then show ?thesis using h(2) assms(1)
    by (simp add: put_inode_def open_list_def)
      (intro exI [of _ "Suc (read_cnt (fs_device s))"] exI [of _ h], simp)
qed

lemma inode_close_shared:
  "a \<noteq> NULL \<Longrightarrow> inodes s a = Some ino \<Longrightarrow> open_cnt ino \<noteq> 1 \<Longrightarrow>
   inode_close a s = Some (put_inode a (ino\<lparr>open_cnt := open_cnt ino - 1\<rparr>) s)"
  by (simp add: inode_close_def)

lemma open_list_split:
  assumes "open_list s xs" and "inodes s a = Some ino"
  obtains us vs where "xs = us @ a # vs"
  using assms by (metis domI open_list_def split_list)

text \<open>The last close takes the inode out of the list.\<close>

lemma inode_close_unlink:
  assumes "open_list s (us @ a # vs)" and "inodes s a = Some ino" and "open_cnt ino = 1"
  shows "\<exists>h. list_rep h (open_inodes s) (us @ vs) \<and> dom ((inodes s)(a := None)) = set (us @ vs)
    \<and> inode_close a s = (if removed ino then do {
        s' \<leftarrow> free_map_release (sector ino) 1 ((put_inode a (ino\<lparr>open_cnt := 0\<rparr>) s)\<lparr>links := h\<rparr>);
        s' \<leftarrow> free_map_release (di_start (data ino)) (bytes_to_sectors (di_length (data ino))) s';
        Some (s'\<lparr>inodes := (inodes s')(a := None)\<rparr>) }
      else Some (s\<lparr>links := h, inodes := (inodes s)(a := None)\<rparr>))"
proof -
  have l: "list_rep (links s) (open_inodes s) (us @ a # vs)" using assms(1) by (simp add: open_list_def)
  obtain h where h: "list_remove a (links s) = Some (hd (vs @ [tail (open_inodes s)]), h)" "list_rep h (open_inodes s) (us @ vs)"
    using list_remove_rep [OF l] by blast
  have "a \<notin> set (us @ vs)" using l by (auto simp: list_rep_def nodes_def dl_def)
  then have "dom ((inodes s)(a := None)) = set (us @ vs)" using assms(1) by (auto simp: open_list_def)
  moreover have "inode_close a s = (if removed ino then do {
        s' \<leftarrow> free_map_release (sector ino) 1 ((put_inode a (ino\<lparr>open_cnt := 0\<rparr>) s)\<lparr>links := h\<rparr>);
        s' \<leftarrow> free_map_release (di_start (data ino)) (bytes_to_sectors (di_length (data ino))) s';
        Some (s'\<lparr>inodes := (inodes s')(a := None)\<rparr>) }
      else Some (s\<lparr>links := h, inodes := (inodes s)(a := None)\<rparr>))"
    using open_list_nonnull [OF assms(1,2)] assms(2,3) h(1) by (simp add: inode_close_def put_inode_def)
  ultimately show ?thesis using h(2) by blast
qed

lemma inode_close_last:
  assumes "open_list s xs" and "inodes s a = Some ino" and "open_cnt ino = 1" and "\<not> removed ino"
  shows "\<exists>h. inode_close a s = Some (s\<lparr>links := h, inodes := (inodes s)(a := None)\<rparr>)
    \<and> open_list (s\<lparr>links := h, inodes := (inodes s)(a := None)\<rparr>) (remove1 a xs)"
proof -
  obtain us vs where xs: "xs = us @ a # vs" using open_list_split [OF assms(1,2)] .
  have "a \<notin> set us" using assms(1) xs by (auto simp: open_list_def list_rep_def nodes_def dl_def)
  then have "remove1 a xs = us @ vs" by (simp add: xs remove1_append)
  with inode_close_unlink [OF assms(1) [unfolded xs] assms(2,3)] assms(4) show ?thesis by (auto simp: open_list_def)
qed

section \<open>Directories\<close>

text \<open>All allocations succeed.\<close>

definition mem_ok :: "fs \<Rightarrow> bool" where
  "mem_ok s \<longleftrightarrow> (\<forall>n. allocs s n \<noteq> NULL)"

lemma mem_ok_avail: "mem_ok s \<Longrightarrow> avail s"
  by (simp add: mem_ok_def avail_def)

lemma mem_ok_quiet: "mem_ok s \<Longrightarrow> quiet s s' \<Longrightarrow> mem_ok s'"
  by (auto simp: mem_ok_def quiet_def shift_def)

lemma mem_ok_writes: "mem_ok s \<Longrightarrow> writes K s s' \<Longrightarrow> mem_ok s'"
  by (auto simp: mem_ok_def writes_def shift_def)

text \<open>The entries of a directory, and the first one in use with a name.\<close>

function ents :: "bytes \<Rightarrow> dir_entry list" where
  "ents C = (if length C < 20 then [] else dir_entry_of (take 20 C) # ents (drop 20 C))"
  by pat_completeness auto
termination by (relation "measure length") auto

declare ents.simps [simp del]

fun find_ent :: "string \<Rightarrow> int \<Rightarrow> dir_entry list \<Rightarrow> (dir_entry \<times> int) option" where
  "find_ent nm ofs [] = None"
| "find_ent nm ofs (e # es) = (if e_in_use e \<and> nm = entry_name e then Some (e, ofs) else find_ent nm (ofs + 20) es)"

lemma read_entry:
  assumes "wf_dev s" and "wf_disk s (data ino)" and "0 \<le> ofs" and "avail s"
  shows "\<exists>s'. inode_read_at ino 20 ofs s = Some (take 20 (drop (nat ofs) (contents s (data ino))), s') \<and> quiet s s'"
  using inode_read_at_contents [OF assms(1-3), of 20] assms(4) by auto

lemma lookup_loop_eq:
  assumes "wf_dev s" and "wf_disk s (data ino)" and "0 \<le> ofs" and "mem_ok s"
  shows "\<exists>s'. lookup_loop ino nm ofs s = Some (find_ent nm ofs (ents (drop (nat ofs) (contents s (data ino)))), s') \<and> quiet s s'"
  using assms
proof (induction "length (drop (nat ofs) (contents s (data ino)))" arbitrary: ofs s rule: less_induct)
  case less
  let ?C = "contents s (data ino)"
  let ?R = "drop (nat ofs) ?C"
  obtain s1 where s1: "inode_read_at ino 20 ofs s = Some (take 20 ?R, s1)" "quiet s s1"
    using read_entry [OF less.prems(1-3) mem_ok_avail [OF less.prems(4)]] by blast
  show ?case
  proof (cases "length ?R < 20")
    case True
    then have "lookup_loop ino nm ofs s = Some (None, s1)" using s1(1)
      by (subst lookup_loop.simps) (simp add: sizeof_dir_entry_def)
    then show ?thesis using s1(2) True by (simp add: ents.simps)
  next
    case False
    let ?e = "dir_entry_of (take 20 ?R)"
    have es: "ents ?R = ?e # ents (drop 20 ?R)" using False by (subst ents.simps) simp
    have rs: "drop 20 ?R = drop (nat (ofs + 20)) ?C" using less.prems(3) by (simp add: nat_add_distrib add.commute)
    show ?thesis
    proof (cases "e_in_use ?e \<and> nm = entry_name ?e")
      case True
      then have "lookup_loop ino nm ofs s = Some (Some (?e, ofs), s1)"
        using s1(1) False by (subst lookup_loop.simps) (simp add: sizeof_dir_entry_def Let_def)
      then show ?thesis using s1(2) es True by simp
    next
      case no: False
      have eq: "lookup_loop ino nm ofs s = lookup_loop ino nm (ofs + 20) s1"
        using s1(1) False no by (subst lookup_loop.simps) (auto simp: sizeof_dir_entry_def Let_def)
      have "length (drop (nat (ofs + 20)) (contents s1 (data ino))) < length ?R"
        using False quiet_contents(4) [OF s1(2)] rs by (metis length_drop diff_less_mono2 less_le_trans not_le zero_less_numeral zero_less_diff diff_less)
      then obtain s' where "lookup_loop ino nm (ofs + 20) s1 = Some (find_ent nm (ofs + 20) (ents (drop (nat (ofs + 20)) ?C)), s')" "quiet s1 s'"
        using less.hyps [of "ofs + 20" s1] less.prems quiet_contents [OF s1(2)] mem_ok_quiet [OF less.prems(4) s1(2)] by auto
      then show ?thesis using eq es rs no quiet_trans [OF s1(2)] by auto
    qed
  qed
qed

lemma length_ents: "length (ents C) = length C div 20"
proof (induction C rule: ents.induct)
  case (1 C)
  show ?case
  proof (cases "length C < 20")
    case False
    then have "length (ents C) = Suc ((length C - 20) div 20)" using 1 by (subst ents.simps) simp
    then show ?thesis using False by (simp add: le_div_geq)
  qed (simp add: ents.simps)
qed

lemma ents_nth: "k < length (ents C) \<Longrightarrow> ents C ! k = dir_entry_of (take 20 (drop (20 * k) C))"
proof (induction C arbitrary: k rule: ents.induct)
  case (1 C)
  show ?case
  proof (cases "length C < 20")
    case False
    then have e: "ents C = dir_entry_of (take 20 C) # ents (drop 20 C)" by (subst ents.simps) simp
    show ?thesis
    proof (cases k)
      case (Suc j)
      then show ?thesis using 1 False e by (simp add: add.commute)
    qed (simp add: e)
  qed (use 1 in \<open>simp add: ents.simps\<close>)
qed

lemma entry_bound: "k < length (ents C) \<Longrightarrow> 20 * k + 20 \<le> length C"
  using length_ents [of C] by (metis Suc_leI add.commute div_times_less_eq_dividend dual_order.trans mult.commute mult_Suc_right mult_le_mono2)

text \<open>Overwriting one entry changes that entry, and overwriting behind the last one changes none.\<close>

lemma ents_overwrite:
  assumes "length bs = 20" and "k < length (ents C)"
  shows "ents (overwrite (20 * k) bs C) = (ents C)[k := dir_entry_of bs]"
proof (rule nth_equalityI)
  have b: "20 * k + 20 \<le> length C" using entry_bound [OF assms(2)] .
  have l: "length (overwrite (20 * k) bs C) = length C" using b assms(1) by simp
  show "length (ents (overwrite (20 * k) bs C)) = length ((ents C)[k := dir_entry_of bs])" using l by (simp add: length_ents)
  fix j assume "j < length (ents (overwrite (20 * k) bs C))"
  then have j: "j < length (ents C)" using l by (simp add: length_ents)
  have bj: "20 * j + 20 \<le> length C" using entry_bound [OF j] .
  have "take 20 (drop (20 * j) (overwrite (20 * k) bs C)) = (if j = k then bs else take 20 (drop (20 * j) C))"
    using b bj assms(1) l by (intro nth_equalityI) (auto simp: overwrite_nth)
  then show "ents (overwrite (20 * k) bs C) ! j = (ents C)[k := dir_entry_of bs] ! j"
    using j l by (simp add: ents_nth length_ents nth_list_update)
qed

lemma ents_overwrite_tail:
  assumes "20 * length (ents C) \<le> k" and "k + length bs \<le> length C"
  shows "ents (overwrite k bs C) = ents C"
proof (rule nth_equalityI)
  have l: "length (overwrite k bs C) = length C" using assms(2) by simp
  then show "length (ents (overwrite k bs C)) = length (ents C)" by (simp add: length_ents)
  fix j assume "j < length (ents (overwrite k bs C))"
  then have j: "j < length (ents C)" using l by (simp add: length_ents)
  then have "20 * j + 20 \<le> k" using assms(1) by linarith
  then have "take 20 (drop (20 * j) (overwrite k bs C)) = take 20 (drop (20 * j) C)"
    using assms(2) l by (intro nth_equalityI) (auto simp: overwrite_nth)
  then show "ents (overwrite k bs C) ! j = ents C ! j" using j l by (simp add: ents_nth length_ents)
qed

lemma slot_loop_eq:
  assumes "wf_dev s" and "wf_disk s (data ino)" and "0 \<le> ofs" and "mem_ok s" and "length g = 20"
  shows "\<exists>e s'. slot_loop ino g ofs s
      = Some (ofs + 20 * int (length (takeWhile e_in_use (ents (drop (nat ofs) (contents s (data ino)))))), e, s')
    \<and> quiet s s' \<and> length e = 20"
  using assms
proof (induction "length (drop (nat ofs) (contents s (data ino)))" arbitrary: ofs s g rule: less_induct)
  case less
  let ?C = "contents s (data ino)"
  let ?R = "drop (nat ofs) ?C"
  obtain s1 where s1: "inode_read_at ino 20 ofs s = Some (take 20 ?R, s1)" "quiet s s1"
    using read_entry [OF less.prems(1-3) mem_ok_avail [OF less.prems(4)]] by blast
  let ?g = "take 20 ?R @ drop (length (take 20 ?R)) g"
  have lg: "length ?g = 20" using less.prems(5) by simp
  show ?case
  proof (cases "length ?R < 20")
    case True
    then have "slot_loop ino g ofs s = Some (ofs, ?g, s1)" using s1(1)
      by (subst slot_loop.simps) (simp add: sizeof_dir_entry_def Let_def)
    then show ?thesis using s1(2) True lg by (simp add: ents.simps)
  next
    case False
    let ?e = "dir_entry_of (take 20 ?R)"
    have es: "ents ?R = ?e # ents (drop 20 ?R)" using False by (subst ents.simps) simp
    have rs: "drop 20 ?R = drop (nat (ofs + 20)) ?C" using less.prems(3) by (simp add: nat_add_distrib add.commute)
    have gg: "?g = take 20 ?R" using False less.prems(5) by simp
    show ?thesis
    proof (cases "e_in_use ?e")
      case no: False
      then have "slot_loop ino g ofs s = Some (ofs, ?g, s1)"
        using s1(1) False gg by (subst slot_loop.simps) (simp add: sizeof_dir_entry_def Let_def)
      then show ?thesis using s1(2) es no lg by simp
    next
      case True
      have eq: "slot_loop ino g ofs s = slot_loop ino ?g (ofs + 20) s1"
        using s1(1) False True gg by (subst slot_loop.simps) (simp add: sizeof_dir_entry_def Let_def)
      have "length (drop (nat (ofs + 20)) (contents s1 (data ino))) < length ?R"
        using False quiet_contents(4) [OF s1(2)] rs by (metis length_drop diff_less_mono2 less_le_trans not_le zero_less_numeral zero_less_diff diff_less)
      then obtain e s' where "slot_loop ino ?g (ofs + 20) s1
          = Some (ofs + 20 + 20 * int (length (takeWhile e_in_use (ents (drop (nat (ofs + 20)) ?C)))), e, s')" "quiet s1 s'" "length e = 20"
        using less.hyps [of "ofs + 20" s1 ?g] less.prems quiet_contents [OF s1(2)] mem_ok_quiet [OF less.prems(4) s1(2)] lg by auto
      then show ?thesis using eq es rs True quiet_trans [OF s1(2)] by auto
    qed
  qed
qed

lemma length_dir_entry_bytes: "length (e_name e) = 15 \<Longrightarrow> length (dir_entry_bytes e) = 20"
  by (simp add: dir_entry_bytes_def)

lemma dir_entry_roundtrip:
  assumes "length (e_name e) = 15" and "e_sector e < 2 ^ 32"
  shows "dir_entry_of (dir_entry_bytes e) = e"
proof -
  have "(enc32 w @ e_name e @ [c]) ! 19 = c" for w c using assms(1) by (simp add: nth_append)
  moreover have "take 15 (drop 4 (enc32 w @ e_name e @ [c])) = e_name e" for w c using assms(1) by simp
  ultimately show ?thesis using assms(2)
    by (simp add: dir_entry_of_def dir_entry_bytes_def unsigned_of_nat take_bit_nat_eq_self)
qed

text \<open>Putting an entry into a free slot.\<close>

lemma find_ent_slot:
  assumes "k < length es" and "\<not> e_in_use (es ! k)" and "e_in_use e"
  shows "find_ent nm ofs es = None \<Longrightarrow> entry_name e = nm \<Longrightarrow> find_ent nm ofs (es[k := e]) = Some (e, ofs + 20 * int k)"
    and "entry_name e \<noteq> nm \<Longrightarrow> find_ent nm ofs (es[k := e]) = find_ent nm ofs es"
  using assms
proof (induction es arbitrary: k ofs)
  case (Cons x es)
  { case 1 then show ?case by (cases k) (auto simp: Cons.IH split: if_splits) }
  { case 2 then show ?case by (cases k) (auto simp: Cons.IH) }
qed auto

lemma first_free:
  assumes "\<exists>e \<in> set es. \<not> e_in_use e"
  shows "length (takeWhile e_in_use es) < length es" "\<not> e_in_use (es ! length (takeWhile e_in_use es))"
proof -
  have "takeWhile e_in_use es \<noteq> es" using assms by (metis set_takeWhileD)
  then show "length (takeWhile e_in_use es) < length es" by (metis length_takeWhile_le le_neq_implies_less takeWhile_eq_take take_all_iff order_refl)
  then show "\<not> e_in_use (es ! length (takeWhile e_in_use es))" by (rule nth_length_takeWhile)
qed

text \<open>The write of \<^verbatim>\<open>dir_add\<close>: a full entry in the first free slot, or what fits behind the last one.\<close>

lemma dir_add_write:
  assumes dir: "d \<noteq> NULL" "dirs s d = Some dd" "inodes s (d_inode dd) = Some ino"
    and wf: "wf_dev s" "wf_disk s (data ino)" and dw: "deny_write_cnt ino = 0" and mem: "mem_ok s" and g: "length g = 20"
    and nm: "nm \<noteq> []" "length nm \<le> NAME_MAX" "NUL \<notin> set nm"
  defines "es \<equiv> ents (contents s (data ino))"
  assumes None: "find_ent nm 0 es = None"
  shows "\<exists>e n s'. dir_add g d nm sec s = Some (int n = 20, s') \<and> writes (secs (data ino)) s s' \<and> wf_dev s'
    \<and> length (e_name e) = 15 \<and> e_in_use e \<and> entry_name e = nm \<and> e_sector e = sec
    \<and> contents s' (data ino) = overwrite (20 * length (takeWhile e_in_use es)) (take n (dir_entry_bytes e)) (contents s (data ino))
    \<and> n = min 20 (nat (di_length (data ino) - 20 * int (length (takeWhile e_in_use es))))"
proof -
  let ?C = "contents s (data ino)"
  obtain s1 where s1: "lookup d nm s = Some (find_ent nm 0 es, s1)" "quiet s s1"
    using lookup_loop_eq [OF wf order_refl mem, of nm] dir unfolding es_def by (auto simp: lookup_def)
  have q1: "wf_dev s1" "wf_disk s1 (data ino)" "mem_ok s1" "contents s1 (data ino) = ?C" "dirs s1 = dirs s" "inodes s1 = inodes s"
    using quiet_contents [OF s1(2)] quiet_same [OF s1(2)] wf mem_ok_quiet [OF mem s1(2)] by simp_all
  let ?k = "length (takeWhile e_in_use es)"
  obtain eb s2 where s2: "slot_loop ino g 0 s1 = Some (20 * int ?k, eb, s2)" "quiet s1 s2" "length eb = 20"
    using slot_loop_eq [OF q1(1,2) order_refl q1(3) g] q1(4) by (auto simp: es_def)
  define e where "e = (dir_entry_of eb)\<lparr>e_in_use := True, e_name := strcpy_to (e_name (dir_entry_of eb)) nm, e_sector := sec\<rparr>"
  have e: "length (e_name e) = 15" "e_in_use e" "entry_name e = nm" "e_sector e = sec"
    using s2(3) nm by (simp_all add: e_def entry_name_def dir_entry_of_def NAME_MAX_def)
  have q2: "wf_dev s2" "wf_disk s2 (data ino)" "avail s2" "contents s2 (data ino) = ?C"
    using quiet_contents [OF s2(2)] q1 mem_ok_avail [OF mem_ok_quiet [OF q1(3) s2(2)]] by simp_all
  obtain n s3 where s3: "inode_write_at ino (dir_entry_bytes e) 20 (20 * int ?k) s2 = Some (int n, s3)" "writes (secs (data ino)) s2 s3" "wf_dev s3"
    "contents s3 (data ino) = overwrite (20 * ?k) (take n (dir_entry_bytes e)) ?C"
    "n = min 20 (nat (di_length (data ino) - 20 * int ?k))"
    using inode_write_at_contents [OF q2(1,2) _ _ dw, of "20 * int ?k" 20 "dir_entry_bytes e"] length_dir_entry_bytes [OF e(1)] q2(3,4)
    by (auto simp: nat_mult_distrib)
  have "dir_add g d nm sec s = Some (int n = 20, s3)"
    using s1(1) None dir nm s2(1) s3(1) q1(5,6) by (simp add: dir_add_def sizeof_dir_entry_def e_def)
  moreover have "writes (secs (data ino)) s s3"
    using writes_trans [OF quiet_writes [OF quiet_trans [OF s1(2) s2(2)]] s3(2)] .
  ultimately show ?thesis using s3 e by blast
qed

lemma dir_add_ok:
  assumes dir: "d \<noteq> NULL" "dirs s d = Some dd" "inodes s (d_inode dd) = Some ino"
    and wf: "wf_dev s" "wf_disk s (data ino)" and dw: "deny_write_cnt ino = 0" and mem: "mem_ok s" and g: "length g = 20"
    and nm: "nm \<noteq> []" "length nm \<le> NAME_MAX" "NUL \<notin> set nm" and sec: "sec < 2 ^ 32"
  defines "es \<equiv> ents (contents s (data ino))"
  shows "\<exists>okay s'. dir_add g d nm sec s = Some (okay, s') \<and> writes (secs (data ino)) s s' \<and> wf_dev s'
    \<and> (okay \<longleftrightarrow> find_ent nm 0 es = None \<and> (\<exists>e \<in> set es. \<not> e_in_use e))
    \<and> (if okay then (\<exists>e k. ents (contents s' (data ino)) = es[k := e] \<and> k < length es \<and> \<not> e_in_use (es ! k)
          \<and> e_in_use e \<and> entry_name e = nm \<and> e_sector e = sec)
       else ents (contents s' (data ino)) = es)"
proof (cases "find_ent nm 0 es = None")
  case False
  obtain s1 where s1: "lookup d nm s = Some (find_ent nm 0 es, s1)" "quiet s s1"
    using lookup_loop_eq [OF wf order_refl mem, of nm] dir unfolding es_def by (auto simp: lookup_def)
  then have "dir_add g d nm sec s = Some (False, s1)" using False dir(1) nm by (simp add: dir_add_def)
  then show ?thesis using False quiet_writes [OF s1(2)] quiet_contents [OF s1(2)] wf(1) by (auto simp: es_def)
next
  case None: True
  let ?C = "contents s (data ino)" and ?k = "length (takeWhile e_in_use es)"
  obtain e n s3 where da: "dir_add g d nm sec s = Some (int n = 20, s3)" "writes (secs (data ino)) s s3" "wf_dev s3"
    and e: "length (e_name e) = 15" "e_in_use e" "entry_name e = nm" "e_sector e = sec"
    and c: "contents s3 (data ino) = overwrite (20 * ?k) (take n (dir_entry_bytes e)) ?C"
    and n: "n = min 20 (nat (di_length (data ino) - 20 * int ?k))"
    using dir_add_write [OF dir wf dw mem g nm, folded es_def, OF None, of sec] by blast
  have lC: "length ?C = nat (di_length (data ino))" using length_contents(1) [OF wf] .
  note le = length_dir_entry_bytes [OF e(1)]
  show ?thesis
  proof (cases "\<exists>e \<in> set es. \<not> e_in_use e")
    case True
    note ff = first_free [OF True]
    have "20 * ?k + 20 \<le> length ?C" using entry_bound [of ?k ?C] ff(1) by (simp add: es_def)
    then have "n = 20" using n lC by linarith
    then have "ents (contents s3 (data ino)) = es[?k := e]"
      using c ents_overwrite [OF le] ff(1) dir_entry_roundtrip [OF e(1)] e(4) sec le by (simp add: es_def)
    then show ?thesis using da None True \<open>n = 20\<close> ff e by auto
  next
    case False
    then have "takeWhile e_in_use es = es" by (simp add: takeWhile_eq_all_conv)
    then have k: "?k = length es" by (simp only:)
    have dv: "length es = length ?C div 20" by (simp add: es_def length_ents)
    then have "length ?C < 20 * length es + 20" "20 * length es \<le> length ?C" by simp_all
    then have "n < 20" "20 * ?k + n \<le> length ?C" using n lC k by linarith+
    then have "ents (contents s3 (data ino)) = es"
      using c ents_overwrite_tail [of ?C "20 * ?k" "take n (dir_entry_bytes e)"] k by (simp add: es_def)
    then show ?thesis using da None False \<open>n < 20\<close> by auto
  qed
qed

text \<open>Without memory for the bounce buffer the read of an entry is short although the file goes on.\<close>

lemma read_no_memory:
  assumes "0 \<le> off" and "off < di_length (data ino)" and "0 < sz" and "sz < 512" and "allocs s 0 = NULL"
  shows "inode_read_at ino sz off s = Some ([], s\<lparr>allocs := shift 1 (allocs s)\<rparr>)"
proof -
  have "0 < chunk_size ino sz off" "chunk_size ino sz off \<noteq> 512" using chunk_size_props [OF assms(1-3)] assms(4) by simp_all
  then show ?thesis using assms(3,5) unfolding inode_read_at_def by (subst read_loop.simps) (simp add: Let_def malloc_def)
qed

section \<open>A small file system\<close>

text \<open>Eight sectors: the inodes of the free map and of the root directory, one sector of data each.\<close>

definition demo_fm :: inode where
  "demo_fm = \<lparr>sector = 0, open_cnt = 1, removed = False, deny_write_cnt = 0, data = \<lparr>di_start = 2, di_length = 4, di_magic = INODE_MAGIC\<rparr>\<rparr>"

definition demo_root :: inode where
  "demo_root = \<lparr>sector = 1, open_cnt = 1, removed = False, deny_write_cnt = 0, data = \<lparr>di_start = 3, di_length = 320, di_magic = INODE_MAGIC\<rparr>\<rparr>"

definition demo_fs :: fs where
  "demo_fs = \<lparr>fs_device = \<lparr>b_name = ''hda2'', b_type = BLOCK_FILESYS, b_size = 8,
       b_data = (\<lambda>_. replicate 512 NUL)(0 := inode_disk_bytes (data demo_fm), 1 := inode_disk_bytes (data demo_root)),
       read_cnt = 0, write_cnt = 0\<rparr>,
     links = \<lparr>prev = (\<lambda>_. NULL)(10 := 1, 11 := 10, 2 := 11), next = (\<lambda>_. NULL)(1 := 10, 10 := 11, 11 := 2)\<rparr>,
     open_inodes = \<lparr>head = 1, tail = 2\<rparr>, inodes = [10 \<mapsto> demo_fm, 11 \<mapsto> demo_root],
     files = [20 \<mapsto> \<lparr>f_inode = 10, f_pos = 0, f_deny_write = False\<rparr>], dirs = [30 \<mapsto> \<lparr>d_inode = 11, d_pos = 0\<rparr>],
     free_map = \<lparr>bit_cnt = 8, bits = [15]\<rparr>, free_map_file = 20, allocs = (\<lambda>n. 100 + n)\<rparr>"

lemma demo_sectors: "bytes_to_sectors 4 = 1" "bytes_to_sectors 320 = 1"
  by (simp_all add: bytes_to_sectors_eq)

lemma demo_wf:
  "wf_dev demo_fs" "wf_disk demo_fs (data demo_fm)" "wf_disk demo_fs (data demo_root)" "mem_ok demo_fs"
  "map_file demo_fs demo_fm" "wf_bitmap (free_map demo_fs)" "open_list demo_fs [10, 11]"
  by (auto simp: demo_fs_def wf_dev_def wf_disk_def demo_sectors demo_fm_def demo_root_def mem_ok_def NULL_def map_file_def
    wf_bitmap_def elem_cnt_def DIV_ROUND_UP_def ELEM_BITS_def open_list_def list_rep_def nodes_def dl_def)

lemma demo_contents: "contents demo_fs (data demo_root) = replicate 320 NUL"
  by (simp add: contents_def file_sectors_def demo_sectors demo_root_def demo_fs_def)

lemma ents_zero: "\<forall>e \<in> set (ents (replicate n NUL)). \<not> e_in_use e"
proof
  fix e assume "e \<in> set (ents (replicate n NUL))"
  then obtain k where k: "k < length (ents (replicate n NUL))" "e = ents (replicate n NUL) ! k" by (metis in_set_conv_nth)
  then have "20 * k + 20 \<le> n" using entry_bound [OF k(1)] by simp
  then have "take 20 (drop (20 * k) (replicate n NUL)) = replicate 20 NUL" by (simp add: min_def)
  then show "\<not> e_in_use e" using k ents_nth [OF k(1)] by (simp add: dir_entry_of_def)
qed

lemma find_ent_unused: "\<forall>e \<in> set es. \<not> e_in_use e \<Longrightarrow> find_ent nm ofs es = None"
  by (induction es arbitrary: ofs) auto

section \<open>Properties of the file system\<close>

text \<open>
  C13. What \<^verbatim>\<open>inode_write_at\<close> writes, \<^verbatim>\<open>inode_read_at\<close> reads back, at any offset and across
  any number of sectors: it writes as many bytes as the file has room for, the bytes around them
  keep their values, and the contents of every inode with other sectors stay the same.
\<close>

theorem inode_write_then_read:
  assumes "wf_dev s" and "wf_disk s (data ino)" and "0 \<le> off" and "nat sz \<le> length buf" and "deny_write_cnt ino = 0"
    and "mem_ok s" and "secs d \<inter> secs (data ino) = {}"
  shows "\<exists>n s' s''. inode_write_at ino buf sz off s = Some (int n, s') \<and> n = min (nat sz) (nat (di_length (data ino) - off))
    \<and> contents s' (data ino) = overwrite (nat off) (take n buf) (contents s (data ino)) \<and> contents s' d = contents s d
    \<and> inode_read_at ino (int n) off s' = Some (take n buf, s'')"
proof -
  obtain n s' where w: "inode_write_at ino buf sz off s = Some (int n, s')" "writes (secs (data ino)) s s'" "wf_dev s'"
    "contents s' (data ino) = overwrite (nat off) (take n buf) (contents s (data ino))" "n \<le> nat sz"
    "int n \<le> max 0 (di_length (data ino) - off)" "n = min (nat sz) (nat (di_length (data ino) - off))"
    using inode_write_at_contents [OF assms(1-5)] mem_ok_avail [OF assms(6)] by blast
  have wf': "wf_disk s' (data ino)" using writes_same(12) [OF w(2)] assms(2) by simp
  obtain s'' where r: "inode_read_at ino (int n) off s' = Some (take n (drop (nat off) (contents s' (data ino))), s'')"
    using inode_read_at_contents [OF w(3) wf' assms(3), of "int n"] mem_ok_avail [OF mem_ok_writes [OF assms(6) w(2)]] by auto
  have l: "length (take n buf) = n" using w(5) assms(4) by simp
  have "n = 0 \<or> nat off + n \<le> length (contents s (data ino))"
    using w(6) length_contents(1) [OF assms(1,2)] assms(3) by linarith
  then have "take n (drop (nat off) (contents s' (data ino))) = take n buf"
    using overwrite_read [of "nat off" "take n buf" "contents s (data ino)"] w(4) l by auto
  moreover have "contents s' d = contents s d" using writes_contents [OF w(2)] assms(7) by blast
  ultimately show ?thesis using w(1,4,7) r by auto
qed

theorem inode_write_then_read_witness:
  "\<exists>n s' s''. inode_write_at demo_root ''hello'' 5 318 demo_fs = Some (int n, s') \<and> n = 2
    \<and> contents s' (data demo_fm) = contents demo_fs (data demo_fm) \<and> inode_read_at demo_root (int n) 318 s' = Some (''he'', s'')"
proof -
  have "secs (data demo_fm) \<inter> secs (data demo_root) = {}" by (simp add: secs_def demo_fm_def demo_root_def demo_sectors)
  moreover have "min (nat 5) (nat (di_length (data demo_root) - 318)) = 2" "deny_write_cnt demo_root = 0" by (simp_all add: demo_root_def)
  ultimately show ?thesis
    using inode_write_then_read [OF demo_wf(1,3), of 318 5 "''hello''" "data demo_fm"] demo_wf(4) by auto
qed

text \<open>
  C15. \<^verbatim>\<open>free_map_allocate\<close> returns the first of consecutive sectors that were all free and marks
  exactly these as used; when it fails the map is as before, also if only writing the map to disk
  failed, and with memory and room in the map file it fails only if no free run is long
  enough. \<^verbatim>\<open>free_map_release\<close> gives the sectors back. Nothing but the map file is written.
\<close>

theorem free_map_allocate_release:
  assumes "wf_dev s" and "map_file s ino" and "wf_bitmap (free_map s)"
  shows "\<exists>r s'. free_map_allocate cnt s = Some (r, s') \<and> writes (secs (data ino)) (s\<lparr>free_map := free_map s'\<rparr>) s' \<and>
    (case r of
       None \<Rightarrow> bools (free_map s') = bools (free_map s)
         \<and> (avail s \<and> int (byte_cnt (bit_cnt (free_map s))) \<le> di_length (data ino) \<longrightarrow> (\<forall>k. \<not> free_at (bools (free_map s)) False cnt k))
     | Some sec \<Rightarrow> free_at (bools (free_map s)) False cnt sec \<and> bools (free_map s') = set_range sec cnt True (bools (free_map s))
         \<and> (\<exists>s''. free_map_release sec cnt s' = Some s'' \<and> bools (free_map s'') = bools (free_map s)))"
proof -
  obtain r s' where a: "free_map_allocate cnt s = Some (r, s')" "wf_bitmap (free_map s')" "wf_dev s'" "map_file s' ino"
    "writes (secs (data ino)) (s\<lparr>free_map := free_map s'\<rparr>) s'"
    "case r of None \<Rightarrow> bools (free_map s') = bools (free_map s)
        \<and> (avail s \<and> int (byte_cnt (bit_cnt (free_map s))) \<le> di_length (data ino) \<longrightarrow> (\<forall>k. \<not> free_at (bools (free_map s)) False cnt k))
       | Some sec \<Rightarrow> free_at (bools (free_map s)) False cnt sec
        \<and> bools (free_map s') = set_range sec cnt True (bools (free_map s))"
    using free_map_allocate_ok [OF assms, of cnt] by blast
  show ?thesis
  proof (cases r)
    case None
    with a show ?thesis by auto
  next
    case (Some sec)
    with a(6) have f: "free_at (bools (free_map s)) False cnt sec" "bools (free_map s') = set_range sec cnt True (bools (free_map s))" by auto
    then have "free_at (bools (free_map s')) True cnt sec" by (auto simp: free_at_iff nth_set_range)
    then obtain s'' where "free_map_release sec cnt s' = Some s''" "bools (free_map s'') = set_range sec cnt False (bools (free_map s'))"
      using free_map_release_ok [OF a(3,4,2)] by blast
    with f set_range_undo have "free_map_release sec cnt s' = Some s'' \<and> bools (free_map s'') = bools (free_map s)" by metis
    with a Some f show ?thesis by auto
  qed
qed

theorem free_map_allocate_release_witness:
  "\<exists>r s'. free_map_allocate 2 demo_fs = Some (r, s') \<and> r \<noteq> None"
proof -
  have "free_at (bools (free_map demo_fs)) False 2 4" by (simp add: demo_fs_def) code_simp
  moreover have "int (byte_cnt (bit_cnt (free_map demo_fs))) \<le> di_length (data demo_fm)"
    by (simp add: demo_fs_def demo_fm_def byte_cnt_def elem_cnt_def DIV_ROUND_UP_def ELEM_BITS_def)
  ultimately show ?thesis
    using free_map_allocate_release [OF demo_wf(1,5,6), of 2] mem_ok_avail [OF demo_wf(4)] by (auto split: option.splits)
qed

text \<open>
  How often each sector is open. In a good state every open inode is in the list, has a positive count, and
  no two of them have the same sector.
\<close>

definition refs :: "fs \<Rightarrow> nat \<Rightarrow> int" where
  "refs s sec = (\<Sum>a \<in> dom (inodes s). if sector (the (inodes s a)) = sec then open_cnt (the (inodes s a)) else 0)"

definition shared :: "fs \<Rightarrow> addr list \<Rightarrow> bool" where
  "shared s xs \<longleftrightarrow> open_list s xs \<and> distinct (map (\<lambda>a. sector (the (inodes s a))) xs) \<and> (\<forall>a \<in> set xs. open_cnt (the (inodes s a)) > 0)"

lemma sharedD:
  assumes "shared s xs"
  shows "open_list s xs" "finite (dom (inodes s))" "dom (inodes s) = set xs" "inodes s a = Some ino \<Longrightarrow> open_cnt ino > 0"
    "inodes s a = Some ino \<Longrightarrow> inodes s b = Some jno \<Longrightarrow> sector ino = sector jno \<Longrightarrow> a = b"
proof -
  show l: "open_list s xs" using assms by (simp add: shared_def)
  then show d: "dom (inodes s) = set xs" by (simp add: open_list_def)
  then show "finite (dom (inodes s))" by simp
  show "inodes s a = Some ino \<Longrightarrow> open_cnt ino > 0" using assms d by (force simp: shared_def)
  assume ab: "inodes s a = Some ino" "inodes s b = Some jno" "sector ino = sector jno"
  have "a \<in> set xs" "b \<in> set xs" using ab d by auto
  moreover have "inj_on (\<lambda>a. sector (the (inodes s a))) (set xs)" using assms by (simp add: shared_def distinct_map)
  ultimately show "a = b" using ab by (simp add: inj_on_def)
qed

lemma refs_put:
  assumes "finite (dom (inodes s))" and "inodes s' = (inodes s)(a \<mapsto> ino)"
  shows "refs s' k = refs s k + (if sector ino = k then open_cnt ino else 0)
    - (case inodes s a of None \<Rightarrow> 0 | Some old \<Rightarrow> if sector old = k then open_cnt old else 0)"
proof -
  let ?f = "\<lambda>m b. if sector (the (m b)) = k then open_cnt (the (m b)) else 0"
  have "refs s' k = ?f (inodes s') a + (\<Sum>b \<in> dom (inodes s) - {a}. ?f (inodes s') b)"
    unfolding refs_def using assms by (simp add: sum.insert_remove)
  also have "(\<Sum>b \<in> dom (inodes s) - {a}. ?f (inodes s') b) = (\<Sum>b \<in> dom (inodes s) - {a}. ?f (inodes s) b)"
    by (rule sum.cong) (simp_all add: assms(2))
  also have "\<dots> = refs s k - (case inodes s a of None \<Rightarrow> 0 | Some old \<Rightarrow> if sector old = k then open_cnt old else 0)"
    unfolding refs_def using assms(1) by (cases "inodes s a") (auto simp: sum_diff1 domIff)
  finally show ?thesis using assms(2) by simp
qed

lemma refs_drop:
  assumes "finite (dom (inodes s))" and "inodes s a = Some ino" and "inodes s' = (inodes s)(a := None)"
  shows "refs s' k = refs s k - (if sector ino = k then open_cnt ino else 0)"
proof -
  let ?f = "\<lambda>m b. if sector (the (m b)) = k then open_cnt (the (m b)) else 0"
  have "refs s' k = (\<Sum>b \<in> dom (inodes s) - {a}. ?f (inodes s) b)"
    unfolding refs_def assms(3) by (simp, rule sum.cong) auto
  also have "\<dots> = refs s k - (if sector ino = k then open_cnt ino else 0)"
    unfolding refs_def using assms(1,2) by (auto simp: sum_diff1 domIff)
  finally show ?thesis .
qed

lemma refs_open:
  assumes "shared s xs" and "inodes s a = Some ino"
  shows "refs s (sector ino) = open_cnt ino"
proof -
  have "(if sector (the (inodes s b)) = sector ino then open_cnt (the (inodes s b)) else 0) = (if b = a then open_cnt ino else 0)"
    if b: "b \<in> dom (inodes s)" for b
  proof -
    obtain jno where j: "inodes s b = Some jno" using b by blast
    have "sector jno = sector ino \<longleftrightarrow> b = a" using sharedD(5) [OF assms(1) j assms(2)] j assms(2) by auto
    then show ?thesis using j assms(2) by auto
  qed
  then have "refs s (sector ino) = (\<Sum>b \<in> dom (inodes s). if b = a then open_cnt ino else 0)"
    unfolding refs_def by (rule sum.cong [OF refl])
  then show ?thesis using sharedD(2) [OF assms(1)] assms(2) by (auto simp: domIff)
qed

lemma refs_closed: "\<forall>a ino. inodes s a = Some ino \<longrightarrow> sector ino \<noteq> k \<Longrightarrow> refs s k = 0"
  unfolding refs_def by (intro sum.neutral ballI) (metis domD option.sel)

lemma shared_put:
  assumes "shared s xs" and "inodes s a = Some ino" and "n > 0"
  shows "shared (put_inode a (ino\<lparr>open_cnt := n\<rparr>) s) xs"
proof -
  have d: "dom (inodes s) = set xs" by (rule sharedD(3) [OF assms(1)])
  have a: "a \<in> set xs" using d assms(2) by auto
  let ?s = "put_inode a (ino\<lparr>open_cnt := n\<rparr>) s"
  have m: "map (\<lambda>b. sector (the (inodes ?s b))) xs = map (\<lambda>b. sector (the (inodes s b))) xs"
    using assms(2) by (intro map_cong) (auto simp: put_inode_def)
  have "open_list ?s xs" using assms(1) a by (auto simp: shared_def open_list_def put_inode_def)
  moreover have "\<forall>b \<in> set xs. open_cnt (the (inodes ?s b)) > 0" using assms by (auto simp: shared_def put_inode_def)
  ultimately show ?thesis using assms(1) unfolding shared_def m by blast
qed

lemma shared_new:
  assumes "shared s xs" and "open_list s' (a # xs)" and "inodes s' = (inodes s)(a \<mapsto> ino)" and "a \<notin> set xs"
    and "open_cnt ino > 0" and "\<And>b jno. inodes s b = Some jno \<Longrightarrow> sector jno \<noteq> sector ino"
  shows "shared s' (a # xs)"
proof -
  have m: "map (\<lambda>b. sector (the (inodes s' b))) xs = map (\<lambda>b. sector (the (inodes s b))) xs"
    using assms(3,4) by (intro map_cong) auto
  have "sector ino \<notin> (\<lambda>b. sector (the (inodes s b))) ` set xs"
    using assms(6) sharedD(3) [OF assms(1)] by force
  moreover have "the (inodes s' a) = ino" using assms(3) by simp
  ultimately have "distinct (map (\<lambda>b. sector (the (inodes s' b))) (a # xs))"
    using assms(1) unfolding shared_def list.map(2) m by simp
  moreover have "\<forall>b \<in> set (a # xs). open_cnt (the (inodes s' b)) > 0" using assms(1,3,5) by (auto simp: shared_def)
  ultimately show ?thesis using assms(2) by (simp add: shared_def)
qed

lemma shared_drop:
  assumes "shared s xs" and "open_list s' (remove1 a xs)" and "inodes s' = (inodes s)(a := None)" and "distinct xs"
  shows "shared s' (remove1 a xs)"
proof -
  have sub: "set (remove1 a xs) = set xs - {a}" using assms(4) by simp
  have "map (\<lambda>b. sector (the (inodes s' b))) (remove1 a xs) = map (\<lambda>b. sector (the (inodes s b))) (remove1 a xs)"
    using assms(3) sub by (intro map_cong) auto
  moreover have "distinct (map (\<lambda>b. sector (the (inodes s b))) (remove1 a xs))"
    using assms(1,4) unfolding shared_def distinct_map sub by (auto intro: inj_on_diff)
  moreover have "\<forall>b \<in> set (remove1 a xs). open_cnt (the (inodes s' b)) > 0" using assms(1,3) sub by (auto simp: shared_def)
  ultimately show ?thesis using assms(2) unfolding shared_def by metis
qed

lemma inode_open_fresh:
  assumes "shared s xs" and "sec < b_size (fs_device s)" and "refs s sec = 0" and "linkable (open_inodes s) xs (allocs s 0)"
  shows "\<exists>s' ino. inode_open sec s = Some (allocs s 0, s') \<and> shared s' (allocs s 0 # xs) \<and> inodes s' = (inodes s)(allocs s 0 \<mapsto> ino)
        \<and> sector ino = sec \<and> data ino = inode_disk_of (b_data (fs_device s) sec) \<and> \<not> removed ino \<and> deny_write_cnt ino = 0
        \<and> (\<forall>k. refs s' k = refs s k + of_bool (k = sec))"
proof -
  let ?a = "allocs s 0"
  have no: "sector ino \<noteq> sec" if "inodes s b = Some ino" for b ino
    using refs_open [OF assms(1) that] sharedD(4) [OF assms(1) that] assms(3) by auto
  obtain s' ino where s': "inode_open sec s = Some (?a, s')" "open_list s' (?a # xs)" "inodes s' = (inodes s)(?a \<mapsto> ino)"
    and ino: "ino = \<lparr>sector = sec, open_cnt = 1, removed = False, deny_write_cnt = 0, data = inode_disk_of (b_data (fs_device s) sec)\<rparr>"
    using inode_open_new [OF sharedD(1) [OF assms(1)] _ assms(4,2)] no by blast
  have a: "?a \<notin> set xs" using assms(4) by (simp add: linkable_def nodes_def)
  then have none: "inodes s ?a = None" using sharedD(3) [OF assms(1)] by auto
  have "shared s' (?a # xs)" using shared_new [OF assms(1) s'(2,3) a] no ino by simp
  moreover have "refs s' k = refs s k + of_bool (k = sec)" for k
    using refs_put [OF sharedD(2) [OF assms(1)] s'(3)] none ino by auto
  ultimately show ?thesis using s' ino by auto
qed

lemma inode_open_shared:
  assumes "shared s xs" and "refs s sec \<noteq> 0"
  shows "\<exists>a s' ino. inode_open sec s = Some (a, s') \<and> shared s' xs \<and> inodes s a = Some ino \<and> sector ino = sec
        \<and> s' = put_inode a (ino\<lparr>open_cnt := refs s sec + 1\<rparr>) s \<and> (\<forall>k. refs s' k = refs s k + of_bool (k = sec))"
proof -
  obtain a ino where a: "inodes s a = Some ino" "sector ino = sec" using refs_closed [of s sec] assms(2) by blast
  have n: "refs s sec = open_cnt ino" "open_cnt ino > 0" using refs_open [OF assms(1) a(1)] sharedD(4) [OF assms(1) a(1)] a(2) by simp_all
  let ?s = "put_inode a (ino\<lparr>open_cnt := refs s sec + 1\<rparr>) s"
  have "inode_open sec s = Some (a, ?s)"
    unfolding n(1) by (rule inode_open_again [OF sharedD(1) [OF assms(1)] a]) (use sharedD(5) [OF assms(1)] a in blast)
  moreover have "shared ?s xs" using shared_put [OF assms(1) a(1)] n by simp
  moreover have "refs ?s k = refs s k + of_bool (k = sec)" for k
    using refs_put [OF sharedD(2) [OF assms(1)], of ?s a "ino\<lparr>open_cnt := refs s sec + 1\<rparr>" k] a n by (auto simp: put_inode_def)
  ultimately show ?thesis using a by blast
qed

lemma inode_close_counted:
  assumes "shared s xs" and "inodes s a = Some ino" and "\<not> removed ino"
  shows "\<exists>s'. inode_close a s = Some s' \<and> (\<forall>k. refs s' k = refs s k - of_bool (k = sector ino))
        \<and> (if refs s (sector ino) = 1 then shared s' (remove1 a xs) \<and> inodes s' = (inodes s)(a := None)
           else shared s' xs \<and> s' = put_inode a (ino\<lparr>open_cnt := refs s (sector ino) - 1\<rparr>) s)"
proof -
  have n: "refs s (sector ino) = open_cnt ino" "open_cnt ino > 0" using refs_open [OF assms(1,2)] sharedD(4) [OF assms(1,2)] by simp_all
  show ?thesis
  proof (cases "open_cnt ino = 1")
    case True
    obtain h where c: "inode_close a s = Some (s\<lparr>links := h, inodes := (inodes s)(a := None)\<rparr>)"
      "open_list (s\<lparr>links := h, inodes := (inodes s)(a := None)\<rparr>) (remove1 a xs)"
      using inode_close_last [OF sharedD(1) [OF assms(1)] assms(2) True assms(3)] by blast
    have "distinct xs" using sharedD(1) [OF assms(1)] by (simp add: open_list_def list_rep_def nodes_def dl_def)
    then have "shared (s\<lparr>links := h, inodes := (inodes s)(a := None)\<rparr>) (remove1 a xs)" using shared_drop [OF assms(1) c(2)] by simp
    moreover have "refs (s\<lparr>links := h, inodes := (inodes s)(a := None)\<rparr>) k = refs s k - of_bool (k = sector ino)" for k
      using refs_drop [OF sharedD(2) [OF assms(1)] assms(2)] True by auto
    ultimately show ?thesis using c(1) n True by auto
  next
    case False
    let ?s = "put_inode a (ino\<lparr>open_cnt := refs s (sector ino) - 1\<rparr>) s"
    have "inode_close a s = Some ?s"
      using inode_close_shared [OF open_list_nonnull [OF sharedD(1) [OF assms(1)] assms(2)] assms(2) False] n by simp
    moreover have "shared ?s xs" using shared_put [OF assms(1,2)] n False by simp
    moreover have "refs ?s k = refs s k - of_bool (k = sector ino)" for k
      using refs_put [OF sharedD(2) [OF assms(1)], of ?s a "ino\<lparr>open_cnt := refs s (sector ino) - 1\<rparr>" k] assms(2) n by (auto simp: put_inode_def)
    ultimately show ?thesis using n False by auto
  qed
qed

text \<open>
  C20. Open inodes are shared and counted. Opening a sector that is open, wherever its inode is in the list,
  returns that inode, raises its count and neither allocates nor changes another inode; opening a
  sector that is not open puts a new inode, read from the device, in front of the list. Closing an
  inode that is not to be removed lowers its count, and takes it out of the list exactly if it was open
  once. Each call changes the count of its own sector by one and of no other, and after it each
  open sector still has exactly one inode, with a positive count.
\<close>

theorem inode_open_close_counts:
  assumes "shared s xs"
  shows "(sec < b_size (fs_device s) \<and> refs s sec = 0 \<and> linkable (open_inodes s) xs (allocs s 0) \<longrightarrow>
      (\<exists>s' ino. inode_open sec s = Some (allocs s 0, s') \<and> shared s' (allocs s 0 # xs) \<and> inodes s' = (inodes s)(allocs s 0 \<mapsto> ino)
        \<and> sector ino = sec \<and> data ino = inode_disk_of (b_data (fs_device s) sec) \<and> \<not> removed ino \<and> deny_write_cnt ino = 0
        \<and> (\<forall>k. refs s' k = refs s k + of_bool (k = sec))))
    \<and> (refs s sec \<noteq> 0 \<longrightarrow>
      (\<exists>a s' ino. inode_open sec s = Some (a, s') \<and> shared s' xs \<and> inodes s a = Some ino \<and> sector ino = sec
        \<and> s' = put_inode a (ino\<lparr>open_cnt := refs s sec + 1\<rparr>) s \<and> (\<forall>k. refs s' k = refs s k + of_bool (k = sec))))
    \<and> (\<forall>a ino. inodes s a = Some ino \<and> \<not> removed ino \<longrightarrow>
      (\<exists>s'. inode_close a s = Some s' \<and> (\<forall>k. refs s' k = refs s k - of_bool (k = sector ino))
        \<and> (if refs s (sector ino) = 1 then shared s' (remove1 a xs) \<and> inodes s' = (inodes s)(a := None)
           else shared s' xs \<and> s' = put_inode a (ino\<lparr>open_cnt := refs s (sector ino) - 1\<rparr>) s)))"
  by (intro conjI impI allI inode_open_shared [OF assms] inode_close_counted [OF assms])
    (elim conjE, (assumption | rule inode_open_fresh [OF assms])+)+

theorem inode_open_close_counts_witness:
  "\<exists>s' s''. inode_open 1 demo_fs = Some (11, s') \<and> inode_close 11 s' = Some s'' \<and> refs s'' 1 = 1"
proof -
  have sh: "shared demo_fs [10, 11]"
    using demo_wf(7) by (simp add: shared_def demo_fs_def demo_fm_def demo_root_def)
  have i: "inodes demo_fs 11 = Some demo_root" "sector demo_root = 1" "open_cnt demo_root = 1" "\<not> removed demo_root"
    by (simp_all add: demo_fs_def demo_root_def)
  have r: "refs demo_fs 1 = 1" using refs_open [OF sh i(1)] i(2,3) by simp
  then obtain a s' ino where s': "inode_open 1 demo_fs = Some (a, s')" "shared s' [10, 11]" "inodes demo_fs a = Some ino" "sector ino = 1"
    "s' = put_inode a (ino\<lparr>open_cnt := refs demo_fs 1 + 1\<rparr>) demo_fs" "\<forall>k. refs s' k = refs demo_fs k + of_bool (k = 1)"
    using inode_open_close_counts [OF sh, of 1] by auto
  have a: "a = 11" using sharedD(5) [OF sh s'(3) i(1)] s'(4) i(2) by simp
  with s'(3) i have "inodes s' 11 = Some (ino\<lparr>open_cnt := 2\<rparr>)" "\<not> removed ino" using s'(5) r by (simp_all add: put_inode_def)
  then obtain s'' where "inode_close 11 s' = Some s''" "\<forall>k. refs s'' k = refs s' k - of_bool (k = 1)"
    using inode_open_close_counts [OF s'(2), of 1, THEN conjunct2, THEN conjunct2, rule_format, of 11 "ino\<lparr>open_cnt := 2\<rparr>"] s'(4) by auto
  then show ?thesis using s'(1,6) a r by simp
qed

text \<open>
  C22. \<^verbatim>\<open>dir_add\<close> with a valid name succeeds exactly if the name is not in use and a slot is free.
  After a success the name is found with its sector, and every other name is found, or not,
  as before; after a failure every name is found as before.
\<close>

theorem dir_add_then_lookup:
  assumes "d \<noteq> NULL" and "dirs s d = Some dd" and "inodes s (d_inode dd) = Some ino" and "wf_dev s" and "wf_disk s (data ino)"
    and "deny_write_cnt ino = 0" and "mem_ok s" and "length g = 20"
    and "nm \<noteq> []" and "length nm \<le> NAME_MAX" and "NUL \<notin> set nm" and "sec < 2 ^ 32"
  shows "\<exists>okay s'. dir_add g d nm sec s = Some (okay, s') \<and>
    (okay \<longleftrightarrow> map_option fst (lookup d nm s) = Some None \<and> (\<exists>e \<in> set (ents (contents s (data ino))). \<not> e_in_use e)) \<and>
    (okay \<longrightarrow> (\<exists>e ofs s''. lookup d nm s' = Some (Some (e, ofs), s'') \<and> e_sector e = sec)) \<and>
    (\<forall>nm'. nm' \<noteq> nm \<or> \<not> okay \<longrightarrow> map_option fst (lookup d nm' s') = map_option fst (lookup d nm' s))"
proof -
  let ?es = "ents (contents s (data ino))"
  obtain okay s' where a: "dir_add g d nm sec s = Some (okay, s')" "writes (secs (data ino)) s s'" "wf_dev s'"
    "okay \<longleftrightarrow> find_ent nm 0 ?es = None \<and> (\<exists>e \<in> set ?es. \<not> e_in_use e)"
    "if okay then (\<exists>e k. ents (contents s' (data ino)) = ?es[k := e] \<and> k < length ?es \<and> \<not> e_in_use (?es ! k)
        \<and> e_in_use e \<and> entry_name e = nm \<and> e_sector e = sec) else ents (contents s' (data ino)) = ?es"
    using dir_add_ok [OF assms] by blast
  have l: "\<exists>s''. lookup d n s = Some (find_ent n 0 ?es, s'')" for n
    using lookup_loop_eq [OF assms(4,5) order_refl assms(7), of n] assms(1-3) by (auto simp: lookup_def)
  have l': "\<exists>s''. lookup d n s' = Some (find_ent n 0 (ents (contents s' (data ino))), s'')" for n
    using lookup_loop_eq [OF a(3) _ order_refl mem_ok_writes [OF assms(7) a(2)], of ino n] assms(1-3,5) writes_same [OF a(2)]
    by (auto simp: lookup_def)
  have m: "map_option fst (lookup d n s) = Some (find_ent n 0 ?es)" "map_option fst (lookup d n s') = Some (find_ent n 0 (ents (contents s' (data ino))))" for n
    using l [of n] l' [of n] by auto
  have ok: "okay \<longleftrightarrow> map_option fst (lookup d nm s) = Some None \<and> (\<exists>e \<in> set ?es. \<not> e_in_use e)"
    unfolding m using a(4) by simp
  show ?thesis
  proof (cases okay)
    case False
    then have "\<forall>nm'. map_option fst (lookup d nm' s') = map_option fst (lookup d nm' s)" unfolding m using a(5) by simp
    with a(1) ok False show ?thesis by blast
  next
    case True
    with a(5) obtain e k where e: "ents (contents s' (data ino)) = ?es[k := e]" "k < length ?es" "\<not> e_in_use (?es ! k)" "e_in_use e"
      "entry_name e = nm" "e_sector e = sec" by auto
    note fs = find_ent_slot [OF e(2,3,4), of _ 0]
    have "find_ent nm 0 ?es = None" using a(4) True by simp
    then have "find_ent nm 0 (ents (contents s' (data ino))) = Some (e, 20 * int k)" using fs(1) e(1,5) by simp
    then obtain s'' where "lookup d nm s' = Some (Some (e, 20 * int k), s'')" using l' [of nm] by auto
    moreover have "\<forall>nm'. nm' \<noteq> nm \<longrightarrow> map_option fst (lookup d nm' s') = map_option fst (lookup d nm' s)"
      unfolding m e(1) using fs(2) e(5) by metis
    ultimately show ?thesis using a(1) ok True e(6) by blast
  qed
qed

theorem dir_add_then_lookup_witness:
  "\<exists>s'. dir_add (replicate 20 NUL) 30 ''a'' 5 demo_fs = Some (True, s') \<and>
    (\<exists>e ofs s''. lookup 30 ''a'' s' = Some (Some (e, ofs), s'') \<and> e_sector e = 5)"
proof -
  let ?es = "ents (contents demo_fs (data demo_root))"
  have z: "\<forall>e \<in> set ?es. \<not> e_in_use e" unfolding demo_contents by (rule ents_zero)
  have ne: "?es \<noteq> []" using length_ents [of "contents demo_fs (data demo_root)"] unfolding demo_contents by auto
  obtain s1 where "lookup_loop demo_root ''a'' 0 demo_fs = Some (None, s1)"
    using lookup_loop_eq [OF demo_wf(1,3) order_refl demo_wf(4), of "''a''"] find_ent_unused [OF z] by auto
  then have "map_option fst (lookup 30 ''a'' demo_fs) = Some None" by (simp add: lookup_def demo_fs_def NULL_def)
  moreover have "\<exists>e \<in> set ?es. \<not> e_in_use e" using z ne by (meson list.set_sel(1))
  ultimately show ?thesis
    using dir_add_then_lookup [of 30 demo_fs "\<lparr>d_inode = 11, d_pos = 0\<rparr>" demo_root "replicate 20 NUL" "''a''" 5] demo_wf
    by (auto simp: NULL_def demo_fs_def NAME_MAX_def demo_root_def)
qed

text \<open>
  C35. \<^verbatim>\<open>dir_add\<close> takes a short read for the end of the directory, but \<^verbatim>\<open>inode_read_at\<close> also reads
  short when it has no memory for its bounce buffer. If the allocations of the two searches fail
  and the one of the write succeeds, \<^verbatim>\<open>dir_add\<close> reports success and has overwritten the first
  entry of the directory, whatever file it named.
\<close>

theorem dir_add_low_memory_overwrites:
  assumes "d \<noteq> NULL" and "dirs s d = Some dd" and "inodes s (d_inode dd) = Some ino" and "wf_dev s" and "wf_disk s (data ino)"
    and "deny_write_cnt ino = 0" and "length g = 20" and "nm \<noteq> []" and "length nm \<le> NAME_MAX" and "NUL \<notin> set nm" and "sec < 2 ^ 32"
    and "20 \<le> di_length (data ino)" and "allocs s 0 = NULL" and "allocs s 1 = NULL" and "allocs s 2 \<noteq> NULL"
  shows "\<exists>s' e. dir_add g d nm sec s = Some (True, s') \<and> entry_name e = nm \<and> e_sector e = sec \<and> e_in_use e
    \<and> ents (contents s' (data ino)) = (ents (contents s (data ino)))[0 := e]"
proof -
  define s1 where "s1 = s\<lparr>allocs := shift 1 (allocs s)\<rparr>"
  define s2 where "s2 = s\<lparr>allocs := shift 2 (allocs s)\<rparr>"
  have r1: "inode_read_at ino 20 0 s = Some ([], s1)" using read_no_memory [of 0 ino 20 s] assms(12,13) by (simp add: s1_def)
  have r2: "inode_read_at ino 20 0 s1 = Some ([], s2)"
    using read_no_memory [of 0 ino 20 s1] assms(12,14) by (simp add: s1_def s2_def shift_def)
  have lk: "lookup d nm s = Some (None, s1)" using r1 assms(1-3) by (simp add: lookup_def lookup_loop.simps [of ino nm 0 s] sizeof_dir_entry_def)
  have sl: "slot_loop ino g 0 s1 = Some (0, g, s2)" using r2 by (simp add: slot_loop.simps [of ino g 0 s1] sizeof_dir_entry_def)
  have same: "contents s2 (data ino) = contents s (data ino)" "wf_dev s2" "wf_disk s2 (data ino)" "avail s2"
    using assms(4,5,15) by (simp_all add: s2_def contents_def file_sectors_def wf_dev_def wf_disk_def avail_def shift_def numeral_2_eq_2)
  define e where "e = (dir_entry_of g)\<lparr>e_in_use := True, e_name := strcpy_to (e_name (dir_entry_of g)) nm, e_sector := sec\<rparr>"
  have e: "length (e_name e) = 15" "e_in_use e" "entry_name e = nm" "e_sector e = sec"
    using assms(7,8-10) by (simp_all add: e_def entry_name_def dir_entry_of_def NAME_MAX_def)
  have "min (nat 20) (nat (di_length (data ino) - 0)) = 20" using assms(12) by simp
  then obtain s3 where w: "inode_write_at ino (dir_entry_bytes e) 20 0 s2 = Some (20, s3)"
    "contents s3 (data ino) = overwrite 0 (dir_entry_bytes e) (contents s (data ino))"
    using inode_write_at_contents [OF same(2,3) order_refl _ assms(6), of 20 "dir_entry_bytes e"] length_dir_entry_bytes [OF e(1)] same(1,4) by auto
  have "dir_add g d nm sec s = Some (True, s3)"
    using lk sl w(1) assms(1-3,8,9) by (simp add: dir_add_def s1_def e_def sizeof_dir_entry_def)
  moreover have "0 < length (ents (contents s (data ino)))"
    using length_ents [of "contents s (data ino)"] length_contents(1) [OF assms(4,5)] assms(12) by (simp add: div_greater_zero_iff)
  then have "ents (contents s3 (data ino)) = (ents (contents s (data ino)))[0 := e]"
    using ents_overwrite [OF length_dir_entry_bytes [OF e(1)], of 0] w(2) dir_entry_roundtrip [OF e(1)] e(4) assms(11) by simp
  ultimately show ?thesis using e by blast
qed

theorem dir_add_low_memory_overwrites_witness:
  "\<exists>s' e. dir_add (replicate 20 NUL) 30 ''a'' 5 (demo_fs\<lparr>allocs := (\<lambda>n. if n < 2 then NULL else n)\<rparr>) = Some (True, s') \<and> entry_name e = ''a''
    \<and> ents (contents s' (data demo_root)) = (ents (contents (demo_fs\<lparr>allocs := (\<lambda>n. if n < 2 then NULL else n)\<rparr>) (data demo_root)))[0 := e]"
proof -
  let ?s = "demo_fs\<lparr>allocs := (\<lambda>n. if n < 2 then NULL else n)\<rparr>"
  have "wf_dev ?s" "wf_disk ?s (data demo_root)" using demo_wf(1,3) by (simp_all add: wf_dev_def wf_disk_def)
  moreover have "dirs ?s 30 = Some \<lparr>d_inode = 11, d_pos = 0\<rparr>" "inodes ?s 11 = Some demo_root" by (simp_all add: demo_fs_def)
  moreover have "allocs ?s 0 = NULL" "allocs ?s 1 = NULL" "allocs ?s 2 \<noteq> NULL" by (simp_all add: NULL_def)
  moreover have "deny_write_cnt demo_root = 0" "20 \<le> di_length (data demo_root)" by (simp_all add: demo_root_def)
  ultimately show ?thesis
    using dir_add_low_memory_overwrites [of 30 ?s "\<lparr>d_inode = 11, d_pos = 0\<rparr>" demo_root "replicate 20 NUL" "''a''" 5]
    unfolding NAME_MAX_def by (auto simp: NULL_def)
qed

end
