(* ===== verification/Pintos_String.thy ===== *)
theory Pintos_String
  imports Pintos_Base
begin

text \<open>
  The memory and string functions of \<^verbatim>\<open>src/Project_3/lib/string.c\<close>. Memory is one function
  from addresses to bytes, so overlapping operands alias as they do in C; pointers are
  addresses and the null pointer is 0. The loops that only a zero byte stops are partial
  functions: running off a string that has no end is \<open>None\<close>. The specifications speak of the
  bytes stored at an address (\<open>mem_at\<close>) and of the strings stored there (\<open>str_in\<close>).
\<close>

type_synonym cmem = "addr \<Rightarrow> char"

definition uchar :: "char \<Rightarrow> nat" where
  "uchar c = of_char c"

section \<open>Blocks of memory\<close>

fun copy_up :: "nat \<Rightarrow> addr \<Rightarrow> addr \<Rightarrow> cmem \<Rightarrow> cmem" where
  "copy_up 0 dst src m = m"
| "copy_up (Suc sz) dst src m = copy_up sz (dst + 1) (src + 1) (m(dst := m src))"

definition memcpy :: "addr \<Rightarrow> addr \<Rightarrow> nat \<Rightarrow> cmem \<Rightarrow> (addr \<times> cmem) option" where
  "memcpy dst src sz m = do {
     _ \<leftarrow> ASSERT (dst \<noteq> NULL \<or> sz = 0);
     _ \<leftarrow> ASSERT (src \<noteq> NULL \<or> sz = 0);
     Some (dst, copy_up sz dst src m) }"

text \<open>The backward loop: \<open>dst\<close> and \<open>src\<close> point past the bytes still to copy.\<close>

fun copy_down :: "nat \<Rightarrow> addr \<Rightarrow> addr \<Rightarrow> cmem \<Rightarrow> addr \<times> cmem" where
  "copy_down 0 dst src m = (dst, m)"
| "copy_down (Suc sz) dst src m = copy_down sz (dst - 1) (src - 1) (m(dst - 1 := m (src - 1)))"

definition memmove :: "addr \<Rightarrow> addr \<Rightarrow> nat \<Rightarrow> cmem \<Rightarrow> (addr \<times> cmem) option" where
  "memmove dst src sz m = do {
     _ \<leftarrow> ASSERT (dst \<noteq> NULL \<or> sz = 0);
     _ \<leftarrow> ASSERT (src \<noteq> NULL \<or> sz = 0);
     if dst < src then Some (dst + sz, copy_up sz dst src m)
     else Some (copy_down sz (dst + sz) (src + sz) m) }"

fun cmp_loop :: "nat \<Rightarrow> addr \<Rightarrow> addr \<Rightarrow> cmem \<Rightarrow> int" where
  "cmp_loop 0 a b m = 0"
| "cmp_loop (Suc sz) a b m =
     (if m a \<noteq> m b then (if uchar (m a) > uchar (m b) then 1 else - 1) else cmp_loop sz (a + 1) (b + 1) m)"

definition memcmp :: "addr \<Rightarrow> addr \<Rightarrow> nat \<Rightarrow> cmem \<Rightarrow> int option" where
  "memcmp a b sz m = do {
     _ \<leftarrow> ASSERT (a \<noteq> NULL \<or> sz = 0);
     _ \<leftarrow> ASSERT (b \<noteq> NULL \<or> sz = 0);
     Some (cmp_loop sz a b m) }"

fun chr_loop :: "nat \<Rightarrow> addr \<Rightarrow> char \<Rightarrow> cmem \<Rightarrow> addr" where
  "chr_loop 0 block ch m = NULL"
| "chr_loop (Suc sz) block ch m = (if m block = ch then block else chr_loop sz (block + 1) ch m)"

definition memchr :: "addr \<Rightarrow> char \<Rightarrow> nat \<Rightarrow> cmem \<Rightarrow> addr option" where
  "memchr block ch sz m = do {
     _ \<leftarrow> ASSERT (block \<noteq> NULL \<or> sz = 0);
     Some (chr_loop sz block ch m) }"

fun fill_loop :: "nat \<Rightarrow> addr \<Rightarrow> char \<Rightarrow> cmem \<Rightarrow> cmem" where
  "fill_loop 0 dst v m = m"
| "fill_loop (Suc sz) dst v m = fill_loop sz (dst + 1) v (m(dst := v))"

definition memset :: "addr \<Rightarrow> char \<Rightarrow> nat \<Rightarrow> cmem \<Rightarrow> (addr \<times> cmem) option" where
  "memset dst v sz m = do {
     _ \<leftarrow> ASSERT (dst \<noteq> NULL \<or> sz = 0);
     Some (dst, fill_loop sz dst v m) }"

section \<open>Strings\<close>

partial_function (option) strcmp_loop :: "cmem \<Rightarrow> addr \<Rightarrow> addr \<Rightarrow> (addr \<times> addr) option" where
  [code]: "strcmp_loop m a b = (if m a \<noteq> NUL \<and> m a = m b then strcmp_loop m (a + 1) (b + 1) else Some (a, b))"

definition strcmp :: "addr \<Rightarrow> addr \<Rightarrow> cmem \<Rightarrow> int option" where
  "strcmp a b m = do {
     _ \<leftarrow> ASSERT (a \<noteq> NULL);
     _ \<leftarrow> ASSERT (b \<noteq> NULL);
     (a, b) \<leftarrow> strcmp_loop m a b;
     Some (if uchar (m a) < uchar (m b) then - 1 else if uchar (m a) > uchar (m b) then 1 else 0) }"

partial_function (option) strchr_loop :: "cmem \<Rightarrow> char \<Rightarrow> addr \<Rightarrow> addr option" where
  [code]: "strchr_loop m c s = (if m s = c then Some s else if m s = NUL then Some NULL else strchr_loop m c (s + 1))"

definition strchr :: "addr \<Rightarrow> char \<Rightarrow> cmem \<Rightarrow> addr option" where
  "strchr s c m = do { _ \<leftarrow> ASSERT (s \<noteq> NULL); strchr_loop m c s }"

partial_function (option) span_loop :: "cmem \<Rightarrow> addr \<Rightarrow> (addr \<Rightarrow> bool) \<Rightarrow> addr \<Rightarrow> nat \<Rightarrow> nat option" where
  [code]: "span_loop m s stop d n =
     (if m (s + n) \<noteq> NUL then do {
        p \<leftarrow> strchr d (m (s + n)) m;
        if stop p then Some n else span_loop m s stop d (n + 1) }
      else Some n)"

definition strcspn :: "addr \<Rightarrow> addr \<Rightarrow> cmem \<Rightarrow> nat option" where
  "strcspn s stop m = span_loop m s (\<lambda>p. p \<noteq> NULL) stop 0"

definition strspn :: "addr \<Rightarrow> addr \<Rightarrow> cmem \<Rightarrow> nat option" where
  "strspn s skip m = span_loop m s (\<lambda>p. p = NULL) skip 0"

partial_function (option) strpbrk :: "cmem \<Rightarrow> addr \<Rightarrow> addr \<Rightarrow> addr option" where
  [code]: "strpbrk m stop s =
     (if m s \<noteq> NUL then do {
        p \<leftarrow> strchr stop (m s) m;
        if p \<noteq> NULL then Some s else strpbrk m stop (s + 1) }
      else Some NULL)"

partial_function (option) strrchr_loop :: "cmem \<Rightarrow> char \<Rightarrow> addr \<Rightarrow> addr \<Rightarrow> addr option" where
  [code]: "strrchr_loop m c p s =
     (if m s \<noteq> NUL then strrchr_loop m c (if m s = c then s else p) (s + 1) else Some p)"

definition strrchr :: "addr \<Rightarrow> char \<Rightarrow> cmem \<Rightarrow> addr option" where
  "strrchr s c m = strrchr_loop m c NULL s"

partial_function (option) strlen_loop :: "cmem \<Rightarrow> addr \<Rightarrow> addr option" where
  [code]: "strlen_loop m p = (if m p \<noteq> NUL then strlen_loop m (p + 1) else Some p)"

definition strlen :: "addr \<Rightarrow> cmem \<Rightarrow> nat option" where
  "strlen s m = do { _ \<leftarrow> ASSERT (s \<noteq> NULL); p \<leftarrow> strlen_loop m s; Some (p - s) }"

function strnlen_loop :: "cmem \<Rightarrow> addr \<Rightarrow> nat \<Rightarrow> nat \<Rightarrow> nat" where
  "strnlen_loop m s maxlen n = (if m (s + n) \<noteq> NUL \<and> n < maxlen then strnlen_loop m s maxlen (n + 1) else n)"
  by pat_completeness auto
termination by (relation "measure (\<lambda>(m, s, maxlen, n). maxlen - n)") auto

declare strnlen_loop.simps [simp del]

definition strnlen :: "addr \<Rightarrow> nat \<Rightarrow> cmem \<Rightarrow> nat" where
  "strnlen s maxlen m = strnlen_loop m s maxlen 0"

fun strstr_loop :: "cmem \<Rightarrow> addr \<Rightarrow> addr \<Rightarrow> nat \<Rightarrow> nat \<Rightarrow> nat \<Rightarrow> addr option" where
  "strstr_loop m haystack needle needle_len i 0 = Some NULL"
| "strstr_loop m haystack needle needle_len i (Suc n) = do {
     c \<leftarrow> memcmp (haystack + i) needle needle_len m;
     if c = 0 then Some (haystack + i) else strstr_loop m haystack needle needle_len (i + 1) n }"

definition strstr :: "addr \<Rightarrow> addr \<Rightarrow> cmem \<Rightarrow> addr option" where
  "strstr haystack needle m = do {
     haystack_len \<leftarrow> strlen haystack m;
     needle_len \<leftarrow> strlen needle m;
     if haystack_len \<ge> needle_len then strstr_loop m haystack needle needle_len 0 (haystack_len - needle_len + 1)
     else Some NULL }"

text \<open>\<^verbatim>\<open>strtok_r\<close>: the two loops, the first of which also reports the end of the string.\<close>

partial_function (option) skip_delims :: "cmem \<Rightarrow> addr \<Rightarrow> addr \<Rightarrow> (bool \<times> addr) option" where
  [code]: "skip_delims m d s = do {
     p \<leftarrow> strchr d (m s) m;
     if p \<noteq> NULL then if m s = NUL then Some (True, s) else skip_delims m d (s + 1)
     else Some (False, s) }"

partial_function (option) skip_token :: "cmem \<Rightarrow> addr \<Rightarrow> addr \<Rightarrow> addr option" where
  [code]: "skip_token m d s = do {
     p \<leftarrow> strchr d (m s) m;
     if p = NULL then skip_token m d (s + 1) else Some s }"

definition strtok_r :: "addr \<Rightarrow> addr \<Rightarrow> addr \<Rightarrow> cmem \<Rightarrow> (addr \<times> addr \<times> cmem) option" where
  "strtok_r s delimiters save_ptr m = do {
     _ \<leftarrow> ASSERT (delimiters \<noteq> NULL);
     let s = (if s = NULL then save_ptr else s);
     _ \<leftarrow> ASSERT (s \<noteq> NULL);
     (at_end, s) \<leftarrow> skip_delims m delimiters s;
     if at_end then Some (NULL, s, m)
     else do {
       let token = s;
       s \<leftarrow> skip_token m delimiters s;
       if m s \<noteq> NUL then Some (token, s + 1, m(s := NUL)) else Some (token, s, m) } }"

definition strlcpy :: "addr \<Rightarrow> addr \<Rightarrow> nat \<Rightarrow> cmem \<Rightarrow> (nat \<times> cmem) option" where
  "strlcpy dst src sz m = do {
     _ \<leftarrow> ASSERT (dst \<noteq> NULL);
     _ \<leftarrow> ASSERT (src \<noteq> NULL);
     src_len \<leftarrow> strlen src m;
     if sz > 0 then do {
       let dst_len = (if src_len < sz - 1 then src_len else sz - 1);
       (_, m) \<leftarrow> memcpy dst src dst_len m;
       Some (src_len, m(dst + dst_len := NUL)) }
     else Some (src_len, m) }"

definition strlcat :: "addr \<Rightarrow> addr \<Rightarrow> nat \<Rightarrow> cmem \<Rightarrow> (nat \<times> cmem) option" where
  "strlcat dst src sz m = do {
     _ \<leftarrow> ASSERT (dst \<noteq> NULL);
     _ \<leftarrow> ASSERT (src \<noteq> NULL);
     src_len \<leftarrow> strlen src m;
     dst_len \<leftarrow> strlen dst m;
     if sz > 0 \<and> dst_len < sz then do {
       let copy_cnt = (if src_len < sz - dst_len - 1 then src_len else sz - dst_len - 1);
       (_, m) \<leftarrow> memcpy (dst + dst_len) src copy_cnt m;
       Some (src_len + dst_len, m(dst + dst_len + copy_cnt := NUL)) }
     else Some (src_len + dst_len, m) }"

section \<open>Blocks: what the loops do\<close>

lemma copy_up_apply:
  "dst \<le> src \<or> src + n \<le> dst \<Longrightarrow>
   copy_up n dst src m x = (if dst \<le> x \<and> x < dst + n then m (src + (x - dst)) else m x)"
proof (induction n arbitrary: dst src m x)
  case (Suc n)
  from Suc.prems show ?case
    by (cases "x = dst") (auto simp: Suc.IH Suc_diff_le [symmetric] not_le)
qed auto

lemma copy_down_apply:
  "src \<le> dst \<Longrightarrow> n \<le> src \<Longrightarrow>
   copy_down n dst src m = (dst - n, \<lambda>x. if dst - n \<le> x \<and> x < dst then m (src - (dst - x)) else m x)"
proof (induction n arbitrary: dst src m)
  case (Suc n)
  then show ?case by (auto simp: fun_eq_iff)
qed (auto simp: fun_eq_iff)

lemma cmp_loop_0: "cmp_loop n a b m = 0 \<longleftrightarrow> (\<forall>i < n. m (a + i) = m (b + i))"
  by (induction n a b m rule: cmp_loop.induct) (auto simp: less_Suc_eq_0_disj)

lemma fill_loop_apply: "fill_loop n dst v m x = (if dst \<le> x \<and> x < dst + n then v else m x)"
  by (induction n arbitrary: dst m) auto

section \<open>Strings: what the loops do\<close>

fun str_in :: "cmem \<Rightarrow> addr \<Rightarrow> string \<Rightarrow> bool" where
  "str_in m p [] = (m p = NUL)"
| "str_in m p (c # s) = (c \<noteq> NUL \<and> m p = c \<and> str_in m (p + 1) s)"

lemma str_in_iff:
  "str_in m p s \<longleftrightarrow> NUL \<notin> set s \<and> (\<forall>i < length s. m (p + i) = s ! i) \<and> m (p + length s) = NUL"
  by (induction s arbitrary: p) (auto simp: less_Suc_eq_0_disj)

lemma str_in_cong: "(\<And>i. i \<le> length s \<Longrightarrow> m' (p + i) = m (p + i)) \<Longrightarrow> str_in m' p s = str_in m p s"
  by (simp add: str_in_iff)

lemma str_in_append: "str_in m p (s @ t) \<longleftrightarrow> NUL \<notin> set s \<and> (\<forall>i < length s. m (p + i) = s ! i) \<and> str_in m (p + length s) t"
  by (induction s arbitrary: p) (auto simp: less_Suc_eq_0_disj)

lemma strlen_loop_str: "str_in m p s \<Longrightarrow> strlen_loop m p = Some (p + length s)"
  by (induction s arbitrary: p) (subst strlen_loop.simps; force)+

lemma strlen_str [simp]: "str_in m p s \<Longrightarrow> p \<noteq> NULL \<Longrightarrow> strlen p m = Some (length s)"
  by (simp add: strlen_def strlen_loop_str)

lemma strchr_loop_str:
  "str_in m p s \<Longrightarrow> strchr_loop m c p =
     Some (if c = NUL then p + length s else if c \<in> set s then p + length (takeWhile (\<lambda>x. x \<noteq> c) s) else NULL)"
  by (induction s arbitrary: p) (subst strchr_loop.simps; auto)+

text \<open>\<^verbatim>\<open>strchr\<close> is non-null exactly on the characters of the string and on the zero byte.\<close>

lemma strchr_str:
  assumes "str_in m d ds" and "d \<noteq> NULL"
  shows "\<exists>p. strchr d c m = Some p \<and> (p \<noteq> NULL \<longleftrightarrow> c = NUL \<or> c \<in> set ds)"
  using strchr_loop_str [OF assms(1), of c] assms(2) by (simp add: strchr_def NULL_def)

lemma strcmp_loop_str:
  "str_in m a s \<Longrightarrow> str_in m b t \<Longrightarrow>
   \<exists>k. strcmp_loop m a b = Some (a + k, b + k) \<and> take k s = take k t \<and> k \<le> length s \<and> k \<le> length t
     \<and> (s = t \<longleftrightarrow> m (a + k) = m (b + k))"
proof (induction s arbitrary: a b t)
  case Nil
  then show ?case by (intro exI [of _ 0]) (cases t; auto simp: strcmp_loop.simps)
next
  case (Cons c s)
  show ?case
  proof (cases "t \<noteq> [] \<and> hd t = c")
    case True
    then obtain t' where t: "t = c # t'" by (cases t) auto
    obtain k where "strcmp_loop m (a + 1) (b + 1) = Some (a + 1 + k, b + 1 + k)" "take k s = take k t'" "k \<le> length s" "k \<le> length t'"
      "s = t' \<longleftrightarrow> m (a + 1 + k) = m (b + 1 + k)"
      using Cons.IH [of "a + 1" "b + 1" t'] Cons.prems t by auto
    then show ?thesis using Cons.prems t by (intro exI [of _ "Suc k"]) (subst strcmp_loop.simps; simp)
  next
    case False
    then have "m a \<noteq> m b" using Cons.prems by (cases t) auto
    then show ?thesis using Cons.prems False by (intro exI [of _ 0]) (subst strcmp_loop.simps; auto)
  qed
qed

lemma uchar_inj [simp]: "uchar a = uchar b \<longleftrightarrow> a = b"
  by (simp add: uchar_def)

lemma strcmp_str:
  assumes "str_in m a s" and "str_in m b t" and "a \<noteq> NULL" and "b \<noteq> NULL"
  shows "\<exists>r. strcmp a b m = Some r \<and> (r = 0 \<longleftrightarrow> s = t)"
proof -
  obtain k where k: "strcmp_loop m a b = Some (a + k, b + k)" "s = t \<longleftrightarrow> m (a + k) = m (b + k)"
    using strcmp_loop_str [OF assms(1,2)] by blast
  have "uchar (m (a + k)) < uchar (m (b + k)) \<or> uchar (m (a + k)) > uchar (m (b + k)) \<or> m (a + k) = m (b + k)"
    using uchar_inj [of "m (a + k)" "m (b + k)"] by linarith
  with k assms(3,4) show ?thesis by (auto simp: strcmp_def)
qed

lemma span_loop_str:
  assumes "str_in m d ds" and "d \<noteq> NULL"
  shows "str_in m (s + n) t \<Longrightarrow>
      span_loop m s (\<lambda>p. p \<noteq> NULL) d n = Some (n + length (takeWhile (\<lambda>c. c \<notin> set ds) t))"
    and "str_in m (s + n) t \<Longrightarrow>
      span_loop m s (\<lambda>p. p = NULL) d n = Some (n + length (takeWhile (\<lambda>c. c \<in> set ds) t))"
proof (induction t arbitrary: n)
  case Nil
  { case 1 then show ?case by (simp add: span_loop.simps) }
  { case 2 then show ?case by (simp add: span_loop.simps) }
next
  case (Cons c t)
  obtain p where p: "strchr d c m = Some p" "p \<noteq> NULL \<longleftrightarrow> c = NUL \<or> c \<in> set ds"
    using strchr_str [OF assms, of c] by blast
  { case 1
    then show ?case using p Cons.IH(1) [of "n + 1"] by (subst span_loop.simps) auto }
  { case 2
    then show ?case using p Cons.IH(2) [of "n + 1"] by (subst span_loop.simps) auto }
qed

text \<open>\<^verbatim>\<open>strstr\<close> finds the first occurrence.\<close>

definition occurs_at :: "string \<Rightarrow> string \<Rightarrow> nat \<Rightarrow> bool" where
  "occurs_at t s i \<longleftrightarrow> i + length t \<le> length s \<and> take (length t) (drop i s) = t"

lemma memcmp_str:
  assumes "str_in m a s" and "str_in m b t" and "i + length t \<le> length s" and "a \<noteq> NULL" and "b \<noteq> NULL"
  shows "\<exists>c. memcmp (a + i) b (length t) m = Some c \<and> (c = 0 \<longleftrightarrow> occurs_at t s i)"
proof -
  have "(\<forall>j < length t. m (a + i + j) = m (b + j)) \<longleftrightarrow> (\<forall>j < length t. s ! (i + j) = t ! j)"
    using assms by (auto simp: str_in_iff add.assoc)
  also have "\<dots> \<longleftrightarrow> occurs_at t s i" using assms(3) by (auto simp: occurs_at_def list_eq_iff_nth_eq)
  finally show ?thesis using assms(4,5) by (simp add: memcmp_def cmp_loop_0 NULL_def)
qed

lemma strstr_loop_str:
  assumes "str_in m a s" and "str_in m b t" and "a \<noteq> NULL" and "b \<noteq> NULL"
  shows "i + n + length t \<le> length s + 1 \<Longrightarrow>
    \<exists>r. strstr_loop m a b (length t) i n = Some r \<and>
      (r = NULL \<and> (\<forall>k. i \<le> k \<and> k < i + n \<longrightarrow> \<not> occurs_at t s k)
       \<or> (\<exists>k \<ge> i. r = a + k \<and> occurs_at t s k \<and> (\<forall>j. i \<le> j \<and> j < k \<longrightarrow> \<not> occurs_at t s j)))"
proof (induction n arbitrary: i)
  case (Suc n)
  obtain c where c: "memcmp (a + i) b (length t) m = Some c" "c = 0 \<longleftrightarrow> occurs_at t s i"
    using memcmp_str [OF assms(1,2) _ assms(3,4), of i] Suc.prems by auto
  show ?case
  proof (cases "occurs_at t s i")
    case True
    with c show ?thesis by auto
  next
    case False
    have "k = i \<or> i + 1 \<le> k" if "i \<le> k" for k using that by auto
    with False c Suc.IH [of "i + 1"] Suc.prems show ?thesis
      by simp (metis Suc_leD Suc_leI le_neq_implies_less)
  qed
qed auto

text \<open>\<^verbatim>\<open>strtok_r\<close>: the end of the skipped delimiters and of the token.\<close>

lemma skip_delims_str:
  assumes "str_in m d ds" and "d \<noteq> NULL"
  shows "str_in m s t \<Longrightarrow> skip_delims m d s =
    Some (dropWhile (\<lambda>c. c \<in> set ds) t = [], s + length (takeWhile (\<lambda>c. c \<in> set ds) t))"
proof (induction t arbitrary: s)
  case Nil
  obtain p where "strchr d NUL m = Some p" "p \<noteq> NULL" using strchr_str [OF assms, of NUL] by blast
  with Nil show ?case by (subst skip_delims.simps) simp
next
  case (Cons c t)
  obtain p where p: "strchr d c m = Some p" "p \<noteq> NULL \<longleftrightarrow> c = NUL \<or> c \<in> set ds" using strchr_str [OF assms, of c] by blast
  with Cons show ?case by (subst skip_delims.simps) auto
qed

lemma skip_token_str:
  assumes "str_in m d ds" and "d \<noteq> NULL"
  shows "str_in m s t \<Longrightarrow> skip_token m d s = Some (s + length (takeWhile (\<lambda>c. c \<notin> set ds) t))"
proof (induction t arbitrary: s)
  case Nil
  obtain p where "strchr d NUL m = Some p" "p \<noteq> NULL" using strchr_str [OF assms, of NUL] by blast
  with Nil show ?case by (subst skip_token.simps) simp
next
  case (Cons c t)
  obtain p where p: "strchr d c m = Some p" "p \<noteq> NULL \<longleftrightarrow> c = NUL \<or> c \<in> set ds" using strchr_str [OF assms, of c] by blast
  with Cons show ?case by (subst skip_token.simps) auto
qed

lemma words_of_unfold:
  "words_of d s = (if dropWhile (\<lambda>c. c \<in> set d) s = [] then []
     else takeWhile (\<lambda>c. c \<notin> set d) (dropWhile (\<lambda>c. c \<in> set d) s)
       # words_of d (dropWhile (\<lambda>c. c \<notin> set d) (dropWhile (\<lambda>c. c \<in> set d) s)))"
  by (subst words_of.simps) (simp add: Let_def)

lemma str_in_drop: "str_in m p s \<Longrightarrow> k \<le> length s \<Longrightarrow> str_in m (p + k) (drop k s)"
  using str_in_append [of m p "take k s" "drop k s"] by (simp add: min_absorb2)

lemma strtok_r_end:
  assumes "str_in m s t" and "str_in m d ds" and "s \<noteq> NULL" and "d \<noteq> NULL" and "words_of ds t = []"
  shows "strtok_r s d sv m = Some (NULL, s + length t, m)"
proof -
  have "dropWhile (\<lambda>c. c \<in> set ds) t = []" using assms(5) words_of_unfold [of ds t] by (auto split: if_splits)
  moreover from this have "takeWhile (\<lambda>c. c \<in> set ds) t = t" by (metis append_Nil2 takeWhile_dropWhile_id)
  ultimately have "skip_delims m d s = Some (True, s + length t)"
    using skip_delims_str [OF assms(2,4,1)] by (simp only: simp_thms)
  then show ?thesis using assms(3,4) by (simp add: strtok_r_def)
qed

lemma strtok_r_token:
  assumes str: "str_in m s t" and del: "str_in m d ds" and nn: "s \<noteq> NULL" "d \<noteq> NULL"
    and disj: "{s..s + length t} \<inter> {d..d + length ds} = {}" and words: "words_of ds t = w # ws"
  shows "\<exists>p sv' m' r. strtok_r s d sv m = Some (p, sv', m') \<and> p \<noteq> NULL \<and> sv' \<noteq> NULL \<and> str_in m' p w \<and> str_in m' sv' r
    \<and> words_of ds r = ws \<and> str_in m' d ds \<and> s \<le> sv' \<and> sv' + length r = s + length t
    \<and> (\<forall>x. x \<notin> {s..s + length t} \<longrightarrow> m' x = m x)"
proof -
  define k where "k = length (takeWhile (\<lambda>c. c \<in> set ds) t)"
  define u where "u = dropWhile (\<lambda>c. c \<in> set ds) t"
  define v where "v = dropWhile (\<lambda>c. c \<notin> set ds) u"
  have u: "u \<noteq> []" "w = takeWhile (\<lambda>c. c \<notin> set ds) u" "ws = words_of ds v"
    using words words_of_unfold [of ds t] by (auto simp: u_def v_def split: if_splits)
  have wv: "u = w @ v" unfolding u(2) v_def by (rule takeWhile_dropWhile_id [symmetric])
  have tu: "takeWhile (\<lambda>c. c \<in> set ds) t @ u = t" unfolding u_def by (rule takeWhile_dropWhile_id)
  have len: "length t = k + length w + length v" using arg_cong [OF tu, of length] by (simp add: k_def wv)
  have "drop k t = u" using tu unfolding k_def by (metis append_eq_conv_conj)
  then have pu: "str_in m (s + k) (w @ v)" using str_in_drop [OF str, of k] len wv by simp
  have sd: "skip_delims m d s = Some (False, s + k)" using skip_delims_str [OF del nn(2) str] u(1) by (simp add: u_def k_def)
  have st: "skip_token m d (s + k) = Some (s + k + length w)" 
    using skip_token_str [OF del nn(2) pu] unfolding wv [symmetric] u(2) [symmetric] .
  let ?e = "s + k + length w"
  have pv: "str_in m ?e v" "NUL \<notin> set w" "\<forall>i < length w. m (s + k + i) = w ! i" using pu by (auto simp: str_in_append)
  show ?thesis
  proof (cases v)
    case Nil
    then have "strtok_r s d sv m = Some (s + k, ?e, m)" using nn sd st pv(1) by (simp add: strtok_r_def)
    moreover have "str_in m (s + k) w" using pu Nil by simp
    ultimately show ?thesis using nn pv(1) u(3) del Nil len
      by (intro exI [of _ "s + k"] exI [of _ ?e] exI [of _ m] exI [of _ "[]"]) (simp add: NULL_def)
  next
    case (Cons c r)
    then have m: "m ?e = c" "c \<noteq> NUL" "str_in m (?e + 1) r" using pv(1) by auto
    let ?m = "m(?e := NUL)"
    have "strtok_r s d sv m = Some (s + k, ?e + 1, ?m)" using nn sd st m by (simp add: strtok_r_def)
    moreover have "str_in ?m (s + k) w" using pv by (simp add: str_in_iff)
    moreover have "str_in ?m (?e + 1) r" using m(3) str_in_cong [of r ?m "?e + 1" m] by simp
    moreover have "c \<in> set ds" using Cons hd_dropWhile [of "\<lambda>c. c \<notin> set ds" u] by (simp add: v_def)
    then have "words_of ds r = ws" using u(3) Cons by (simp add: words_of_delim)
    moreover have "?e \<notin> {d..d + length ds}" using disj len by auto
    then have "str_in ?m d ds" using str_in_cong [of ds ?m d m] del by (simp split: if_splits) (metis le_add1 nat_add_left_cancel_le)
    ultimately show ?thesis using nn len Cons
      by (intro exI [of _ "s + k"] exI [of _ "?e + 1"] exI [of _ ?m] exI [of _ r]) (simp add: NULL_def)
  qed
qed

text \<open>A bounded copy of a string, as \<^verbatim>\<open>strlcpy\<close> and \<^verbatim>\<open>strlcat\<close> make it.\<close>

lemma copy_prefix:
  assumes "str_in m src s" and "n \<le> length s" and "{dst..dst + n} \<inter> {src..src + length s} = {}"
  shows "str_in ((copy_up n dst src m)(dst + n := NUL)) dst (take n s)"
    and "x \<notin> {dst..dst + n} \<Longrightarrow> ((copy_up n dst src m)(dst + n := NUL)) x = m x"
proof -
  have dj: "dst + n < src \<or> src + length s < dst"
  proof (rule ccontr)
    assume "\<not> (dst + n < src \<or> src + length s < dst)"
    then have "max dst src \<in> {dst..dst + n} \<inter> {src..src + length s}" by auto
    with assms(3) show False by blast
  qed
  then have c: "copy_up n dst src m x = (if dst \<le> x \<and> x < dst + n then m (src + (x - dst)) else m x)" for x
    using assms(2) by (intro copy_up_apply) auto
  show "str_in ((copy_up n dst src m)(dst + n := NUL)) dst (take n s)"
    using assms(1,2) by (auto simp: str_in_iff c dest: in_set_takeD)
  show "((copy_up n dst src m)(dst + n := NUL)) x = m x" if "x \<notin> {dst..dst + n}" using that by (auto simp: c)
qed

lemma strlcpy_str:
  assumes "str_in m src s" and "src \<noteq> NULL" and "dst \<noteq> NULL" and "{dst..<dst + sz} \<inter> {src..src + length s} = {}"
  shows "\<exists>m'. strlcpy dst src sz m = Some (length s, m') \<and> (\<forall>x. x \<notin> {dst..<dst + sz} \<longrightarrow> m' x = m x)
    \<and> (0 < sz \<longrightarrow> str_in m' dst (take (sz - 1) s))"
proof (cases "0 < sz")
  case True
  define n where "n = (if length s < sz - 1 then length s else sz - 1)"
  have n: "n \<le> length s" "{dst..dst + n} \<subseteq> {dst..<dst + sz}" "take n s = take (sz - 1) s"
    using True by (auto simp: n_def)
  then have "{dst..dst + n} \<inter> {src..src + length s} = {}" using assms(4) by blast
  note cp = copy_prefix [OF assms(1) n(1) this]
  have "strlcpy dst src sz m = Some (length s, (copy_up n dst src m)(dst + n := NUL))"
    using True assms by (simp add: strlcpy_def memcpy_def n_def Let_def)
  moreover have "\<forall>x. x \<notin> {dst..<dst + sz} \<longrightarrow> ((copy_up n dst src m)(dst + n := NUL)) x = m x" using cp(2) n(2) by blast
  ultimately show ?thesis using cp(1) unfolding n(3) by blast
qed (use assms in \<open>simp add: strlcpy_def\<close>)

lemma strlcat_str:
  assumes "str_in m src s" and "str_in m dst t" and "src \<noteq> NULL" and "dst \<noteq> NULL"
    and "{dst..<dst + sz} \<inter> {src..src + length s} = {}"
  shows "\<exists>m'. strlcat dst src sz m = Some (length s + length t, m') \<and> (\<forall>x. x \<notin> {dst..<dst + sz} \<longrightarrow> m' x = m x)
    \<and> (length t < sz \<longrightarrow> str_in m' dst (take (sz - 1) (t @ s)))"
proof (cases "length t < sz")
  case True
  define n where "n = (if length s < sz - length t - 1 then length s else sz - length t - 1)"
  let ?d = "dst + length t"
  have n: "n \<le> length s" "{?d..?d + n} \<subseteq> {dst..<dst + sz}" "t @ take n s = take (sz - 1) (t @ s)"
    using True by (auto simp: n_def)
  then have "{?d..?d + n} \<inter> {src..src + length s} = {}" using assms(5) by blast
  note cp = copy_prefix [OF assms(1) n(1) this]
  let ?m = "(copy_up n ?d src m)(?d + n := NUL)"
  have "strlcat dst src sz m = Some (length s + length t, ?m)"
    using True assms by (simp add: strlcat_def memcpy_def n_def Let_def NULL_def)
  moreover have "str_in ?m dst (t @ take n s)"
  proof -
    have "?m (dst + i) = t ! i" if "i < length t" for i
      using cp(2) [of "dst + i"] assms(2) that by (simp add: str_in_iff)
    moreover have "NUL \<notin> set t" using assms(2) by (simp add: str_in_iff)
    ultimately show ?thesis unfolding str_in_append using cp(1) by blast
  qed
  moreover have "\<forall>x. x \<notin> {dst..<dst + sz} \<longrightarrow> ?m x = m x" using cp(2) n(2) by blast
  ultimately show ?thesis unfolding n(3) by blast
qed (use assms in \<open>simp add: strlcat_def\<close>)

section \<open>Properties of the string library\<close>

text \<open>
  C34. \<^verbatim>\<open>memmove\<close> copies the bytes as they were before the call, however the two blocks overlap,
  and writes nothing else. The pointer it returns is \<open>dst\<close> only when it copies backwards; when
  \<open>dst\<close> is below \<open>src\<close> it is one past the copied block.
\<close>

theorem memmove_correct:
  assumes "dst \<noteq> NULL" and "src \<noteq> NULL"
  shows "\<exists>r m'. memmove dst src n m = Some (r, m') \<and> (\<forall>i < n. m' (dst + i) = m (src + i))
    \<and> (\<forall>x. x < dst \<or> dst + n \<le> x \<longrightarrow> m' x = m x) \<and> r = (if dst < src then dst + n else dst)"
  using assms by (auto simp: memmove_def copy_up_apply copy_down_apply)

theorem memmove_correct_witness:
  "\<exists>r m'. memmove 10 12 4 (\<lambda>x. char_of x) = Some (r, m') \<and> m' 10 = char_of (12 :: nat) \<and> m' 13 = char_of (15 :: nat) \<and> r = 14"
proof -
  obtain r m' where m': "memmove 10 12 4 (\<lambda>x. char_of x) = Some (r, m')" "\<forall>i < 4. m' (10 + i) = char_of (12 + i)"
    "r = (if 10 < (12 :: addr) then 10 + 4 else 10)"
    using memmove_correct [of 10 12 4 "\<lambda>x. char_of x"] unfolding NULL_def by auto
  have "m' (10 + 0) = char_of (12 + 0 :: nat)" "m' (10 + 3) = char_of (12 + 3 :: nat)" by (rule m'(2) [rule_format], simp)+
  with m'(1,3) show ?thesis by simp
qed

text \<open>
  C29. One call of \<^verbatim>\<open>strtok_r\<close> returns the first word of the string, zero-terminated in place, and
  saves a position from which the remaining words are those of the rest; at the end of the
  string it returns the null pointer and changes nothing. So the calls of the usual loop deliver
  exactly the words of the string, in order, and end. Only bytes of the string are written.
\<close>

theorem strtok_r_next_word:
  assumes "str_in m s t" and "str_in m d ds" and "s \<noteq> NULL" and "d \<noteq> NULL" and "{s..s + length t} \<inter> {d..d + length ds} = {}"
  shows "case words_of ds t of
      [] \<Rightarrow> strtok_r s d sv m = Some (NULL, s + length t, m)
    | w # ws \<Rightarrow> \<exists>p sv' m' r. strtok_r s d sv m = Some (p, sv', m') \<and> p \<noteq> NULL \<and> sv' \<noteq> NULL \<and> str_in m' p w
        \<and> str_in m' sv' r \<and> words_of ds r = ws \<and> str_in m' d ds \<and> s \<le> sv' \<and> sv' + length r = s + length t
        \<and> (\<forall>x. x \<notin> {s..s + length t} \<longrightarrow> m' x = m x)"
  using strtok_r_end [OF assms(1-4)] strtok_r_token [OF assms] by (cases "words_of ds t") simp_all

definition demo_mem :: cmem where
  "demo_mem = (\<lambda>x. NUL)(1 := CHR '' '', 11 := CHR ''l'', 12 := CHR ''s'', 13 := CHR '' '', 14 := CHR ''x'')"

theorem strtok_r_next_word_witness:
  "\<exists>p sv' m' r. strtok_r 11 1 0 demo_mem = Some (p, sv', m') \<and> str_in m' p ''ls'' \<and> str_in m' sv' r \<and> words_of '' '' r = [''x'']"
proof -
  have "words_of '' '' ''ls x'' = [''ls'', ''x'']"
    using words_of_join [of "CHR '' ''" "'' ''" "[''ls'', ''x'']"] by simp
  then show ?thesis
    using strtok_r_next_word [of demo_mem 11 "''ls x''" 1 "'' ''" 0] by (simp add: demo_mem_def NULL_def) metis
qed

text \<open>
  \<^verbatim>\<open>strlcat\<close> never writes outside the \<open>sz\<close> bytes of the destination, leaves there the
  zero-terminated concatenation cut to \<open>sz - 1\<close> characters, and returns the length the
  concatenation would have had.
\<close>

lemma strlcat_bounded:
  assumes "str_in m src s" and "str_in m dst t" and "src \<noteq> NULL" and "dst \<noteq> NULL"
    and "{dst..<dst + sz} \<inter> {src..src + length s} = {}"
  shows "\<exists>m'. strlcat dst src sz m = Some (length s + length t, m') \<and> (\<forall>x. x \<notin> {dst..<dst + sz} \<longrightarrow> m' x = m x)
    \<and> (length t < sz \<longrightarrow> str_in m' dst (take (sz - 1) (t @ s)))"
  by (rule strlcat_str [OF assms])

end
