(* ===== verification/Pintos_Arith.thy ===== *)
theory Pintos_Arith
  imports Pintos_Base "HOL-Library.Signed_Division"
begin

unbundle bit_operations_syntax

text \<open>
  The 64-bit division of \<^verbatim>\<open>lib/arithmetic.c\<close> (Pintos), which the compiler calls on a 32-bit
  machine. Integers are words of their width; an unsigned \<^verbatim>\<open>/\<close> or \<^verbatim>\<open>%\<close> by zero and a
  \<^verbatim>\<open>DIVL\<close> whose quotient does not fit trap, which is \<open>None\<close>.
\<close>

section \<open>Unsigned division\<close>

definition divl :: "64 word \<Rightarrow> 32 word \<Rightarrow> 32 word option" where
  "divl n d =
     (if d = 0 \<or> unat n div unat d \<ge> 2 ^ 32 then None else Some (word_of_nat (unat n div unat d)))"

definition nlz :: "32 word \<Rightarrow> nat" where
  "nlz x =
     (let (n, x) = (if x \<le> 0x0000FFFF then (16, push_bit 16 x) else (0, x));
          (n, x) = (if x \<le> 0x00FFFFFF then (n + 8, push_bit 8 x) else (n, x));
          (n, x) = (if x \<le> 0x0FFFFFFF then (n + 4, push_bit 4 x) else (n, x));
          (n, x) = (if x \<le> 0x3FFFFFFF then (n + 2, push_bit 2 x) else (n, x))
      in if x \<le> 0x7FFFFFFF then n + 1 else n)"

definition udiv64 :: "64 word \<Rightarrow> 64 word \<Rightarrow> 64 word option" where
  "udiv64 n d =
     (if drop_bit 32 d = 0 then
        let b = push_bit 32 1 :: 64 word;
            n1 = ucast (drop_bit 32 n) :: 32 word;
            n0 = ucast n :: 32 word;
            d0 = ucast d :: 32 word
        in if d0 = 0 then None
           else do {
             q \<leftarrow> divl (b * ucast (n1 mod d0) + ucast n0) d0;
             Some (ucast q + b * ucast (n1 div d0))
           }
      else if n < d then Some 0
      else
        let d1 = ucast (drop_bit 32 d) :: 32 word;
            s = nlz d1
        in do {
             q0 \<leftarrow> divl (drop_bit 1 n) (ucast (drop_bit 32 (push_bit s d)));
             (let q = ucast (drop_bit (31 - s) q0) :: 64 word
              in Some (if n - (q - 1) * d < d then q - 1 else q))
           })"

definition umod64 :: "64 word \<Rightarrow> 64 word \<Rightarrow> 32 word option" where
  "umod64 n d = do { q \<leftarrow> udiv64 n d; Some (ucast (n - d * q)) }"

section \<open>Signed division\<close>

text \<open>
  Signed arithmetic wraps around here. C leaves two cases undefined: the negation in \<^verbatim>\<open>sdiv64\<close> when the
  least integer is divided by 1 (the cast to \<^verbatim>\<open>int64_t\<close> gives the least integer), and the product in
  \<^verbatim>\<open>smod64\<close> when it is divided by \<open>-1\<close>.
\<close>

definition sdiv64 :: "64 word \<Rightarrow> 64 word \<Rightarrow> 64 word option" where
  "sdiv64 n d =
     (let n_abs = (if 0 \<le>s n then n else - n);
          d_abs = (if 0 \<le>s d then d else - d)
      in do {
           q_abs \<leftarrow> udiv64 n_abs d_abs;
           Some (if (n <s 0) = (d <s 0) then q_abs else - q_abs)
         })"

definition smod64 :: "64 word \<Rightarrow> 64 word \<Rightarrow> 32 word option" where
  "smod64 n d = do { q \<leftarrow> sdiv64 n d; Some (ucast (n - d * q)) }"

text \<open>The entry points: the 32-bit remainders are extended to 64 bits by the return type.\<close>

definition divdi3 :: "64 word \<Rightarrow> 64 word \<Rightarrow> 64 word option" where
  "divdi3 n d = sdiv64 n d"

definition moddi3 :: "64 word \<Rightarrow> 64 word \<Rightarrow> 64 word option" where
  "moddi3 n d = map_option scast (smod64 n d)"

definition udivdi3 :: "64 word \<Rightarrow> 64 word \<Rightarrow> 64 word option" where
  "udivdi3 n d = udiv64 n d"

definition umoddi3 :: "64 word \<Rightarrow> 64 word \<Rightarrow> 64 word option" where
  "umoddi3 n d = map_option ucast (umod64 n d)"

section \<open>The normalisation of the divisor\<close>

lemma unat_push_bit_exact:
  "unat x * 2 ^ k < 2 ^ LENGTH('a) \<Longrightarrow> unat (push_bit k x :: 'a :: len word) = unat x * 2 ^ k"
  by (simp add: unsigned_push_bit_eq take_bit_nat_eq_self push_bit_nat_def)

lemma unat64: "unat (x :: 64 word) < 2 ^ 64"
  using unsigned_less [of x] by simp

lemma unat_drop_bit: "unat (drop_bit k x :: 'a :: len word) = unat x div 2 ^ k"
  by (simp add: unsigned_drop_bit_eq take_bit_nat_eq_self drop_bit_nat_def)

lemma unat_ucast_exact: "unat x < 2 ^ LENGTH('b) \<Longrightarrow> unat (ucast (x :: 'a :: len word) :: 'b :: len word) = unat x"
  by (simp add: unsigned_ucast_eq take_bit_nat_eq_self)

lemma unat_ucast_up: "unat (ucast (x :: 32 word) :: 64 word) = unat x"
proof (rule unat_ucast_exact)
  have "unat x < 2 ^ 32" using unsigned_less [of x] by simp
  then show "unat x < 2 ^ LENGTH(64)" by simp
qed

text \<open>
  One test of \<^verbatim>\<open>nlz\<close>: below \<open>2 ^ m\<close> the value is shifted by \<open>32 - m\<close> bits. What is kept is that
  the value is the argument shifted by the count so far.
\<close>

lemma nlz_step:
  fixes x y :: "32 word"
  assumes "unat y = unat x * 2 ^ n" and "2 ^ l \<le> unat y" and "k + m = 32" and "m \<le> k + l"
    and "p = (if unat y < 2 ^ m then (n + k, push_bit k y) else (n, y))"
  shows "unat (snd p) = unat x * 2 ^ fst p" and "2 ^ m \<le> unat (snd p)"
proof -
  have "unat y * 2 ^ k < 2 ^ 32" if "unat y < 2 ^ m"
    using mult_strict_right_mono [OF that, of "2 ^ k"] assms(3) by (simp flip: power_add add: add.commute)
  then have sh: "unat (push_bit k y) = unat y * 2 ^ k" if "unat y < 2 ^ m" using that by (simp add: unat_push_bit_exact)
  then show "unat (snd p) = unat x * 2 ^ fst p" using assms(1,5) by (simp add: power_add)
  have "(2 :: nat) ^ m \<le> 2 ^ (k + l)" using assms(4) by simp
  also have "\<dots> \<le> unat y * 2 ^ k" using assms(2) by (simp add: power_add)
  finally show "2 ^ m \<le> unat (snd p)" using sh assms(5) by (auto simp: not_less)
qed

lemma nlz_normalises:
  assumes "x \<noteq> 0"
  shows "2 ^ 31 \<le> unat x * 2 ^ nlz x" and "unat x * 2 ^ nlz x < 2 ^ 32" and "nlz x \<le> 31"
proof -
  define p1 where "p1 = (if unat x < 2 ^ 16 then (0 + 16 :: nat, push_bit 16 x) else (0, x))"
  define p2 where "p2 = (if unat (snd p1) < 2 ^ 24 then (fst p1 + 8, push_bit 8 (snd p1)) else (fst p1, snd p1))"
  define p3 where "p3 = (if unat (snd p2) < 2 ^ 28 then (fst p2 + 4, push_bit 4 (snd p2)) else (fst p2, snd p2))"
  define p4 where "p4 = (if unat (snd p3) < 2 ^ 30 then (fst p3 + 2, push_bit 2 (snd p3)) else (fst p3, snd p3))"
  define p5 where "p5 = (if unat (snd p4) < 2 ^ 31 then (fst p4 + 1, push_bit 1 (snd p4)) else (fst p4, snd p4))"
  have "2 ^ 0 \<le> unat x" using assms by (simp add: Suc_leI unat_gt_0)
  then have s1: "unat (snd p1) = unat x * 2 ^ fst p1" "2 ^ 16 \<le> unat (snd p1)"
    using nlz_step [of x x 0 0 16 16 p1] p1_def by simp_all
  have s2: "unat (snd p2) = unat x * 2 ^ fst p2" "2 ^ 24 \<le> unat (snd p2)"
    by (rule nlz_step [OF s1 _ _ p2_def]; simp)+
  have s3: "unat (snd p3) = unat x * 2 ^ fst p3" "2 ^ 28 \<le> unat (snd p3)"
    by (rule nlz_step [OF s2 _ _ p3_def]; simp)+
  have s4: "unat (snd p4) = unat x * 2 ^ fst p4" "2 ^ 30 \<le> unat (snd p4)"
    by (rule nlz_step [OF s3 _ _ p4_def]; simp)+
  have s5: "unat (snd p5) = unat x * 2 ^ fst p5" "2 ^ 31 \<le> unat (snd p5)"
    by (rule nlz_step [OF s4 _ _ p5_def]; simp)+
  have e: "nlz x = fst p5"
    by (simp add: nlz_def p1_def p2_def p3_def p4_def p5_def word_le_nat_alt less_Suc_eq_le [symmetric] split_beta)
  show "2 ^ 31 \<le> unat x * 2 ^ nlz x" using s5 unfolding e by simp
  have "unat (snd p5) < 2 ^ 32" using unsigned_less [of "snd p5"] by simp
  then show b: "unat x * 2 ^ nlz x < 2 ^ 32" using s5(1) unfolding e by simp
  have "1 * 2 ^ nlz x \<le> unat x * 2 ^ nlz x" using assms by (intro mult_right_mono) (simp_all add: Suc_leI unat_gt_0)
  from le_less_trans [OF this b] have "(2 :: nat) ^ nlz x < 2 ^ 32" by (simp only: mult_1)
  then show "nlz x \<le> 31" by (simp only: power_strict_increasing_iff)
qed

section \<open>Correctness of the unsigned division\<close>

lemma divl_Some:
  "unat n < 2 ^ 32 * unat d \<Longrightarrow> \<exists>q. divl n d = Some q \<and> unat q = unat n div unat d"
  by (auto simp: divl_def div_less_iff_less_mult mult.commute unat_eq_0 not_le
      intro!: exI [of _ "word_of_nat (unat n div unat d)"] simp: unsigned_of_nat take_bit_nat_eq_self less_mult_imp_div_less)

text \<open>A divisor of 32 bits: two steps of long division.\<close>

lemma long_division:
  fixes n d b :: nat
  assumes "0 < d"
  shows "(b * (n div b mod d) + n mod b) div d + b * (n div b div d) = n div d"
proof -
  have "n = b * (n div b mod d) + n mod b + b * (n div b div d) * d"
    by (metis (no_types, opaque_lifting) add.assoc add.commute div_mult_mod_eq distrib_left mult.assoc mult.commute)
  with assms show ?thesis by (metis div_mult_self1 add.commute not_gr_zero)
qed

lemma udiv64_short:
  assumes "unat d < 2 ^ 32" and "d \<noteq> 0"
  shows "udiv64 n d = Some (n div d)"
proof -
  define n1 where "n1 = (ucast (drop_bit 32 n) :: 32 word)"
  define n0 where "n0 = (ucast n :: 32 word)"
  define d0 where "d0 = (ucast d :: 32 word)"
  have pos: "0 < unat d" using assms(2) by (simp add: unat_gt_0)
  have d0: "unat d0 = unat d" using assms(1) by (simp add: d0_def unat_ucast_exact)
  have "unat n < 2 ^ 64" using unsigned_less [of n] by simp
  then have n1: "unat n1 = unat n div 2 ^ 32"
    unfolding n1_def by (subst unat_ucast_exact) (simp_all add: unat_drop_bit less_mult_imp_div_less)
  have n0: "unat n0 = unat n mod 2 ^ 32" by (simp add: n0_def unsigned_ucast_eq take_bit_eq_mod)
  let ?m = "push_bit 32 1 * ucast (n1 mod d0) + ucast n0 :: 64 word"
  have r: "unat (n1 mod d0) < unat d" using pos d0 by (simp add: unat_mod_distrib)
  have m: "2 ^ 32 * unat (n1 mod d0) + unat n0 < 2 ^ 32 * unat d"
  proof -
    have "2 ^ 32 * (unat (n1 mod d0) + 1) \<le> 2 ^ 32 * unat d" using r by (intro mult_left_mono) simp_all
    moreover have "unat n0 < 2 ^ 32" using unsigned_less [of n0] by simp
    ultimately show ?thesis by simp
  qed
  have um: "unat ?m = 2 ^ 32 * unat (n1 mod d0) + unat n0"
  proof -
    have "2 ^ 32 * unat (n1 mod d0) + unat n0 < 2 ^ 64" using m assms(1) by simp
    then show ?thesis by (simp add: unat_word_ariths push_bit_eq_mult unat_ucast_exact unsigned_ucast_eq take_bit_nat_eq_self)
  qed
  obtain q where q: "divl ?m d0 = Some q" "unat q = (2 ^ 32 * unat (n1 mod d0) + unat n0) div unat d"
    using divl_Some [of ?m d0] m um d0 by auto
  have "unat q + 2 ^ 32 * unat (n1 div d0) = unat n div unat d"
    using long_division [OF pos, of "2 ^ 32" "unat n"] unfolding q(2) by (simp add: n0 n1 d0 unat_div_distrib unat_mod_distrib)
  moreover have "unat n div unat d < 2 ^ 64" using \<open>unat n < 2 ^ 64\<close> by (meson div_le_dividend le_less_trans)
  ultimately have "unat (ucast q + push_bit 32 1 * ucast (n1 div d0) :: 64 word) = unat (n div d)"
    by (simp add: unat_word_ariths push_bit_eq_mult unsigned_ucast_eq take_bit_nat_eq_self unat_div_distrib)
  then have e: "ucast q + push_bit 32 1 * ucast (n1 div d0) = n div d" by (simp only: word_unat_eq_iff)
  have "drop_bit 32 d = 0" using assms(1) by (simp add: word_unat_eq_iff unat_drop_bit)
  moreover have "d0 \<noteq> 0" using d0 pos by (auto simp: unat_eq_0)
  ultimately show ?thesis
    using q(1) e by (simp add: udiv64_def Let_def flip: n1_def n0_def d0_def)
qed

text \<open>
  A divisor of more than 32 bits: dividing by its upper bits, normalised, gives the quotient or one
  more. \<open>w\<close> is the divisor with its lowest \<open>e\<close> bits cleared.
\<close>

lemma quotient_estimate:
  fixes n d w :: nat
  assumes "n < 2 ^ 64" and "w = d div 2 ^ e * 2 ^ e" and "2 ^ (31 + e) \<le> w" and "1 \<le> e" and "e \<le> 32"
  shows "n div d \<le> n div w" and "n div w \<le> n div d + 1"
proof -
  have "d = w + d mod 2 ^ e" unfolding assms(2) by (rule div_mult_mod_eq [symmetric])
  moreover have "d mod 2 ^ e < 2 ^ e" by simp
  moreover have "0 < w" by (rule less_le_trans [OF _ assms(3)]) simp
  ultimately have w: "w \<le> d" "d - w < 2 ^ e" "0 < w" by linarith+
  then show "n div d \<le> n div w" by (simp add: div_le_mono2)
  let ?k = "n div d"
  have "?k * 2 ^ (31 + e) \<le> ?k * d" using assms(3) w(1) by (intro mult_left_mono) simp_all
  also have "\<dots> \<le> n" by simp
  also have "n < 2 ^ (33 - e) * 2 ^ (31 + e)" using assms(1,5) by (simp flip: power_add)
  finally have k: "?k + 1 \<le> 2 ^ (33 - e)" by simp
  have "(?k + 1) * (d - w) \<le> 2 ^ (33 - e) * (2 ^ e - 1)" using k w(2) by (intro mult_mono) simp_all
  also have "\<dots> \<le> 2 ^ (31 + e)"
  proof (cases "e = 1")
    case False
    have "2 ^ (33 - e) * (2 ^ e - 1) \<le> (2 :: nat) ^ (33 - e) * 2 ^ e" by simp
    also have "\<dots> = 2 ^ 33" using assms(5) by (simp flip: power_add)
    also have "\<dots> \<le> 2 ^ (31 + e)" using False assms(4) by (intro power_increasing) simp_all
    finally show ?thesis .
  qed simp
  also note assms(3)
  finally have "(?k + 1) * (d - w) \<le> w" .
  then have "(?k + 1) * d \<le> (?k + 2) * w" using w(1) by (simp add: algebra_simps)
  moreover have "n < (?k + 1) * d"
    using dividend_less_times_div [of d n] w by (simp add: algebra_simps)
  ultimately have "n < (?k + 2) * w" by simp
  then have "n div w < ?k + 2" by (simp add: less_mult_imp_div_less)
  then show "n div w \<le> ?k + 1" by simp
qed

lemma unat_minus_times:
  fixes n d k :: "64 word"
  assumes "unat k * unat d \<le> unat n"
  shows "unat (n - k * d) = unat n - unat k * unat d"
proof -
  have "unat k * unat d < 2 ^ 64" using assms unat64 [of n] by (rule le_less_trans)
  then have "unat (k * d) = unat k * unat d" by (simp add: unat_word_ariths)
  with assms show ?thesis by (simp add: unat_sub word_le_nat_alt)
qed

lemma round_down_quotient:
  fixes n d q :: "64 word"
  assumes "unat q = unat n div unat d \<or> unat q = unat n div unat d + 1" and "d \<le> n" and "d \<noteq> 0"
  shows "(if n - (q - 1) * d < d then q - 1 else q) = n div d"
proof -
  let ?k = "unat n div unat d"
  have d: "0 < unat d" "unat d \<le> unat n" using assms(2,3) by (simp_all add: unat_gt_0 word_le_nat_alt)
  have n: "?k * unat d + unat n mod unat d = unat n" "unat n mod unat d < unat d" using d by simp_all
  have "1 \<le> ?k" using d by (simp add: Suc_le_eq div_greater_zero_iff)
  then have q1: "unat (q - 1) = unat q - 1" using assms(1) by (subst unat_sub) (auto simp: word_le_nat_alt)
  have le: "unat (q - 1) * unat d \<le> unat n"
  proof -
    have "unat (q - 1) \<le> ?k" using assms(1) q1 by auto
    then have "unat (q - 1) * unat d \<le> ?k * unat d" by (rule mult_right_mono) simp
    also have "\<dots> \<le> unat n" using n(1) by linarith
    finally show ?thesis .
  qed
  from assms(1) show ?thesis
  proof
    assume q: "unat q = ?k"
    have "?k * unat d = (?k - 1) * unat d + unat d" using \<open>1 \<le> ?k\<close> by (simp add: diff_mult_distrib)
    then have "\<not> n - (q - 1) * d < d" using unat_minus_times [OF le] n(1) q q1 by (simp add: word_less_nat_alt)
    then show ?thesis using q by (simp add: word_unat_eq_iff unat_div_distrib)
  next
    assume q: "unat q = ?k + 1"
    then have "n - (q - 1) * d < d" using unat_minus_times [OF le] n(2) q1 by (simp add: word_less_nat_alt minus_div_mult_eq_mod)
    then show ?thesis using q q1 by (simp add: word_unat_eq_iff unat_div_distrib)
  qed
qed

text \<open>The divisor after normalisation.\<close>

lemma normalised_divisor:
  fixes d :: "64 word"
  assumes "2 ^ 32 \<le> unat d" and "s = nlz (ucast (drop_bit 32 d) :: 32 word)"
  shows "s \<le> 31" and "unat (ucast (drop_bit 32 (push_bit s d)) :: 32 word) = unat d div 2 ^ (32 - s)"
    and "2 ^ 31 \<le> unat d div 2 ^ (32 - s)"
proof -
  let ?a = "unat d div 2 ^ 32"
  have a: "unat (ucast (drop_bit 32 d) :: 32 word) = ?a"
    using unat64 [of d] by (subst unat_ucast_exact) (simp_all add: unat_drop_bit less_mult_imp_div_less)
  have "(ucast (drop_bit 32 d) :: 32 word) \<noteq> 0"
    unfolding word_unat_eq_iff a using assms(1) by (simp add: div_eq_0_iff)
  note nz = nlz_normalises [OF this, folded assms(2), unfolded a]
  show s: "s \<le> 31" by (rule nz(3))
  have p: "(2 :: nat) ^ 32 = 2 ^ (32 - s) * 2 ^ s" using s by (simp flip: power_add)
  have "?a * 2 ^ s < 2 ^ (32 - s) * 2 ^ s" using nz(2) unfolding p .
  then have "?a + 1 \<le> 2 ^ (32 - s)" by simp
  then have "(?a + 1) * 2 ^ s \<le> 2 ^ (32 - s) * 2 ^ s" by (rule mult_right_mono) simp
  then have up: "(?a + 1) * 2 ^ s \<le> 2 ^ 32" unfolding p .
  have "unat d < 2 ^ 32 * (?a + 1)" using dividend_less_times_div [of "2 ^ 32" "unat d"] by simp
  then have "unat d * 2 ^ s < 2 ^ 32 * (?a + 1) * 2 ^ s" by (rule mult_strict_right_mono) simp
  also have "\<dots> \<le> 2 ^ 32 * 2 ^ 32" unfolding mult.assoc using up by (rule mult_left_mono) simp
  finally have lt: "unat d * 2 ^ s < 2 ^ 64" by simp
  then have "unat (push_bit s d) = unat d * 2 ^ s" by (simp add: unat_push_bit_exact)
  then have "unat (drop_bit 32 (push_bit s d)) = unat d * 2 ^ s div (2 ^ (32 - s) * 2 ^ s)"
    by (simp only: unat_drop_bit flip: p)
  also have v: "\<dots> = unat d div 2 ^ (32 - s)" by (rule div_mult_mult2) simp
  finally have dv: "unat (drop_bit 32 (push_bit s d)) = unat d div 2 ^ (32 - s)" .
  have "unat d div 2 ^ (32 - s) < 2 ^ 32" using lt unfolding v [symmetric] p [symmetric] by (simp add: less_mult_imp_div_less)
  then show "unat (ucast (drop_bit 32 (push_bit s d)) :: 32 word) = unat d div 2 ^ (32 - s)"
    using dv by (subst unat_ucast_exact) simp_all
  have "2 ^ 32 * 2 ^ 31 \<le> 2 ^ 32 * (?a * 2 ^ s)" using nz(1) by (rule mult_left_mono) simp
  also have "\<dots> \<le> unat d * 2 ^ s" using times_div_less_eq_dividend [of "2 ^ 32" "unat d"] by (simp flip: mult.assoc)
  finally have "2 ^ 31 \<le> unat d * 2 ^ s div 2 ^ 32" by (simp add: less_eq_div_iff_mult_less_eq)
  then show "2 ^ 31 \<le> unat d div 2 ^ (32 - s)" unfolding v [symmetric] p [symmetric] .
qed

lemma udiv64_long:
  assumes "2 ^ 32 \<le> unat d"
  shows "udiv64 n d = Some (n div d)"
proof -
  have big: "drop_bit 32 d \<noteq> 0" using assms by (simp add: word_unat_eq_iff unat_drop_bit div_eq_0_iff not_less)
  define s where "s = nlz (ucast (drop_bit 32 d) :: 32 word)"
  define v where "v = (ucast (drop_bit 32 (push_bit s d)) :: 32 word)"
  note nd = normalised_divisor [OF assms s_def, folded v_def]
  show ?thesis
  proof (cases "n < d")
    case True
    with big show ?thesis by (simp add: udiv64_def word_unat_eq_iff unat_div_distrib word_less_nat_alt)
  next
    case False
    have n: "unat n < 2 ^ 64" by (rule unat64)
    have "unat (drop_bit 1 n) < 2 ^ 32 * 2 ^ 31" using n by (simp add: unat_drop_bit less_mult_imp_div_less)
    also have "\<dots> \<le> 2 ^ 32 * unat v" using nd(2,3) by (intro mult_left_mono) simp_all
    finally obtain q0 where q0: "divl (drop_bit 1 n) v = Some q0" "unat q0 = unat n div 2 div unat v"
      using divl_Some [of "drop_bit 1 n" v] by (auto simp: unat_drop_bit)
    let ?q = "ucast (drop_bit (31 - s) q0) :: 64 word" and ?e = "32 - s"
    let ?w = "unat d div 2 ^ ?e * 2 ^ ?e"
    have e: "?e = Suc (31 - s)" using nd(1) by simp
    have "unat ?q = unat n div 2 div unat v div 2 ^ (31 - s)"
      by (simp add: unat_ucast_up unat_drop_bit q0(2))
    also have "\<dots> = unat n div ?w"
      unfolding nd(2) e by (simp add: div_mult2_eq [symmetric] ac_simps)
    finally have q: "unat ?q = unat n div ?w" .
    have w: "2 ^ (31 + ?e) \<le> ?w" using nd(3) by (simp add: power_add)
    have "1 \<le> ?e" "?e \<le> 32" using nd(1) by auto
    from quotient_estimate [OF n refl w this] have "unat ?q = unat n div unat d \<or> unat ?q = unat n div unat d + 1"
      unfolding q by linarith
    moreover have "d \<le> n" "d \<noteq> 0" using False big by auto
    ultimately have "(if n - (?q - 1) * d < d then ?q - 1 else ?q) = n div d" by (rule round_down_quotient)
    then show ?thesis
      using False big q0(1) by (simp add: udiv64_def Let_def cong: if_cong split del: if_split flip: s_def v_def)
  qed
qed

lemma udiv64_eq: "d \<noteq> 0 \<Longrightarrow> udiv64 n d = Some (n div d)"
  by (cases "unat d < 2 ^ 32") (simp_all add: udiv64_short udiv64_long)

lemma udiv64_zero: "udiv64 n 0 = None"
  by (simp add: udiv64_def)

section \<open>Signed division and remainders\<close>

lemma uint_abs64:
  fixes x :: "64 word"
  shows "uint (if 0 \<le>s x then x else - x) = \<bar>sint x\<bar>"
proof -
  have b: "- (2 ^ 63) \<le> sint x" "sint x < 2 ^ 63" using sint_ge [of x] sint_lt [of x] by simp_all
  have "(if 0 \<le>s x then x else - x) = word_of_int \<bar>sint x\<bar>" by (simp add: word_sle_eq)
  also have "uint \<dots> = \<bar>sint x\<bar>" using b by (simp add: unsigned_of_int take_bit_int_eq_self)
  finally show ?thesis .
qed

lemma sint_zero: "sint (x :: 64 word) = 0 \<longleftrightarrow> x = 0"
  by (rule signed_eq_0_iff)

lemma sdiv64_eq:
  assumes "d \<noteq> 0"
  shows "sdiv64 n d = Some (word_of_int (sint n sdiv sint d))"
proof -
  let ?n = "if 0 \<le>s n then n else - n" and ?d = "if 0 \<le>s d then d else - d"
  have "?n div ?d = word_of_int (uint ?n div uint ?d)" by (simp only: word_div_def)
  then have q: "?n div ?d = word_of_int (\<bar>sint n\<bar> div \<bar>sint d\<bar>)" unfolding uint_abs64 .
  have "?d \<noteq> 0" using assms by auto
  then have "sdiv64 n d = Some (if (n <s 0) = (d <s 0) then ?n div ?d else - (?n div ?d))"
    by (simp add: sdiv64_def Let_def udiv64_eq split del: if_split)
  moreover have "sint d \<noteq> 0" using assms sint_zero [of d] by auto
  ultimately show ?thesis
    unfolding q by (auto simp: word_sless_alt signed_divide_int_def sgn_if)
qed

lemma ucast_down_up: "(ucast (ucast (x :: 64 word) :: 32 word) :: 64 word) = take_bit 32 x"
  by (simp add: word_unat_eq_iff unat_ucast_up unsigned_ucast_eq unsigned_take_bit_eq)

lemma umoddi3_eq: "d \<noteq> 0 \<Longrightarrow> umoddi3 n d = Some (take_bit 32 (n mod d))"
  by (simp add: umoddi3_def umod64_def udiv64_eq minus_mult_div_eq_mod ucast_down_up)

lemma moddi3_eq:
  assumes "d \<noteq> 0"
  shows "moddi3 n d = Some (word_of_int (signed_take_bit 31 (sint n smod sint d)))"
proof -
  have "n - d * word_of_int (sint n sdiv sint d) = word_of_int (sint n - sint d * (sint n sdiv sint d))"
    by (simp del: of_int_mult add: of_int_mult)
  also have "\<dots> = word_of_int (sint n smod sint d)" by (simp only: minus_mult_sdiv_eq_smod)
  finally show ?thesis
    by (simp add: moddi3_def smod64_def sdiv64_eq [OF assms] unsigned_of_int signed_of_int signed_take_bit_take_bit)
qed

text \<open>
  C19. The 64-bit division routines are exact. \<^verbatim>\<open>__udivdi3\<close>, built from 32-bit divisions and, for a
  divisor of more than 32 bits, from an estimate by the normalised upper half of the divisor, returns
  the quotient for every dividend and every divisor but 0 and never makes \<^verbatim>\<open>DIVL\<close> trap;
  \<^verbatim>\<open>__divdi3\<close> returns the quotient rounded towards zero, modulo \<open>2 ^ 64\<close> (which matters for
  the least integer divided by \<open>-1\<close> only). A division by zero traps. Signed arithmetic is that of a
  compiler that lets it wrap: the C standard leaves the negation of the least integer undefined, which
  \<^verbatim>\<open>sdiv64\<close> performs when it divides the least integer by 1.
\<close>

theorem division_exact:
  "udivdi3 n d = (if d = 0 then None else Some (n div d))
   \<and> divdi3 n d = (if d = 0 then None else Some (word_of_int (sint n sdiv sint d)))"
  by (auto simp: udivdi3_def divdi3_def udiv64_eq udiv64_zero sdiv64_eq) (simp add: sdiv64_def udiv64_zero Let_def)

text \<open>
  C38. The 64-bit remainder routines lose the upper half of the remainder, since \<^verbatim>\<open>umod64\<close> and
  \<^verbatim>\<open>smod64\<close> are declared with a 32-bit result: \<^verbatim>\<open>__umoddi3\<close> returns the remainder modulo
  \<open>2 ^ 32\<close>. So it is right exactly when the remainder is below \<open>2 ^ 32\<close>, and \<^verbatim>\<open>__moddi3\<close>
  exactly when the remainder is in the range of a 32-bit integer.
\<close>

theorem remainder_truncated:
  "umoddi3 n d = (if d = 0 then None else Some (take_bit 32 (n mod d)))
   \<and> (umoddi3 n d = Some (n mod d)) = (d \<noteq> 0 \<and> n mod d < 2 ^ 32)
   \<and> (moddi3 n d = Some (word_of_int (sint n smod sint d)))
       = (d \<noteq> 0 \<and> sint n smod sint d \<in> {- (2 ^ 31)..<2 ^ 31})"
proof (cases "d = 0")
  case True
  then show ?thesis by (simp add: umoddi3_def umod64_def moddi3_def smod64_def sdiv64_def udiv64_zero Let_def)
next
  case False
  let ?m = "sint n smod sint d"
  have u: "take_bit 32 (n mod d) = n mod d \<longleftrightarrow> n mod d < 2 ^ 32"
    by (simp add: word_unat_eq_iff word_less_nat_alt unsigned_take_bit_eq take_bit_nat_eq_self_iff)
  have "\<bar>sint d\<bar> \<le> 2 ^ 63" using sint_ge [of d] sint_lt [of d] by simp
  then have m: "- (2 ^ 63) \<le> ?m" "?m < 2 ^ 63" using smod_int_range [of "sint d" "sint n"] False sint_zero [of d] by auto
  have "(word_of_int (signed_take_bit 31 ?m) = (word_of_int ?m :: 64 word)) \<longleftrightarrow> signed_take_bit 31 ?m = ?m"
  proof
    assume "word_of_int (signed_take_bit 31 ?m) = (word_of_int ?m :: 64 word)"
    then have "sint (word_of_int (signed_take_bit 31 ?m) :: 64 word) = sint (word_of_int ?m :: 64 word)" by (rule arg_cong)
    then show "signed_take_bit 31 ?m = ?m" using m by (simp add: signed_of_int signed_take_bit_int_eq_self)
  qed simp
  also have "\<dots> \<longleftrightarrow> ?m \<in> {- (2 ^ 31)..<2 ^ 31}" by (simp add: signed_take_bit_int_eq_self_iff)
  finally show ?thesis using False u by (simp add: umoddi3_eq moddi3_eq)
qed

end
