(* ===== verification/Pintos_Stdlib.thy ===== *)
theory Pintos_Stdlib
  imports Pintos_Base "HOL-Library.Multiset"
begin

text \<open>
  \<^verbatim>\<open>lib/stdlib.c\<close> and the part of \<^verbatim>\<open>lib/ctype.h\<close> it uses (Pintos): \<^verbatim>\<open>atoi\<close>, the heap
  sort \<^verbatim>\<open>sort\<close> and \<^verbatim>\<open>binary_search\<close>. An array of \<open>cnt\<close> elements of \<open>sz\<close> bytes is its
  bytes; an access beyond them and a failed \<^verbatim>\<open>ASSERT\<close> are \<open>None\<close>, and so is an overflow of the
  \<^verbatim>\<open>int\<close> of \<^verbatim>\<open>atoi\<close>, which C leaves undefined. The comparison function with its auxiliary
  data is a parameter, a function of the bytes of two elements. Indices are of type \<^verbatim>\<open>size_t\<close> and
  their arithmetic wraps.
\<close>

section \<open>Numbers\<close>

definition isdigit :: "char \<Rightarrow> bool" where
  "isdigit c \<longleftrightarrow> of_char c \<ge> (48 :: nat) \<and> of_char c \<le> (57 :: nat)"

definition isspace :: "char \<Rightarrow> bool" where
  "isspace c \<longleftrightarrow> c = CHR '' '' \<or> c = CHR 0x0C \<or> c = CHR 0x0A \<or> c = CHR 0x0D \<or> c = CHR 0x09 \<or> c = CHR 0x0B"

definition int_ok :: "int \<Rightarrow> int option" where
  "int_ok i = (if - (2 ^ 31) \<le> i \<and> i < 2 ^ 31 then Some i else None)"

text \<open>The string is what is left of it; at its end \<^verbatim>\<open>*s\<close> is the zero byte, which ends each loop.\<close>

fun skip_space :: "string \<Rightarrow> string" where
  "skip_space [] = []"
| "skip_space (c # s) = (if isspace c then skip_space s else c # s)"

fun parse_digits :: "string \<Rightarrow> int \<Rightarrow> int option" where
  "parse_digits [] v = Some v"
| "parse_digits (c # s) v =
     (if isdigit c then do {
        v10 \<leftarrow> int_ok (v * 10);
        v' \<leftarrow> int_ok (v10 - (of_char c - 48));
        parse_digits s v' }
      else Some v)"

definition atoi :: "string \<Rightarrow> int option" where
  "atoi s =
     (let s = skip_space s;
          (neg, s) = (case s of [] \<Rightarrow> (False, s)
                      | c # t \<Rightarrow> if c = CHR ''+'' then (False, t) else if c = CHR ''-'' then (True, t) else (False, s))
      in do {
           v \<leftarrow> parse_digits s 0;
           if \<not> neg then int_ok (- v) else Some v
         })"

section \<open>Sorting\<close>

type_synonym cmp = "bytes \<Rightarrow> bytes \<Rightarrow> int"

definition compare_thunk :: "bytes \<Rightarrow> bytes \<Rightarrow> cmp \<Rightarrow> int" where
  "compare_thunk a b compare = compare a b"

function swap_loop :: "nat \<Rightarrow> nat \<Rightarrow> nat \<Rightarrow> nat \<Rightarrow> bytes \<Rightarrow> bytes option" where
  "swap_loop i sz a b array =
     (if i < sz then do {
        _ \<leftarrow> ASSERT (a + i < length array \<and> b + i < length array);
        (let t = array ! (a + i);
             array = array[a + i := array ! (b + i)]
         in swap_loop (i + 1) sz a b (array[b + i := t])) }
      else Some array)"

  by pat_completeness auto

termination swap_loop
  by (relation "measure (\<lambda>(i, sz, a, b, array). sz - i)") auto

declare swap_loop.simps [simp del]

definition do_swap :: "bytes \<Rightarrow> nat \<Rightarrow> nat \<Rightarrow> nat \<Rightarrow> bytes option" where
  "do_swap array a_idx b_idx sz =
     swap_loop 0 sz (szt ((a_idx - 1) * sz)) (szt ((b_idx - 1) * sz)) array"

definition elem_at :: "bytes \<Rightarrow> nat \<Rightarrow> nat \<Rightarrow> bytes option" where
  "elem_at array sz p = do { _ \<leftarrow> ASSERT (p + sz \<le> length array); Some (take sz (drop p array)) }"

definition do_compare :: "bytes \<Rightarrow> nat \<Rightarrow> nat \<Rightarrow> nat \<Rightarrow> cmp \<Rightarrow> int option" where
  "do_compare array a_idx b_idx sz compare = do {
     a \<leftarrow> elem_at array sz (szt ((a_idx - 1) * sz));
     b \<leftarrow> elem_at array sz (szt ((b_idx - 1) * sz));
     Some (compare a b) }"

partial_function (option) heapify :: "bytes \<Rightarrow> nat \<Rightarrow> nat \<Rightarrow> nat \<Rightarrow> cmp \<Rightarrow> bytes option" where
  [code]: "heapify array i cnt sz compare =
     (let left = szt (2 * i); right = szt (2 * i + 1); mx = i in do {
        mx \<leftarrow> (if left \<le> cnt then do { c \<leftarrow> do_compare array left mx sz compare; Some (if c > 0 then left else mx) }
               else Some mx);
        mx \<leftarrow> (if right \<le> cnt then do { c \<leftarrow> do_compare array right mx sz compare; Some (if c > 0 then right else mx) }
               else Some mx);
        if mx = i then Some array
        else do { array \<leftarrow> do_swap array i mx sz; heapify array mx cnt sz compare } })"

fun build_heap :: "nat \<Rightarrow> bytes \<Rightarrow> nat \<Rightarrow> nat \<Rightarrow> cmp \<Rightarrow> bytes option" where
  "build_heap i array cnt sz compare =
     (if i > 0 then do { array \<leftarrow> heapify array i cnt sz compare; build_heap (i - 1) array cnt sz compare }
      else Some array)"

fun sort_heap :: "nat \<Rightarrow> bytes \<Rightarrow> nat \<Rightarrow> cmp \<Rightarrow> bytes option" where
  "sort_heap i array sz compare =
     (if i > 1 then do {
        array \<leftarrow> do_swap array 1 i sz;
        array \<leftarrow> heapify array 1 (i - 1) sz compare;
        sort_heap (i - 1) array sz compare }
      else Some array)"

declare build_heap.simps [simp del] sort_heap.simps [simp del]

definition sort_c :: "bytes \<Rightarrow> nat \<Rightarrow> nat \<Rightarrow> cmp \<Rightarrow> bytes option" where
  "sort_c array cnt sz compare = do {
     _ \<leftarrow> ASSERT (sz > 0);
     array \<leftarrow> build_heap (cnt div 2) array cnt sz compare;
     sort_heap cnt array sz compare }"

definition qsort :: "bytes \<Rightarrow> nat \<Rightarrow> nat \<Rightarrow> cmp \<Rightarrow> bytes option" where
  "qsort array cnt sz compare = sort_c array cnt sz (\<lambda>a b. compare_thunk a b compare)"

section \<open>Searching\<close>

text \<open>Pointers into the array are offsets from its start; \<open>Some None\<close> is the null pointer.\<close>

partial_function (option) search_loop :: "bytes \<Rightarrow> bytes \<Rightarrow> nat \<Rightarrow> cmp \<Rightarrow> nat \<Rightarrow> nat \<Rightarrow> nat option option" where
  [code]: "search_loop key array sz compare first lst =
     (if first < lst then do {
        _ \<leftarrow> ASSERT (sz > 0);
        (let range = (lst - first) div sz;
             middle = first + (range div 2) * sz
         in do {
              m \<leftarrow> elem_at array sz middle;
              (let c = compare key m in
               if c < 0 then search_loop key array sz compare first middle
               else if c > 0 then search_loop key array sz compare (middle + sz) lst
               else Some (Some middle)) }) }
      else Some None)"

definition binary_search :: "bytes \<Rightarrow> bytes \<Rightarrow> nat \<Rightarrow> nat \<Rightarrow> cmp \<Rightarrow> nat option option" where
  "binary_search key array cnt sz compare = search_loop key array sz compare 0 (szt (sz * cnt))"

definition bsearch :: "bytes \<Rightarrow> bytes \<Rightarrow> nat \<Rightarrow> nat \<Rightarrow> cmp \<Rightarrow> nat option option" where
  "bsearch key array cnt sz compare = binary_search key array cnt sz (\<lambda>a b. compare_thunk a b compare)"

section \<open>Arrays as lists of elements\<close>

text \<open>The array that holds the elements \<open>xs\<close>, each of \<open>sz\<close> bytes.\<close>

definition elems :: "nat \<Rightarrow> bytes list \<Rightarrow> bool" where
  "elems sz xs \<longleftrightarrow> 0 < sz \<and> (\<forall>x \<in> set xs. length x = sz) \<and> length xs * sz < 2 ^ 32"

lemma length_concat_elems: "\<forall>x \<in> set xs. length x = sz \<Longrightarrow> length (concat xs) = length xs * sz"
  by (induction xs) auto

lemma nth_concat_elems:
  "\<forall>x \<in> set xs. length x = sz \<Longrightarrow> k < length xs \<Longrightarrow> i < sz \<Longrightarrow> concat xs ! (k * sz + i) = xs ! k ! i"
proof (induction xs arbitrary: k)
  case (Cons x xs)
  then show ?case by (cases k) (auto simp: nth_append)
qed simp

lemma take_drop_concat:
  "\<forall>x \<in> set xs. length x = sz \<Longrightarrow> k < length xs \<Longrightarrow> take sz (drop (k * sz) (concat xs)) = xs ! k"
proof (induction xs arbitrary: k)
  case (Cons x xs)
  then show ?case by (cases k) auto
qed simp

lemma offset_bound: "k < (n :: nat) \<Longrightarrow> k * sz + sz \<le> n * sz"
  by (metis add.commute mult_Suc mult_le_mono1 Suc_leI)

lemma elem_at_concat:
  assumes "elems sz xs" and "k < length xs"
  shows "elem_at (concat xs) sz (k * sz) = Some (xs ! k)" and "szt (k * sz) = k * sz"
proof -
  have "k * sz + sz \<le> length xs * sz" by (rule offset_bound [OF assms(2)])
  moreover have "length (concat xs) = length xs * sz" using assms(1) by (simp add: elems_def length_concat_elems)
  ultimately show "elem_at (concat xs) sz (k * sz) = Some (xs ! k)"
    using assms by (simp add: elem_at_def elems_def take_drop_concat)
  have "k * sz < 2 ^ 32" using \<open>k * sz + sz \<le> length xs * sz\<close> assms(1) by (simp add: elems_def)
  then show "szt (k * sz) = k * sz" by simp
qed

lemma do_compare_concat:
  assumes "elems sz xs" and "0 < a" "a \<le> length xs" and "0 < b" "b \<le> length xs"
  shows "do_compare (concat xs) a b sz compare = Some (compare (xs ! (a - 1)) (xs ! (b - 1)))"
  using assms by (simp add: do_compare_def elem_at_concat)

text \<open>The bytes after a swap of two regions that do not overlap, from byte \<open>i\<close> of each on.\<close>

definition bytes_swapped :: "nat \<Rightarrow> nat \<Rightarrow> nat \<Rightarrow> nat \<Rightarrow> bytes \<Rightarrow> bytes \<Rightarrow> bool" where
  "bytes_swapped i sz a b xs ys \<longleftrightarrow> length ys = length xs \<and>
     (\<forall>k < length xs. ys ! k = (if a + i \<le> k \<and> k < a + sz then xs ! (b + (k - a))
                              else if b + i \<le> k \<and> k < b + sz then xs ! (a + (k - b)) else xs ! k))"

lemma swap_byte:
  assumes "a + sz \<le> length xs" and "b + sz \<le> length xs" and dis: "a + sz \<le> b \<or> b + sz \<le> a"
    and i: "i < sz" and k: "k < length xs" and xs': "xs' = xs[a + i := xs ! (b + i), b + i := xs ! (a + i)]"
  shows "(if a + (i + 1) \<le> k \<and> k < a + sz then xs' ! (b + (k - a))
          else if b + (i + 1) \<le> k \<and> k < b + sz then xs' ! (a + (k - b)) else xs' ! k)
       = (if a + i \<le> k \<and> k < a + sz then xs ! (b + (k - a))
          else if b + i \<le> k \<and> k < b + sz then xs ! (a + (k - b)) else xs ! k)"
proof -
  have other: "xs' ! j = xs ! j" if "j \<noteq> a + i" "j \<noteq> b + i" for j using that by (simp add: xs')
  have ab: "xs' ! (a + i) = xs ! (b + i)" "xs' ! (b + i) = xs ! (a + i)"
    using assms(1-4) by (auto simp: xs' nth_list_update)
  consider "k = a + i" | "k = b + i" | "a + (i + 1) \<le> k" "k < a + sz" | "b + (i + 1) \<le> k" "k < b + sz"
    | "\<not> (a + i \<le> k \<and> k < a + sz)" "\<not> (b + i \<le> k \<and> k < b + sz)" by linarith
  then show ?thesis
  proof cases
    case 1
    with ab(1) dis i show ?thesis by auto
  next
    case 2
    with ab(2) dis i show ?thesis by auto
  next
    case 3
    then have "b + (k - a) \<noteq> a + i" "b + (k - a) \<noteq> b + i" using dis i by arith+
    from other [OF this] 3 show ?thesis by simp
  next
    case 4
    then have "a + (k - b) \<noteq> a + i" "a + (k - b) \<noteq> b + i" using dis i by arith+
    from other [OF this] 4 dis show ?thesis by auto
  next
    case 5
    then have "k \<noteq> a + i" "k \<noteq> b + i" using i by auto
    from other [OF this] 5 show ?thesis by auto
  qed
qed

lemma swap_loop_bytes:
  assumes "a + sz \<le> length xs" and "b + sz \<le> length xs" and "a + sz \<le> b \<or> b + sz \<le> a" and "i \<le> sz"
  shows "\<exists>ys. swap_loop i sz a b xs = Some ys \<and> bytes_swapped i sz a b xs ys"
  using assms
proof (induction i sz a b xs rule: swap_loop.induct)
  case (1 i sz a b xs)
  show ?case
  proof (cases "i < sz")
    case True
    let ?xs = "xs[a + i := xs ! (b + i), b + i := xs ! (a + i)]"
    have "\<exists>ys. swap_loop (i + 1) sz a b ?xs = Some ys \<and> bytes_swapped (i + 1) sz a b ?xs ys"
      using 1(1) [OF True _ refl refl, of "()"] 1(2-) True by simp
    then obtain ys where ys: "swap_loop (i + 1) sz a b ?xs = Some ys" "bytes_swapped (i + 1) sz a b ?xs ys" by blast
    have "swap_loop i sz a b xs = Some ys"
      using ys(1) True 1(2,3) by (subst swap_loop.simps) (simp add: Let_def)
    moreover have "bytes_swapped i sz a b xs ys"
      unfolding bytes_swapped_def
    proof (intro conjI allI impI)
      fix k assume k: "k < length xs"
      have "ys ! k = (if a + (i + 1) \<le> k \<and> k < a + sz then ?xs ! (b + (k - a))
                      else if b + (i + 1) \<le> k \<and> k < b + sz then ?xs ! (a + (k - b)) else ?xs ! k)"
        using ys(2) k by (simp add: bytes_swapped_def)
      also have "\<dots> = (if a + i \<le> k \<and> k < a + sz then xs ! (b + (k - a))
                      else if b + i \<le> k \<and> k < b + sz then xs ! (a + (k - b)) else xs ! k)"
        by (rule swap_byte [OF 1(2-4) True k refl])
      finally show "ys ! k = \<dots>" .
    qed (use ys(2) in \<open>simp add: bytes_swapped_def\<close>)
    ultimately show ?thesis by blast
  next
    case False
    with 1(5) show ?thesis by (intro exI [of _ xs]) (auto simp: swap_loop.simps bytes_swapped_def)
  qed
qed

definition swap_elems :: "nat \<Rightarrow> nat \<Rightarrow> 'a list \<Rightarrow> 'a list" where
  "swap_elems a b xs = xs[a := xs ! b, b := xs ! a]"

lemma length_swap_elems [simp]: "length (swap_elems a b xs) = length xs"
  by (simp add: swap_elems_def)

lemma set_swap_elems: "a < length xs \<Longrightarrow> b < length xs \<Longrightarrow> set (swap_elems a b xs) = set xs"
  unfolding swap_elems_def by (rule set_swap)

lemma nth_swap_elems:
  "a < length xs \<Longrightarrow> b < length xs \<Longrightarrow> k < length xs \<Longrightarrow>
     swap_elems a b xs ! k = (if k = b then xs ! a else if k = a then xs ! b else xs ! k)"
  by (simp add: swap_elems_def nth_list_update)

lemma elems_swap: "elems sz xs \<Longrightarrow> a < length xs \<Longrightarrow> b < length xs \<Longrightarrow> elems sz (swap_elems a b xs)"
  by (simp add: elems_def set_swap_elems)

lemma region_index:
  fixes k a sz :: nat
  assumes "0 < sz"
  shows "a * sz \<le> k \<and> k < a * sz + sz \<longleftrightarrow> k div sz = a"
  using assms by (auto simp: div_nat_eqI mult.commute) (metis div_times_less_eq_dividend dividend_less_div_times mult.commute add.commute)+

lemma bytes_swapped_concat:
  assumes "elems sz xs" and "a < length xs" and "b < length xs" and "bytes_swapped 0 sz (a * sz) (b * sz) (concat xs) ys"
  shows "ys = concat (swap_elems a b xs)"
proof (rule nth_equalityI)
  have sz: "0 < sz" "\<forall>x \<in> set xs. length x = sz" using assms(1) by (simp_all add: elems_def)
  have sw: "\<forall>x \<in> set (swap_elems a b xs). length x = sz" using sz(2) assms(2,3) by (simp add: set_swap_elems)
  have len: "length (concat xs) = length xs * sz" by (rule length_concat_elems [OF sz(2)])
  show "length ys = length (concat (swap_elems a b xs))"
    using assms(4) by (simp add: bytes_swapped_def len length_concat_elems [OF sw])
  fix p assume "p < length ys"
  then have p: "p < length xs * sz" using assms(4) len by (simp add: bytes_swapped_def)
  let ?k = "p div sz" and ?r = "p mod sz"
  have k: "?k < length xs" "?r < sz" "p = ?k * sz + ?r" using p sz(1) by (simp_all add: less_mult_imp_div_less)
  have "concat (swap_elems a b xs) ! p = swap_elems a b xs ! ?k ! ?r"
    using nth_concat_elems [OF sw _ k(2), of ?k] k(1,3) by simp
  moreover have "ys ! p = (if ?k = a then concat xs ! (b * sz + (p - a * sz))
      else if ?k = b then concat xs ! (a * sz + (p - b * sz)) else concat xs ! p)"
    using assms(4) p len region_index [OF sz(1), of a p] region_index [OF sz(1), of b p] by (auto simp: bytes_swapped_def)
  moreover have "concat xs ! (c * sz + ?r) = xs ! c ! ?r" if "c < length xs" for c
    by (rule nth_concat_elems [OF sz(2) that k(2)])
  moreover from this [OF k(1)] have "concat xs ! p = xs ! ?k ! ?r" by simp
  moreover have "p - ?k * sz = ?r" by (rule minus_div_mult_eq_mod)
  ultimately show "ys ! p = concat (swap_elems a b xs) ! p"
    using assms(2,3) k(1,3) by (auto simp: nth_swap_elems)
qed

lemma do_swap_concat:
  assumes "elems sz xs" and "0 < a" "a \<le> length xs" and "0 < b" "b \<le> length xs" and "a \<noteq> b"
  shows "do_swap (concat xs) a b sz = Some (concat (swap_elems (a - 1) (b - 1) xs))"
proof -
  let ?a = "a - 1" and ?b = "b - 1"
  have ab: "?a < length xs" "?b < length xs" using assms by auto
  have len: "length (concat xs) = length xs * sz" using assms(1) by (simp add: elems_def length_concat_elems)
  have "?a < ?b \<or> ?b < ?a" using assms by arith
  then have "?a * sz + sz \<le> ?b * sz \<or> ?b * sz + sz \<le> ?a * sz" using offset_bound [of ?a ?b sz] offset_bound [of ?b ?a sz] by blast
  then obtain ys where "swap_loop 0 sz (?a * sz) (?b * sz) (concat xs) = Some ys" "bytes_swapped 0 sz (?a * sz) (?b * sz) (concat xs) ys"
    using swap_loop_bytes [of "?a * sz" sz "concat xs" "?b * sz" 0] offset_bound [OF ab(1), of sz] offset_bound [OF ab(2), of sz] len by auto
  then show ?thesis
    using bytes_swapped_concat [OF assms(1) ab] elem_at_concat(2) [OF assms(1) ab(1)] elem_at_concat(2) [OF assms(1) ab(2)]
    by (simp add: do_swap_def)
qed

section \<open>Heaps in an array\<close>

text \<open>A comparison function that orders the elements by a key.\<close>

definition by_key :: "cmp \<Rightarrow> (bytes \<Rightarrow> 'k :: linorder) \<Rightarrow> bool" where
  "by_key compare key \<longleftrightarrow> (\<forall>x y. (0 < compare x y \<longleftrightarrow> key y < key x) \<and> (compare x y < 0 \<longleftrightarrow> key x < key y))"

lemma by_key_thunk: "by_key compare key \<Longrightarrow> by_key (\<lambda>a b. compare_thunk a b compare) key"
  by (simp add: by_key_def compare_thunk_def)

text \<open>Elements are counted from 1, as in the code; the children of \<open>k\<close> are \<open>2 k\<close> and \<open>2 k + 1\<close>.\<close>

abbreviation key_at :: "(bytes \<Rightarrow> 'k) \<Rightarrow> bytes list \<Rightarrow> nat \<Rightarrow> 'k" where
  "key_at key xs k \<equiv> key (xs ! (k - 1))"

definition child :: "nat \<Rightarrow> nat \<Rightarrow> bool" where
  "child k c \<longleftrightarrow> c = 2 * k \<or> c = 2 * k + 1"

definition heap_from :: "(bytes \<Rightarrow> 'k :: linorder) \<Rightarrow> nat \<Rightarrow> nat \<Rightarrow> bytes list \<Rightarrow> bool" where
  "heap_from key lo n xs \<longleftrightarrow> (\<forall>k c. lo \<le> k \<longrightarrow> child k c \<longrightarrow> c \<le> n \<longrightarrow> key_at key xs c \<le> key_at key xs k)"

text \<open>A heap but for the element \<open>i\<close>, which may be smaller than its children.\<close>

definition heap_but :: "(bytes \<Rightarrow> 'k :: linorder) \<Rightarrow> nat \<Rightarrow> nat \<Rightarrow> nat \<Rightarrow> bytes list \<Rightarrow> bool" where
  "heap_but key lo i n xs \<longleftrightarrow>
     (\<forall>k c. lo \<le> k \<longrightarrow> k \<noteq> i \<longrightarrow> child k c \<longrightarrow> c \<le> n \<longrightarrow> key_at key xs c \<le> key_at key xs k)
     \<and> (\<forall>p c. lo \<le> p \<longrightarrow> child p i \<longrightarrow> child i c \<longrightarrow> c \<le> n \<longrightarrow> key_at key xs c \<le> key_at key xs p)"

definition largest :: "(bytes \<Rightarrow> 'k :: linorder) \<Rightarrow> nat \<Rightarrow> nat \<Rightarrow> bytes list \<Rightarrow> nat" where
  "largest key i n xs =
     (let m = (if 2 * i \<le> n \<and> key_at key xs i < key_at key xs (2 * i) then 2 * i else i)
      in if 2 * i + 1 \<le> n \<and> key_at key xs m < key_at key xs (2 * i + 1) then 2 * i + 1 else m)"

lemma largest_cases:
  obtains "largest key i n xs = i" and "\<And>c. child i c \<Longrightarrow> c \<le> n \<Longrightarrow> key_at key xs c \<le> key_at key xs i"
  | m where "largest key i n xs = m" and "child i m" and "m \<le> n" and "key_at key xs i < key_at key xs m"
    and "\<And>c. child i c \<Longrightarrow> c \<le> n \<Longrightarrow> key_at key xs c \<le> key_at key xs m"
proof -
  let ?m = "largest key i n xs"
  have ch: "key_at key xs c \<le> key_at key xs ?m" if "child i c" "c \<le> n" for c
    using that unfolding largest_def child_def Let_def by (auto split: if_splits)
  have "?m = i \<or> child i ?m \<and> ?m \<le> n \<and> key_at key xs i < key_at key xs ?m"
    unfolding largest_def child_def Let_def by (auto split: if_splits)
  with ch that show thesis by metis
qed

lemma heapify_step:
  assumes "elems sz xs" and "by_key compare key" and "0 < i" "i \<le> n" "n \<le> length xs" and "length xs < 2 ^ 31"
  shows "heapify (concat xs) i n sz compare =
    (if largest key i n xs = i then Some (concat xs)
     else heapify (concat (swap_elems (i - 1) (largest key i n xs - 1) xs)) (largest key i n xs) n sz compare)"
proof -
  have idx: "szt (2 * i) = 2 * i" "szt (2 * i + 1) = 2 * i + 1" using assms(4-6) by simp_all
  have cmp: "do_compare (concat xs) c m sz compare = Some (compare (xs ! (c - 1)) (xs ! (m - 1)))"
    if "0 < c" "c \<le> n" "0 < m" "m \<le> n" for c m
    using that assms(5) by (intro do_compare_concat [OF assms(1)]) auto
  have pos: "0 < compare (xs ! a) (xs ! b) \<longleftrightarrow> key (xs ! b) < key (xs ! a)" for a b
    using assms(2) by (simp add: by_key_def)
  define m1 where "m1 = (if 2 * i \<le> n \<and> key_at key xs i < key_at key xs (2 * i) then 2 * i else i)"
  define m2 where "m2 = (if 2 * i + 1 \<le> n \<and> key_at key xs m1 < key_at key xs (2 * i + 1) then 2 * i + 1 else m1)"
  have m1: "0 < m1" "m1 \<le> n" using assms(3,4) by (auto simp: m1_def)
  have m2: "0 < m2" "m2 \<le> n" "largest key i n xs = m2" using m1 by (auto simp: m2_def largest_def m1_def Let_def)
  have e1: "(if 2 * i \<le> n then do { c \<leftarrow> do_compare (concat xs) (2 * i) i sz compare; Some (if c > 0 then 2 * i else i) } else Some i)
      = Some m1" using assms(3,4) by (auto simp: m1_def cmp pos)
  have e2: "(if 2 * i + 1 \<le> n then do { c \<leftarrow> do_compare (concat xs) (2 * i + 1) m1 sz compare; Some (if c > 0 then 2 * i + 1 else m1) }
      else Some m1) = Some m2" using m1 by (auto simp: m2_def cmp pos)
  have "do_swap (concat xs) i m2 sz = Some (concat (swap_elems (i - 1) (m2 - 1) xs))" if "m2 \<noteq> i"
    using that assms(3-5) m2(1,2) by (intro do_swap_concat [OF assms(1)]) auto
  then show ?thesis
    unfolding m2(3) by (subst heapify.simps) (simp only: Let_def idx e1 e2 bind.bind_lunit split: if_split, simp)
qed

lemma heap_but_swap:
  assumes "heap_but key lo i n xs" and "child i m" and "m \<le> n" and "n \<le> length xs" and "0 < lo" "lo \<le> i"
    and less: "key_at key xs i < key_at key xs m"
    and mx: "\<And>c. child i c \<Longrightarrow> c \<le> n \<Longrightarrow> key_at key xs c \<le> key_at key xs m"
  shows "heap_but key lo m n (swap_elems (i - 1) (m - 1) xs)"
proof -
  let ?ys = "swap_elems (i - 1) (m - 1) xs"
  have im: "0 < i" "i < m" using assms(2,5,6) by (auto simp: child_def)
  have K: "key_at key ?ys k = (if k = m then key_at key xs i else if k = i then key_at key xs m else key_at key xs k)"
    if "0 < k" "k \<le> n" for k
    using that im assms(3,4) by (auto simp: nth_swap_elems)
  show ?thesis
    unfolding heap_but_def
  proof (intro conjI allI impI)
    fix k c assume k: "lo \<le> k" "k \<noteq> m" "child k c" "c \<le> n"
    then have c: "0 < k" "k < c" "k \<le> n" using assms(5) by (auto simp: child_def)
    show "key_at key ?ys c \<le> key_at key ?ys k"
    proof (cases "k = i")
      case True
      with mx [OF _ k(4)] less k c im show ?thesis by (auto simp: K [unfolded One_nat_def])
    next
      case False
      have "c \<noteq> m" using False k(3) assms(2) by (auto simp: child_def)
      moreover have "key_at key xs c \<le> key_at key xs k" using assms(1) k False by (auto simp: heap_but_def)
      moreover have "key_at key xs m \<le> key_at key xs k" if "c = i" using assms(1-3) k that by (auto simp: heap_but_def)
      ultimately show ?thesis using False k c by (auto simp: K [unfolded One_nat_def])
    qed
  next
    fix p c assume p: "lo \<le> p" "child p m" "child m c" "c \<le> n"
    then have "p = i" using assms(2) by (auto simp: child_def)
    moreover have "m < c" using im p(3) by (auto simp: child_def)
    moreover have "key_at key xs c \<le> key_at key xs m" using assms(1,6) im p by (auto simp: heap_but_def)
    ultimately show "key_at key ?ys c \<le> key_at key ?ys p" using im assms(3) p(4) by (auto simp: K [unfolded One_nat_def])
  qed
qed

text \<open>What \<^verbatim>\<open>heapify\<close> and the loops leave of the elements: a permutation of the first \<open>n\<close>.\<close>

definition permutes_front :: "nat \<Rightarrow> bytes list \<Rightarrow> bytes list \<Rightarrow> bool" where
  "permutes_front n xs ys \<longleftrightarrow> length ys = length xs \<and> mset (take n ys) = mset (take n xs) \<and> drop n ys = drop n xs"

lemma permutes_front_refl [simp]: "permutes_front n xs xs"
  by (simp add: permutes_front_def)

lemma permutes_front_trans: "permutes_front n xs ys \<Longrightarrow> permutes_front n ys zs \<Longrightarrow> permutes_front n xs zs"
  by (simp add: permutes_front_def)

lemma permutes_front_swap:
  assumes "a < n" "b < n" "n \<le> length xs"
  shows "permutes_front n xs (swap_elems a b xs)"
proof -
  have "take n (swap_elems a b xs) = (take n xs)[a := take n xs ! b, b := take n xs ! a]"
    using assms by (simp add: swap_elems_def take_update_swap)
  moreover have "mset ((take n xs)[a := take n xs ! b, b := take n xs ! a]) = mset (take n xs)"
    using assms by (intro mset_swap) simp_all
  ultimately show ?thesis using assms by (simp add: permutes_front_def swap_elems_def)
qed

lemma permutes_front_mset: "permutes_front n xs ys \<Longrightarrow> mset ys = mset xs"
  unfolding permutes_front_def by (metis append_take_drop_id mset_append)

lemma elems_permutes: "elems sz xs \<Longrightarrow> permutes_front n xs ys \<Longrightarrow> elems sz ys"
  using permutes_front_mset [of n xs ys] by (auto simp: elems_def permutes_front_def dest: mset_eq_setD)

lemma heapify_restores:
  assumes "elems sz xs" and "by_key compare key" and "0 < lo" "lo \<le> i" "i \<le> n" "n \<le> length xs" and "length xs < 2 ^ 31"
    and "heap_but key lo i n xs"
  shows "\<exists>ys. heapify (concat xs) i n sz compare = Some (concat ys) \<and> permutes_front n xs ys \<and> heap_from key lo n ys"
  using assms
proof (induction "n - i" arbitrary: i xs rule: less_induct)
  case less
  have i: "0 < i" using less.prems by simp
  note st = heapify_step [OF less.prems(1,2) i less.prems(5,6,7)]
  show ?case
  proof (cases rule: largest_cases [of key i n xs])
    case 1
    then have "heap_from key lo n xs" using less.prems(8) by (auto simp: heap_from_def heap_but_def)
    with st 1(1) show ?thesis by (intro exI [of _ xs]) simp
  next
    case (2 m)
    let ?ys = "swap_elems (i - 1) (m - 1) xs"
    have m: "i < m" using 2(2) i by (auto simp: child_def)
    have p: "permutes_front n xs ?ys" using 2(3) m i less.prems(6) by (intro permutes_front_swap) auto
    have "heap_but key lo m n ?ys"
      by (rule heap_but_swap [OF less.prems(8) 2(2,3) less.prems(6,3,4) 2(4,5)])
    moreover have "n - m < n - i" using m 2(3) by simp
    ultimately obtain zs where "heapify (concat ?ys) m n sz compare = Some (concat zs)" "permutes_front n ?ys zs" "heap_from key lo n zs"
      using less.hyps [of m ?ys] m 2(3) less.prems elems_permutes [OF less.prems(1) p] by auto
    with st 2(1) m permutes_front_trans [OF p] show ?thesis by (intro exI [of _ zs]) auto
  qed
qed

section \<open>The sort\<close>

lemma heap_from_but: "heap_from key (i + 1) n xs \<Longrightarrow> 0 < i \<Longrightarrow> heap_but key i i n xs"
  by (auto simp: heap_from_def heap_but_def child_def)

lemma build_heap_builds:
  assumes "elems sz xs" and "by_key compare key" and "length xs < 2 ^ 31" and "i \<le> length xs"
    and "heap_from key (i + 1) (length xs) xs"
  shows "\<exists>ys. build_heap i (concat xs) (length xs) sz compare = Some (concat ys) \<and> permutes_front (length xs) xs ys
    \<and> heap_from key 1 (length xs) ys"
  using assms
proof (induction i arbitrary: xs)
  case 0
  then show ?case by (intro exI [of _ xs]) (simp add: build_heap.simps)
next
  case (Suc i)
  have "heap_but key (Suc i) (Suc i) (length xs) xs" using heap_from_but [of key "Suc i"] Suc.prems(5) by simp
  then obtain ys where ys: "heapify (concat xs) (Suc i) (length xs) sz compare = Some (concat ys)"
    "permutes_front (length xs) xs ys" "heap_from key (Suc i) (length xs) ys"
    using heapify_restores [OF Suc.prems(1,2), of "Suc i" "Suc i" "length xs"] Suc.prems(3,4) by auto
  have len: "length ys = length xs" using ys(2) by (simp add: permutes_front_def)
  obtain zs where "build_heap i (concat ys) (length xs) sz compare = Some (concat zs)" "permutes_front (length xs) ys zs"
    "heap_from key 1 (length xs) zs"
    using Suc.IH [of ys] elems_permutes [OF Suc.prems(1) ys(2)] Suc.prems(2,3,4) ys(3) len by auto
  with ys permutes_front_trans show ?case
    by (intro exI [of _ zs]) (auto simp: build_heap.simps [of "Suc i"])
qed

lemma heap_root:
  "heap_from key 1 n xs \<Longrightarrow> 1 \<le> k \<Longrightarrow> k \<le> n \<Longrightarrow> key_at key xs k \<le> key_at key xs 1"
proof (induction k rule: less_induct)
  case (less k)
  show ?case
  proof (cases "k = 1")
    case False
    then have p: "1 \<le> k div 2" "k div 2 < k" "child (k div 2) k" using less.prems(2) by (auto simp: child_def)
    have "key_at key xs k \<le> key_at key xs (k div 2)" using less.prems p by (auto simp: heap_from_def)
    also have "\<dots> \<le> key_at key xs 1" using less p by simp
    finally show ?thesis .
  qed simp
qed

text \<open>The state of the second loop: a heap of \<open>i\<close> elements, and behind it the greatest ones in order.\<close>

definition sort_inv :: "(bytes \<Rightarrow> 'k :: linorder) \<Rightarrow> nat \<Rightarrow> bytes list \<Rightarrow> bool" where
  "sort_inv key i xs \<longleftrightarrow> heap_from key 1 i xs \<and> sorted (map key (drop i xs))
     \<and> (\<forall>x \<in> set (take i xs). \<forall>y \<in> set (drop i xs). key x \<le> key y)"

lemma sort_inv_step:
  assumes "sort_inv key i xs" and "1 < i" "i \<le> length xs"
    and "permutes_front (i - 1) (swap_elems 0 (i - 1) xs) ys" and "heap_from key 1 (i - 1) ys"
  shows "sort_inv key (i - 1) ys"
proof -
  let ?zs = "swap_elems 0 (i - 1) xs"
  have z: "drop (i - 1) ?zs = xs ! 0 # drop i xs"
    using assms(2,3) by (subst Cons_nth_drop_Suc [symmetric]) (auto simp: swap_elems_def)
  then have d: "drop (i - 1) ys = xs ! 0 # drop i xs" using assms(4) by (simp add: permutes_front_def)
  have root: "key x \<le> key (xs ! 0)" if "x \<in> set (take i xs)" for x
  proof -
    obtain k where "k < i" "x = xs ! k" using \<open>x \<in> _\<close> assms(3) by (auto simp: in_set_conv_nth)
    then show ?thesis using heap_root [of key i xs "Suc k"] assms(1) by (simp add: sort_inv_def)
  qed
  have "permutes_front i xs ?zs" using assms(2,3) by (intro permutes_front_swap) auto
  then have "set (take i ?zs) = set (take i xs)" by (metis mset_eq_setD permutes_front_def)
  moreover have "set (take (i - 1) ?zs) \<subseteq> set (take i ?zs)" by (rule set_take_subset_set_take) simp
  moreover have "set (take (i - 1) ys) = set (take (i - 1) ?zs)" using assms(4) by (metis mset_eq_setD permutes_front_def)
  ultimately have sub: "set (take (i - 1) ys) \<subseteq> set (take i xs)" by simp
  have "xs ! 0 \<in> set (take i xs)" using assms(2,3) by (auto simp: in_set_conv_nth intro!: exI [of _ 0])
  then have x0: "\<forall>y \<in> set (drop i xs). key (xs ! 0) \<le> key y" using assms(1) by (simp add: sort_inv_def)
  have "sorted (map key (drop (i - 1) ys))" using x0 assms(1) unfolding d by (simp add: sort_inv_def)
  moreover have "\<forall>x \<in> set (take (i - 1) ys). \<forall>y \<in> set (drop (i - 1) ys). key x \<le> key y"
    unfolding d using sub root x0 by (auto intro: order_trans)
  ultimately show ?thesis using assms(5) by (simp add: sort_inv_def)
qed

lemma heap_but_root:
  assumes "heap_from key 1 (Suc i) xs" and "Suc i \<le> length xs"
  shows "heap_but key 1 1 i (swap_elems 0 i xs)"
  unfolding heap_but_def
proof (intro conjI allI impI)
  fix k c assume k: "1 \<le> k" "k \<noteq> 1" "child k c" "c \<le> i"
  then have c: "k < c" by (auto simp: child_def)
  have same: "swap_elems 0 i xs ! (j - 1) = xs ! (j - 1)" if "1 < j" "j \<le> i" for j
    using that assms(2) by (auto simp: swap_elems_def nth_list_update)
  have "key_at key xs c \<le> key_at key xs k" using assms(1) k by (auto simp: heap_from_def)
  with k c same [of c] same [of k] show "key_at key (swap_elems 0 i xs) c \<le> key_at key (swap_elems 0 i xs) k" by simp
qed (auto simp: child_def)

lemma sort_heap_sorts:
  assumes "elems sz xs" and "by_key compare key" and "length xs < 2 ^ 31" and "i \<le> length xs" and "sort_inv key i xs"
  shows "\<exists>ys. sort_heap i (concat xs) sz compare = Some (concat ys) \<and> mset ys = mset xs \<and> sorted (map key ys)"
  using assms
proof (induction i arbitrary: xs)
  case 0
  then show ?case by (intro exI [of _ xs]) (simp add: sort_heap.simps sort_inv_def)
next
  case (Suc i)
  show ?case
  proof (cases "i = 0")
    case True
    then have "sorted (map key xs)" using Suc.prems(4,5) by (cases xs) (auto simp: sort_inv_def)
    with True show ?thesis by (intro exI [of _ xs]) (simp add: sort_heap.simps)
  next
    case False
    let ?zs = "swap_elems 0 i xs"
    have p: "permutes_front (Suc i) xs ?zs" using Suc.prems(4) by (intro permutes_front_swap) auto
    have sw: "do_swap (concat xs) 1 (Suc i) sz = Some (concat ?zs)"
      using do_swap_concat [OF Suc.prems(1), of 1 "Suc i"] Suc.prems(4) False by simp
    have "heap_from key 1 (Suc i) xs" using Suc.prems(5) by (simp add: sort_inv_def)
    then have "heap_but key 1 1 i ?zs" using Suc.prems(4) by (rule heap_but_root)
    then obtain ys where ys: "heapify (concat ?zs) 1 i sz compare = Some (concat ys)" "permutes_front i ?zs ys" "heap_from key 1 i ys"
      using heapify_restores [OF elems_permutes [OF Suc.prems(1) p] Suc.prems(2), of 1 1 i] Suc.prems(3,4) False by auto
    have "sort_inv key i ys" using sort_inv_step [OF Suc.prems(5), of ys] Suc.prems(4) False ys(2,3) by simp
    moreover have "length ys = length xs" using ys(2) by (simp add: permutes_front_def)
    moreover have "elems sz ys" by (rule elems_permutes [OF elems_permutes [OF Suc.prems(1) p] ys(2)])
    ultimately obtain us where us: "sort_heap i (concat ys) sz compare = Some (concat us)" "mset us = mset ys" "sorted (map key us)"
      using Suc.IH [of ys] Suc.prems(2,3,4) by auto
    have "mset ys = mset xs" using permutes_front_mset [OF p] permutes_front_mset [OF ys(2)] by simp
    with us sw ys(1) False show ?thesis by (intro exI [of _ us]) (simp add: sort_heap.simps [of "Suc i"])
  qed
qed

lemma sort_c_sorts:
  assumes "elems sz xs" and "by_key compare key" and "length xs < 2 ^ 31"
  shows "\<exists>ys. sort_c (concat xs) (length xs) sz compare = Some (concat ys) \<and> mset ys = mset xs \<and> sorted (map key ys)"
proof -
  have "heap_from key (length xs div 2 + 1) (length xs) xs" by (auto simp: heap_from_def child_def)
  then obtain ys where ys: "build_heap (length xs div 2) (concat xs) (length xs) sz compare = Some (concat ys)"
    "permutes_front (length xs) xs ys" "heap_from key 1 (length xs) ys"
    using build_heap_builds [OF assms, of "length xs div 2"] by auto
  have len: "length ys = length xs" using ys(2) by (simp add: permutes_front_def)
  then have "sort_inv key (length xs) ys" using ys(3) by (simp add: sort_inv_def)
  then obtain zs where "sort_heap (length xs) (concat ys) sz compare = Some (concat zs)" "mset zs = mset ys" "sorted (map key zs)"
    using sort_heap_sorts [OF elems_permutes [OF assms(1) ys(2)] assms(2)] assms(3) len by auto
  with ys(1) permutes_front_mset [OF ys(2)] assms(1) show ?thesis
    by (intro exI [of _ zs]) (simp add: sort_c_def elems_def)
qed

section \<open>The search\<close>

definition search_spec :: "(bytes \<Rightarrow> 'k :: linorder) \<Rightarrow> bytes \<Rightarrow> bytes list \<Rightarrow> nat \<Rightarrow> nat \<Rightarrow> nat \<Rightarrow> nat option \<Rightarrow> bool" where
  "search_spec key t xs sz l r res \<longleftrightarrow>
     (case res of
        None \<Rightarrow> (\<forall>k. l \<le> k \<longrightarrow> k < r \<longrightarrow> key (xs ! k) \<noteq> key t)
      | Some p \<Rightarrow> \<exists>k. l \<le> k \<and> k < r \<and> p = k * sz \<and> key (xs ! k) = key t)"

lemma search_spec_left:
  assumes "search_spec key t xs sz l m res" and "m < r" and "\<And>k. m \<le> k \<Longrightarrow> k < r \<Longrightarrow> key (xs ! k) \<noteq> key t"
  shows "search_spec key t xs sz l r res"
proof (cases res)
  case None
  then have "key (xs ! k) \<noteq> key t" if "l \<le> k" "k < r" for k
    using assms(1,3) that by (cases "k < m") (auto simp: search_spec_def)
  with None show ?thesis by (simp add: search_spec_def)
next
  case (Some p)
  with assms(1,2) show ?thesis by (auto simp: search_spec_def)
qed

lemma search_spec_right:
  assumes "search_spec key t xs sz (Suc m) r res" and "l \<le> m" and "\<And>k. k \<le> m \<Longrightarrow> key (xs ! k) \<noteq> key t"
  shows "search_spec key t xs sz l r res"
proof (cases res)
  case None
  then have "key (xs ! k) \<noteq> key t" if "l \<le> k" "k < r" for k
    using assms(1,3) that by (cases "k \<le> m") (auto simp: search_spec_def)
  with None show ?thesis by (simp add: search_spec_def)
next
  case (Some p)
  with assms(1) obtain k where "Suc m \<le> k" "k < r" "p = k * sz" "key (xs ! k) = key t" by (auto simp: search_spec_def)
  moreover from this(1) assms(2) have "l \<le> k" by simp
  ultimately show ?thesis unfolding search_spec_def Some option.case by blast
qed

lemma search_loop_finds:
  assumes "elems sz xs" and "by_key compare key" and "sorted (map key xs)" and "l \<le> r" "r \<le> length xs"
  shows "\<exists>res. search_loop t (concat xs) sz compare (l * sz) (r * sz) = Some res \<and> search_spec key t xs sz l r res"
  using assms(4,5)
proof (induction "r - l" arbitrary: l r rule: less_induct)
  case less
  have sz: "0 < sz" using assms(1) by (simp add: elems_def)
  have mono: "key (xs ! i) \<le> key (xs ! j)" if "i \<le> j" "j < length xs" for i j
    using sorted_nth_mono [OF assms(3), of i j] that by simp
  show ?case
  proof (cases "l < r")
    case False
    with less.prems show ?thesis by (subst search_loop.simps) (simp add: search_spec_def)
  next
    case True
    define m where "m = l + (r - l) div 2"
    have m: "l \<le> m" "m < r" using True by (auto simp: m_def)
    then have lt: "m - l < r - l" "r - Suc m < r - l" by arith+
    have "(r * sz - l * sz) div sz = r - l" using sz by (simp flip: diff_mult_distrib)
    then have mid: "l * sz + (r * sz - l * sz) div sz div 2 * sz = m * sz" by (simp add: m_def distrib_right)
    have at: "elem_at (concat xs) sz (m * sz) = Some (xs ! m)"
      using elem_at_concat(1) [OF assms(1)] m less.prems by simp
    have step: "search_loop t (concat xs) sz compare (l * sz) (r * sz) =
       (if compare t (xs ! m) < 0 then search_loop t (concat xs) sz compare (l * sz) (m * sz)
        else if compare t (xs ! m) > 0 then search_loop t (concat xs) sz compare (m * sz + sz) (r * sz)
        else Some (Some (m * sz)))"
      using True sz by (subst search_loop.simps) (simp add: Let_def mid at)
    have sgn: "compare t (xs ! m) < 0 \<longleftrightarrow> key t < key (xs ! m)" "compare t (xs ! m) > 0 \<longleftrightarrow> key (xs ! m) < key t"
      using assms(2) by (auto simp: by_key_def)
    consider "key t < key (xs ! m)" | "key (xs ! m) < key t" | "key (xs ! m) = key t" by fastforce
    then show ?thesis
    proof cases
      case 1
      obtain res where res: "search_loop t (concat xs) sz compare (l * sz) (m * sz) = Some res" "search_spec key t xs sz l m res"
        using less.hyps [of m l] lt m less.prems by auto
      have "key t < key (xs ! k)" if "m \<le> k" "k < r" for k using 1 mono [of m k] that less.prems by auto
      then have "key (xs ! k) \<noteq> key t" if "m \<le> k" "k < r" for k using that by fastforce
      then have "search_spec key t xs sz l r res" by (rule search_spec_left [OF res(2) m(2)])
      with res(1) step sgn 1 show ?thesis by auto
    next
      case 2
      obtain res where res: "search_loop t (concat xs) sz compare (m * sz + sz) (r * sz) = Some res" "search_spec key t xs sz (Suc m) r res"
        using less.hyps [of r "Suc m"] lt m less.prems by (auto simp: add.commute)
      have "key (xs ! k) < key t" if "k \<le> m" for k using 2 mono [of k m] that m less.prems by auto
      then have "key (xs ! k) \<noteq> key t" if "k \<le> m" for k using that by fastforce
      then have "search_spec key t xs sz l r res" by (rule search_spec_right [OF res(2) m(1)])
      with res(1) step sgn 2 show ?thesis by auto
    next
      case 3
      with step sgn m show ?thesis by (auto simp: search_spec_def)
    qed
  qed
qed

section \<open>Decimal numbers\<close>

lemma isdigit_digit_char:
  assumes "d < 10"
  shows "isdigit (digit_char d) \<and> of_char (digit_char d) = (48 + int d)"
proof -
  have n: "of_char (digit_char d) = 48 + d" using assms by (simp add: digit_char_def take_bit_nat_eq_self of_char_of)
  then have "of_char (digit_char d) = int (48 + d)" by (metis of_nat_of_char)
  with n assms show ?thesis by (simp add: isdigit_def)
qed

lemma parse_digits_show:
  "m \<le> 2 ^ 31 \<Longrightarrow> parse_digits (show_nat m @ t) 0 = parse_digits t (- int m)"
proof (induction m arbitrary: t rule: show_nat.induct)
  case (1 m)
  show ?case
  proof (cases "m < 10")
    case True
    then show ?thesis by (subst show_nat.simps) (simp add: isdigit_digit_char int_ok_def)
  next
    case False
    have "parse_digits (show_nat m @ t) 0 = parse_digits (show_nat (m div 10) @ digit_char (m mod 10) # t) 0"
      using False by (subst show_nat.simps) simp
    also have "\<dots> = parse_digits (digit_char (m mod 10) # t) (- int (m div 10))"
      using 1 False by simp
    also have "\<dots> = parse_digits t (- int m)"
    proof -
      have "int (m div 10) * 10 + int (m mod 10) = int m" by presburger
      then have "- int (m div 10) * 10 - int (m mod 10) = - int m" "- int (m div 10) * 10 \<ge> - int m" by linarith+
      then show ?thesis using 1(2) isdigit_digit_char [of "m mod 10"] by (simp add: int_ok_def)
    qed
    finally show ?thesis .
  qed
qed

lemma show_nat_head: "\<exists>c t. show_nat m = c # t \<and> isdigit c"
proof (induction m rule: show_nat.induct)
  case (1 m)
  show ?case by (subst show_nat.simps) (use 1 in \<open>auto simp: isdigit_digit_char\<close>)
qed

lemma skip_space_append: "\<forall>c \<in> set sp. isspace c \<Longrightarrow> skip_space (sp @ s) = skip_space s"
  by (induction sp) auto

lemma digit_not_special: "isdigit c \<Longrightarrow> \<not> isspace c \<and> c \<noteq> CHR ''+'' \<and> c \<noteq> CHR ''-''"
  by (auto simp: isdigit_def isspace_def)

text \<open>
  C32. \<^verbatim>\<open>atoi\<close> reads every \<^verbatim>\<open>int\<close> back from its decimal form, the least one included, after any
  white space and before anything that is not a digit, without an overflow on the way.
\<close>

theorem atoi_reads_back:
  assumes "- (2 ^ 31) \<le> n" and "n < 2 ^ 31" and "\<forall>c \<in> set sp. isspace c" and "t = [] \<or> \<not> isdigit (hd t)"
  shows "atoi (sp @ show_int n @ t) = Some n"
proof -
  have stop: "parse_digits t v = Some v" for v using assms(4) by (cases t) auto
  obtain c u where cu: "show_nat (nat n) = c # u" "isdigit c" using show_nat_head by blast
  show ?thesis
  proof (cases "n < 0")
    case True
    have "skip_space (sp @ show_int n @ t) = CHR ''-'' # show_nat (nat (- n)) @ t"
      using True skip_space_append [OF assms(3)] by (simp add: show_int_def isspace_def)
    with parse_digits_show [of "nat (- n)" t] True assms(1) stop show ?thesis by (simp add: atoi_def)
  next
    case False
    have "skip_space (sp @ show_int n @ t) = c # u @ t"
      using False skip_space_append [OF assms(3)] digit_not_special [OF cu(2)] by (simp add: show_int_def cu)
    with parse_digits_show [of "nat n" t] False assms(2) stop digit_not_special [OF cu(2)] show ?thesis
      by (simp add: atoi_def cu int_ok_def)
  qed
qed

theorem atoi_reads_back_witness: "atoi ('' -2147483648 x'') = Some (- 2147483648)"
proof -
  have "show_int (- 2147483648) = ''-2147483648''"
    by (simp add: show_int_def show_nat.simps digit_char_def char_of_def bit_Suc_0_iff)
  then show ?thesis using atoi_reads_back [of "- 2147483648" "'' ''" "'' x''"] by (simp add: isspace_def isdigit_def)
qed

section \<open>Sorting and searching an array\<close>

text \<open>
  C18. \<^verbatim>\<open>qsort\<close> sorts. On an array of up to \<open>2 ^ 31 - 1\<close> elements of any size that fits the address
  space, with a comparison function that orders elements by a key, the heap sort returns, stays within
  the array, leaves the same elements in it, each kept whole, and leaves them in ascending order.
\<close>

theorem qsort_sorts:
  fixes key :: "bytes \<Rightarrow> 'k :: linorder"
  assumes "elems sz xs" and "by_key compare key" and "length xs < 2 ^ 31"
  shows "\<exists>ys. qsort (concat xs) (length xs) sz compare = Some (concat ys) \<and> mset ys = mset xs \<and> sorted (map key ys)"
  unfolding qsort_def by (rule sort_c_sorts [OF assms(1) by_key_thunk [OF assms(2)] assms(3)])

text \<open>
  C31. \<^verbatim>\<open>bsearch\<close> on an array sorted by the key returns: a pointer to the start of an element with
  the key that is searched, or the null pointer exactly if there is none. Every access is within the array.
\<close>

theorem bsearch_finds:
  fixes key :: "bytes \<Rightarrow> 'k :: linorder"
  assumes "elems sz xs" and "by_key compare key" and "sorted (map key xs)"
  shows "\<exists>res. bsearch t (concat xs) (length xs) sz compare = Some res \<and> search_spec key t xs sz 0 (length xs) res
    \<and> (res = None) = (key t \<notin> key ` set xs)"
proof -
  have "szt (sz * length xs) = length xs * sz" using assms(1) by (simp add: elems_def mult.commute)
  then obtain res where "bsearch t (concat xs) (length xs) sz compare = Some res" "search_spec key t xs sz 0 (length xs) res"
    using search_loop_finds [OF assms(1) by_key_thunk [OF assms(2)] assms(3), of 0 "length xs" t]
    by (auto simp: bsearch_def binary_search_def)
  moreover from this(2) have "(res = None) = (key t \<notin> key ` set xs)"
    by (cases res) (auto simp: search_spec_def in_set_conv_nth image_iff, metis nth_mem)
  ultimately show ?thesis by blast
qed

definition demo_cmp :: cmp where
  "demo_cmp a b = of_char (hd a) - of_char (hd b)"

lemma demo_by_key: "by_key demo_cmp (\<lambda>a. of_char (hd a) :: int)"
  by (simp add: by_key_def demo_cmp_def)

theorem qsort_sorts_witness:
  "\<exists>ys. qsort ''c3a1b2'' 3 2 demo_cmp = Some (concat ys) \<and> mset ys = {#''c3'', ''a1'', ''b2''#}
     \<and> sorted (map (\<lambda>a. of_char (hd a) :: int) ys)"
proof -
  let ?xs = "[''c3'', ''a1'', ''b2'']"
  have e: "elems 2 ?xs" and l: "length ?xs = 3" "concat ?xs = ''c3a1b2''" "mset ?xs = {#''c3'', ''a1'', ''b2''#}"
    by (simp_all add: elems_def)
  show ?thesis using qsort_sorts [OF e demo_by_key, unfolded l] by simp
qed

theorem bsearch_finds_witness:
  "\<exists>p. bsearch ''b'' ''a1b2c3'' 3 2 demo_cmp = Some (Some p) \<and> bsearch ''x'' ''a1b2c3'' 3 2 demo_cmp = Some None"
proof -
  let ?xs = "[''a1'', ''b2'', ''c3'']"
  have e: "elems 2 ?xs" and s: "sorted (map (\<lambda>a. of_char (hd a) :: int) ?xs)"
    and l: "length ?xs = 3" "concat ?xs = ''a1b2c3''" by (simp_all add: elems_def)
  note f = bsearch_finds [OF e demo_by_key s, unfolded l]
  show ?thesis using f [of "''b''"] f [of "''x''"] by auto
qed

end
