(* ===== verification/Pintos_Hash.thy ===== *)
theory Pintos_Hash
  imports Pintos_List
begin

unbundle bit_operations_syntax

text \<open>
  The hash table of \<^verbatim>\<open>lib/kernel/hash.c\<close> (Pintos) on the lists of \<^verbatim>\<open>Pintos_List\<close>. A
  \<^verbatim>\<open>struct hash_elem\<close> is its list element, so both conversions are the identity. The hash and the
  comparison function with their auxiliary data are parameters, functions of the address of an element
  (the data of an element does not change while it is in the table). What \<^verbatim>\<open>malloc\<close> returns for
  a size is an argument of the operations that call it (each calls it at most once). The calls of a destructor or an
  action are the list of the elements they are made for; they leave the table alone, as the comments of
  the code demand. Memory that is freed stays as it is and is not used again by the table. A failed \<^verbatim>\<open>ASSERT\<close> is \<open>None\<close>.
\<close>

section \<open>State\<close>

record hash =
  elem_cnt :: nat
  bucket_cnt :: nat
  buckets :: addr

text \<open>A \<^verbatim>\<open>struct list\<close> is two list elements of two pointers each: 16 bytes.\<close>

definition bucket_at :: "addr \<Rightarrow> nat \<Rightarrow> klist" where
  "bucket_at b i = \<lparr>head = b + 16 * i, tail = b + 16 * i + 8\<rparr>"

section \<open>Operations\<close>

definition find_bucket :: "(addr \<Rightarrow> nat) \<Rightarrow> hash \<Rightarrow> addr \<Rightarrow> klist" where
  "find_bucket hf t e = bucket_at (buckets t) (hf e AND (bucket_cnt t - 1))"

partial_function (option) find_loop :: "(addr \<Rightarrow> addr \<Rightarrow> bool) \<Rightarrow> addr \<Rightarrow> addr \<Rightarrow> lheap \<Rightarrow> addr \<Rightarrow> addr option" where
  [code]: "find_loop lt e stop h i =
     (if i \<noteq> stop then
        if \<not> lt i e \<and> \<not> lt e i then Some i
        else do { i \<leftarrow> list_next i h; find_loop lt e stop h i }
      else Some NULL)"

definition find_elem :: "(addr \<Rightarrow> addr \<Rightarrow> bool) \<Rightarrow> klist \<Rightarrow> addr \<Rightarrow> lheap \<Rightarrow> addr option" where
  "find_elem lt bucket e h = find_loop lt e (list_end bucket) h (list_begin bucket h)"

definition turn_off_least_1bit :: "nat \<Rightarrow> nat" where
  "turn_off_least_1bit x = x AND (x - 1)"

definition is_power_of_2 :: "nat \<Rightarrow> bool" where
  "is_power_of_2 x \<longleftrightarrow> x \<noteq> 0 \<and> turn_off_least_1bit x = 0"

definition MIN_ELEMS_PER_BUCKET :: nat where "MIN_ELEMS_PER_BUCKET = 1"
definition BEST_ELEMS_PER_BUCKET :: nat where "BEST_ELEMS_PER_BUCKET = 2"
definition MAX_ELEMS_PER_BUCKET :: nat where "MAX_ELEMS_PER_BUCKET = 4"

partial_function (option) power_loop :: "nat \<Rightarrow> nat option" where
  [code]: "power_loop n = (if \<not> is_power_of_2 n then power_loop (turn_off_least_1bit n) else Some n)"

fun init_buckets :: "nat list \<Rightarrow> addr \<Rightarrow> lheap \<Rightarrow> lheap option" where
  "init_buckets [] b h = Some h"
| "init_buckets (i # is) b h = do { h \<leftarrow> list_init (bucket_at b i) h; init_buckets is b h }"

partial_function (option) move_loop :: "(addr \<Rightarrow> nat) \<Rightarrow> hash \<Rightarrow> addr \<Rightarrow> addr \<Rightarrow> lheap \<Rightarrow> lheap option" where
  [code]: "move_loop hf t stop elem h =
     (if elem \<noteq> stop then do {
        nxt \<leftarrow> list_next elem h;
        (_, h) \<leftarrow> list_remove elem h;
        h \<leftarrow> list_push_front (find_bucket hf t elem) elem h;
        move_loop hf t stop nxt h }
      else Some h)"

fun move_buckets :: "(addr \<Rightarrow> nat) \<Rightarrow> hash \<Rightarrow> addr \<Rightarrow> nat list \<Rightarrow> lheap \<Rightarrow> lheap option" where
  "move_buckets hf t old [] h = Some h"
| "move_buckets hf t old (i # is) h = do {
     h \<leftarrow> move_loop hf t (list_end (bucket_at old i)) (list_begin (bucket_at old i) h) h;
     move_buckets hf t old is h }"

definition rehash :: "(addr \<Rightarrow> nat) \<Rightarrow> (nat \<Rightarrow> addr option) \<Rightarrow> hash \<Rightarrow> lheap \<Rightarrow> (hash \<times> lheap) option" where
  "rehash hf mal t h = do {
     new_cnt \<leftarrow> power_loop (let n = elem_cnt t div BEST_ELEMS_PER_BUCKET in if n < 4 then 4 else n);
     if new_cnt = bucket_cnt t then Some (t, h)
     else case mal (szt (16 * new_cnt)) of
            None \<Rightarrow> Some (t, h)
          | Some b \<Rightarrow> do {
              h \<leftarrow> init_buckets [0..<new_cnt] b h;
              (let t' = t\<lparr>buckets := b, bucket_cnt := new_cnt\<rparr> in do {
                 h \<leftarrow> move_buckets hf t' (buckets t) [0..<bucket_cnt t] h;
                 Some (t', h) }) } }"

definition insert_elem :: "klist \<Rightarrow> addr \<Rightarrow> hash \<Rightarrow> lheap \<Rightarrow> (hash \<times> lheap) option" where
  "insert_elem bucket e t h = do {
     h \<leftarrow> list_push_front bucket e h;
     Some (t\<lparr>elem_cnt := szt (elem_cnt t + 1)\<rparr>, h) }"

definition remove_elem :: "addr \<Rightarrow> hash \<Rightarrow> lheap \<Rightarrow> (hash \<times> lheap) option" where
  "remove_elem e t h = do {
     (_, h) \<leftarrow> list_remove e h;
     Some (t\<lparr>elem_cnt := szt (elem_cnt t + 2 ^ 32 - 1)\<rparr>, h) }"

partial_function (option) pop_loop :: "klist \<Rightarrow> lheap \<Rightarrow> addr list \<Rightarrow> (addr list \<times> lheap) option" where
  [code]: "pop_loop bucket h calls =
     (if \<not> list_empty bucket h then do {
        (e, h) \<leftarrow> list_pop_front bucket h;
        pop_loop bucket h (calls @ [e]) }
      else Some (calls, h))"

text \<open>\<open>destr\<close>: whether there is a destructor.\<close>

fun clear_buckets :: "bool \<Rightarrow> nat list \<Rightarrow> addr \<Rightarrow> lheap \<Rightarrow> addr list \<Rightarrow> (addr list \<times> lheap) option" where
  "clear_buckets destr [] b h calls = Some (calls, h)"
| "clear_buckets destr (i # is) b h calls = do {
     (calls, h) \<leftarrow> (if destr then pop_loop (bucket_at b i) h calls else Some (calls, h));
     h \<leftarrow> list_init (bucket_at b i) h;
     clear_buckets destr is b h calls }"

definition hash_clear :: "bool \<Rightarrow> hash \<Rightarrow> lheap \<Rightarrow> (addr list \<times> hash \<times> lheap) option" where
  "hash_clear destr t h = do {
     (calls, h) \<leftarrow> clear_buckets destr [0..<bucket_cnt t] (buckets t) h [];
     Some (calls, t\<lparr>elem_cnt := 0\<rparr>, h) }"

definition hash_init :: "(nat \<Rightarrow> addr option) \<Rightarrow> lheap \<Rightarrow> (bool \<times> hash \<times> lheap) option" where
  "hash_init mal h =
     (case mal (szt (16 * 4)) of
        None \<Rightarrow> Some (False, \<lparr>elem_cnt = 0, bucket_cnt = 4, buckets = NULL\<rparr>, h)
      | Some b \<Rightarrow> do {
          (_, t, h) \<leftarrow> hash_clear False \<lparr>elem_cnt = 0, bucket_cnt = 4, buckets = b\<rparr> h;
          Some (True, t, h) })"

text \<open>The block of the buckets is freed; that is the second result.\<close>

definition hash_destroy :: "bool \<Rightarrow> hash \<Rightarrow> lheap \<Rightarrow> (addr list \<times> addr \<times> hash \<times> lheap) option" where
  "hash_destroy destr t h = do {
     (calls, t, h) \<leftarrow> (if destr then hash_clear True t h else Some ([], t, h));
     Some (calls, buckets t, t, h) }"

definition hash_insert ::
  "(addr \<Rightarrow> nat) \<Rightarrow> (addr \<Rightarrow> addr \<Rightarrow> bool) \<Rightarrow> (nat \<Rightarrow> addr option) \<Rightarrow> addr \<Rightarrow> hash \<Rightarrow> lheap \<Rightarrow> (addr \<times> hash \<times> lheap) option" where
  "hash_insert hf lt mal new t h = do {
     old \<leftarrow> find_elem lt (find_bucket hf t new) new h;
     (t', h) \<leftarrow> (if old = NULL then insert_elem (find_bucket hf t new) new t h else Some (t, h));
     (t', h) \<leftarrow> rehash hf mal t' h;
     Some (old, t', h) }"

definition hash_replace ::
  "(addr \<Rightarrow> nat) \<Rightarrow> (addr \<Rightarrow> addr \<Rightarrow> bool) \<Rightarrow> (nat \<Rightarrow> addr option) \<Rightarrow> addr \<Rightarrow> hash \<Rightarrow> lheap \<Rightarrow> (addr \<times> hash \<times> lheap) option" where
  "hash_replace hf lt mal new t h = do {
     old \<leftarrow> find_elem lt (find_bucket hf t new) new h;
     (t', h) \<leftarrow> (if old \<noteq> NULL then remove_elem old t h else Some (t, h));
     (t', h) \<leftarrow> insert_elem (find_bucket hf t new) new t' h;
     (t', h) \<leftarrow> rehash hf mal t' h;
     Some (old, t', h) }"

definition hash_find :: "(addr \<Rightarrow> nat) \<Rightarrow> (addr \<Rightarrow> addr \<Rightarrow> bool) \<Rightarrow> addr \<Rightarrow> hash \<Rightarrow> lheap \<Rightarrow> addr option" where
  "hash_find hf lt e t h = find_elem lt (find_bucket hf t e) e h"

definition hash_delete ::
  "(addr \<Rightarrow> nat) \<Rightarrow> (addr \<Rightarrow> addr \<Rightarrow> bool) \<Rightarrow> (nat \<Rightarrow> addr option) \<Rightarrow> addr \<Rightarrow> hash \<Rightarrow> lheap \<Rightarrow> (addr \<times> hash \<times> lheap) option" where
  "hash_delete hf lt mal e t h = do {
     found \<leftarrow> find_elem lt (find_bucket hf t e) e h;
     if found \<noteq> NULL then do {
       (t', h) \<leftarrow> remove_elem found t h;
       (t', h) \<leftarrow> rehash hf mal t' h;
       Some (found, t', h) }
     else Some (found, t, h) }"

partial_function (option) apply_loop :: "addr \<Rightarrow> lheap \<Rightarrow> addr \<Rightarrow> addr list \<Rightarrow> addr list option" where
  [code]: "apply_loop stop h elem calls =
     (if elem \<noteq> stop then do { nxt \<leftarrow> list_next elem h; apply_loop stop h nxt (calls @ [elem]) } else Some calls)"

fun apply_buckets :: "nat list \<Rightarrow> addr \<Rightarrow> lheap \<Rightarrow> addr list \<Rightarrow> addr list option" where
  "apply_buckets [] b h calls = Some calls"
| "apply_buckets (i # is) b h calls = do {
     calls \<leftarrow> apply_loop (list_end (bucket_at b i)) h (list_begin (bucket_at b i) h) calls;
     apply_buckets is b h calls }"

definition hash_apply :: "hash \<Rightarrow> lheap \<Rightarrow> addr list option" where
  "hash_apply t h = apply_buckets [0..<bucket_cnt t] (buckets t) h []"

text \<open>The iterator: the index of its bucket and its element.\<close>

record hash_iterator =
  it_bucket :: nat
  it_elem :: addr

definition hash_first :: "hash \<Rightarrow> hash_iterator" where
  "hash_first t = \<lparr>it_bucket = 0, it_elem = list_head (bucket_at (buckets t) 0)\<rparr>"

partial_function (option) next_loop :: "hash \<Rightarrow> lheap \<Rightarrow> hash_iterator \<Rightarrow> hash_iterator option" where
  [code]: "next_loop t h i =
     (if it_elem i = list_end (bucket_at (buckets t) (it_bucket i)) then
        let i = i\<lparr>it_bucket := it_bucket i + 1\<rparr> in
        if it_bucket i \<ge> bucket_cnt t then Some (i\<lparr>it_elem := NULL\<rparr>)
        else next_loop t h (i\<lparr>it_elem := list_begin (bucket_at (buckets t) (it_bucket i)) h\<rparr>)
      else Some i)"

definition hash_next :: "hash \<Rightarrow> lheap \<Rightarrow> hash_iterator \<Rightarrow> (addr \<times> hash_iterator) option" where
  "hash_next t h i = do {
     e \<leftarrow> list_next (it_elem i) h;
     i \<leftarrow> next_loop t h (i\<lparr>it_elem := e\<rparr>);
     Some (it_elem i, i) }"

definition hash_cur :: "hash_iterator \<Rightarrow> addr" where
  "hash_cur i = it_elem i"

definition hash_size :: "hash \<Rightarrow> nat" where
  "hash_size t = elem_cnt t"

definition hash_empty :: "hash \<Rightarrow> bool" where
  "hash_empty t \<longleftrightarrow> elem_cnt t = 0"

section \<open>Hash functions\<close>

definition FNV_32_PRIME :: "32 word" where "FNV_32_PRIME = 16777619"
definition FNV_32_BASIS :: "32 word" where "FNV_32_BASIS = 2166136261"

fun fnv_loop :: "bytes \<Rightarrow> 32 word \<Rightarrow> 32 word" where
  "fnv_loop [] hash = hash"
| "fnv_loop (b # bs) hash = fnv_loop bs ((hash * FNV_32_PRIME) XOR of_char b)"

definition hash_bytes :: "bytes \<Rightarrow> 32 word" where
  "hash_bytes buf = fnv_loop buf FNV_32_BASIS"

definition hash_string :: "bytes \<Rightarrow> 32 word" where
  "hash_string s = fnv_loop (cstr s 0) FNV_32_BASIS"

definition hash_int :: "32 word \<Rightarrow> 32 word" where
  "hash_int i = hash_bytes (enc32 i)"

end
