(* ===== verification/Pintos_Hash_Props.thy ===== *)
theory Pintos_Hash_Props
  imports Pintos_Hash
begin

unbundle bit_operations_syntax

text \<open>
  Correctness of the hash table: the representation of a table by the contents of its buckets, what
  each operation does to them, and that the table as a whole is a map from keys to elements whatever
  \<^verbatim>\<open>malloc\<close> answers.
\<close>

section \<open>The number of buckets\<close>

lemma and_le_nat: "(x :: nat) AND y \<le> y"
proof -
  have "int (x AND y) \<le> int y" by (simp only: of_nat_and_eq) simp
  then show ?thesis by simp
qed

lemma bit_ge: "bit (y :: nat) k \<Longrightarrow> 2 ^ k \<le> y"
  by (rule ccontr) (simp add: bit_iff_odd)

lemma bit_top: "2 ^ k \<le> (x :: nat) \<Longrightarrow> x < 2 ^ Suc k \<Longrightarrow> bit x k"
proof -
  assume "2 ^ k \<le> x" "x < 2 ^ Suc k"
  then have "x div 2 ^ k = 1" by (simp add: div_nat_eqI)
  then show ?thesis by (simp add: bit_iff_odd)
qed

lemma turn_off_keeps_top:
  assumes "2 ^ k < x" and "x < 2 ^ Suc k"
  shows "2 ^ k \<le> turn_off_least_1bit x" and "turn_off_least_1bit x < x"
proof -
  have "bit x k" "bit (x - 1) k" using assms by (auto intro!: bit_top)
  then show "2 ^ k \<le> turn_off_least_1bit x" by (intro bit_ge) (simp add: turn_off_least_1bit_def bit_and_iff)
  show "turn_off_least_1bit x < x" using and_le_nat [of x "x - 1"] assms(1) by (simp add: turn_off_least_1bit_def)
qed

lemma is_power_of_2_iff:
  assumes "2 ^ k \<le> x" and "x < 2 ^ Suc k"
  shows "is_power_of_2 x \<longleftrightarrow> x = 2 ^ k"
proof
  assume "is_power_of_2 x"
  show "x = 2 ^ k"
  proof (rule ccontr)
    assume "x \<noteq> 2 ^ k"
    with turn_off_keeps_top(1) [of k x] assms have "(2 :: nat) ^ k \<le> turn_off_least_1bit x" by simp
    then have "0 < turn_off_least_1bit x" by (rule less_le_trans [rotated]) simp
    with \<open>is_power_of_2 x\<close> show False by (simp add: is_power_of_2_def)
  qed
next
  assume "x = 2 ^ k"
  moreover have "(2 :: nat) ^ k AND (2 ^ k - 1) = take_bit k (2 ^ k)" by (simp add: take_bit_eq_mask mask_eq_exp_minus_1)
  ultimately show "is_power_of_2 x" by (simp add: is_power_of_2_def turn_off_least_1bit_def)
qed

lemma power_loop_eq:
  "2 ^ k \<le> n \<Longrightarrow> n < 2 ^ Suc k \<Longrightarrow> power_loop n = Some (2 ^ k)"
proof (induction n rule: less_induct)
  case (less n)
  show ?case
  proof (cases "n = 2 ^ k")
    case True
    then show ?thesis using is_power_of_2_iff [OF less.prems] by (subst power_loop.simps) simp
  next
    case False
    then have t: "2 ^ k \<le> turn_off_least_1bit n" "turn_off_least_1bit n < n"
      using turn_off_keeps_top [of k n] less.prems by simp_all
    have "power_loop n = power_loop (turn_off_least_1bit n)"
      using is_power_of_2_iff [OF less.prems] False by (subst power_loop.simps) simp
    also have "\<dots> = Some (2 ^ k)" using less.IH [OF t(2) t(1)] t(2) less.prems(2) by simp
    finally show ?thesis .
  qed
qed

text \<open>The number of buckets for \<open>n\<close> elements.\<close>

definition ideal_cnt :: "nat \<Rightarrow> nat" where
  "ideal_cnt n = (let m = max 4 (n div 2) in 2 ^ (LEAST k. m < 2 ^ Suc k))"

lemma ideal_cnt_bounds:
  obtains k where "ideal_cnt n = 2 ^ k" and "2 ^ k \<le> max 4 (n div 2)" and "max 4 (n div 2) < 2 ^ Suc k" and "2 \<le> k"
proof -
  define m where "m = max 4 (n div 2)"
  define k where "k = (LEAST k. m < 2 ^ Suc k)"
  have "m < 2 ^ Suc m" using less_exp [of "Suc m"] Suc_lessD by blast
  then have up: "m < 2 ^ Suc k" unfolding k_def by (rule LeastI)
  have "2 \<le> k"
  proof (rule ccontr)
    assume "\<not> 2 \<le> k"
    then have "Suc k \<le> 2" by simp
    then have "(2 :: nat) ^ Suc k \<le> 2 ^ 2" by (rule power_increasing) simp
    with up show False by (simp add: m_def)
  qed
  then have "k - 1 < k" by simp
  then have "\<not> m < 2 ^ Suc (k - 1)" unfolding k_def by (rule not_less_Least)
  then have "2 ^ k \<le> m" using \<open>2 \<le> k\<close> by (simp add: not_less)
  moreover have "ideal_cnt n = 2 ^ k" by (simp add: ideal_cnt_def Let_def k_def m_def)
  ultimately show thesis using that [of k] up \<open>2 \<le> k\<close> by (simp only: m_def)
qed

lemma power_loop_ideal:
  "power_loop (let m = n div BEST_ELEMS_PER_BUCKET in if m < 4 then 4 else m) = Some (ideal_cnt n)"
proof -
  obtain k where "ideal_cnt n = 2 ^ k" "2 ^ k \<le> max 4 (n div 2)" "max 4 (n div 2) < 2 ^ Suc k" by (rule ideal_cnt_bounds)
  moreover have "(let m = n div BEST_ELEMS_PER_BUCKET in if m < 4 then 4 else m) = max 4 (n div 2)"
    by (simp add: BEST_ELEMS_PER_BUCKET_def Let_def)
  ultimately show ?thesis by (simp add: power_loop_eq)
qed

section \<open>One bucket\<close>

lemma find_loop_eq:
  "dl h (us @ xs @ b # vs) \<Longrightarrow> us \<noteq> [] \<Longrightarrow>
   find_loop lt e b h (hd (xs @ [b])) = Some (case find (\<lambda>x. \<not> lt x e \<and> \<not> lt e x) xs of None \<Rightarrow> NULL | Some x \<Rightarrow> x)"
proof (induction xs arbitrary: us)
  case Nil
  then show ?case by (subst find_loop.simps) simp
next
  case (Cons x xs)
  obtain c ws where c: "xs @ b # vs = c # ws" by (cases "xs @ b # vs") auto
  then have hd: "hd (xs @ [b]) = c" by (cases xs) auto
  have "x \<noteq> b" using Cons.prems(1) by (auto simp: dl_def)
  moreover have "list_next x h = Some c" using dl_list_next [of h us x c ws] Cons.prems(1) c by simp
  moreover have "dl h ((us @ [x]) @ xs @ b # vs)" using Cons.prems(1) by simp
  ultimately show ?case using Cons.IH [of "us @ [x]"] hd by (subst find_loop.simps) simp
qed

lemma find_elem_eq:
  "list_rep h l xs \<Longrightarrow> find_elem lt l e h = Some (case find (\<lambda>x. \<not> lt x e \<and> \<not> lt e x) xs of None \<Rightarrow> NULL | Some x \<Rightarrow> x)"
  using find_loop_eq [of h "[head l]" xs "tail l" "[]" lt e] list_begin_rep [of h l xs]
  by (simp add: find_elem_def list_rep_def nodes_def list_end_def)

section \<open>An array of buckets\<close>

abbreviation bnodes :: "addr \<Rightarrow> addr list list \<Rightarrow> nat \<Rightarrow> addr set" where
  "bnodes b T i \<equiv> set (nodes (bucket_at b i) (T ! i))"

definition all_nodes :: "addr \<Rightarrow> addr list list \<Rightarrow> addr set" where
  "all_nodes b T = (\<Union>i < length T. bnodes b T i)"

definition buckets_rep :: "lheap \<Rightarrow> addr \<Rightarrow> addr list list \<Rightarrow> bool" where
  "buckets_rep h b T \<longleftrightarrow> (\<forall>i < length T. list_rep h (bucket_at b i) (T ! i))
     \<and> (\<forall>i < length T. \<forall>j < length T. i \<noteq> j \<longrightarrow> bnodes b T i \<inter> bnodes b T j = {})"

lemma buckets_repD:
  "buckets_rep h b T \<Longrightarrow> i < length T \<Longrightarrow> list_rep h (bucket_at b i) (T ! i)"
  "buckets_rep h b T \<Longrightarrow> i < length T \<Longrightarrow> j < length T \<Longrightarrow> i \<noteq> j \<Longrightarrow> bnodes b T i \<inter> bnodes b T j = {}"
  by (auto simp: buckets_rep_def)

lemma bnodes_all: "i < length T \<Longrightarrow> bnodes b T i \<subseteq> all_nodes b T"
  by (auto simp: all_nodes_def)

lemma set_nodes: "set (nodes l xs) = {head l, tail l} \<union> set xs"
  by (auto simp: nodes_def)

lemma all_nodes_update:
  "i < length T \<Longrightarrow> all_nodes b (T[i := ys]) = (\<Union>j \<in> {..<length T} - {i}. bnodes b T j) \<union> set (nodes (bucket_at b i) ys)"
  by (auto simp: all_nodes_def nth_list_update split: if_splits)

lemma all_nodes_push: "i < length T \<Longrightarrow> all_nodes b (T[i := e # T ! i]) = insert e (all_nodes b T)"
  unfolding all_nodes_update by (auto simp: all_nodes_def set_nodes)

lemma all_nodes_remove:
  assumes "buckets_rep h b T" and "i < length T" and "T ! i = us @ e # vs"
  shows "all_nodes b (T[i := us @ vs]) = all_nodes b T - {e}"
proof -
  have "distinct (nodes (bucket_at b i) (T ! i))" using buckets_repD(1) [OF assms(1,2)] by (simp add: list_rep_def dl_def)
  then have "set (nodes (bucket_at b i) (us @ vs)) = bnodes b T i - {e}" using assms(3) by (auto simp: nodes_def)
  moreover have "e \<in> bnodes b T i" using assms(3) by (simp add: nodes_def)
  then have "e \<notin> bnodes b T j" if "j < length T" "j \<noteq> i" for j using buckets_repD(2) [OF assms(1,2) that(1)] that by auto
  ultimately show ?thesis unfolding all_nodes_update [OF assms(2)] using assms(2) by (auto simp: all_nodes_def)
qed

lemma buckets_rep_frame:
  assumes "buckets_rep h b T" and "frame S h h'" and "all_nodes b T \<inter> S = {}"
  shows "buckets_rep h' b T"
proof -
  have "list_rep h' (bucket_at b i) (T ! i)" if "i < length T" for i
    using list_rep_frame [OF buckets_repD(1) [OF assms(1) that] assms(2)] bnodes_all [OF that, of b] assms(3) by blast
  then show ?thesis using assms(1) by (simp add: buckets_rep_def)
qed

lemma buckets_rep_update:
  assumes "buckets_rep h b T" and "i < length T" and "list_rep h' (bucket_at b i) ys" and "frame S h h'"
    and "S \<subseteq> bnodes b T i \<union> E" and "set ys \<subseteq> set (T ! i) \<union> E" and "E \<inter> all_nodes b T = {}"
  shows "buckets_rep h' b (T[i := ys])"
proof -
  have ys: "set (nodes (bucket_at b i) ys) \<subseteq> bnodes b T i \<union> E" using assms(6) by (auto simp: set_nodes)
  have off: "bnodes b T j \<inter> (bnodes b T i \<union> E) = {}" if "j < length T" "j \<noteq> i" for j
    using buckets_repD(2) [OF assms(1) that(1) assms(2) that(2)] bnodes_all [OF that(1), of b] assms(7) by blast
  have "list_rep h' (bucket_at b j) (T ! j)" if "j < length T" "j \<noteq> i" for j
    using list_rep_frame [OF buckets_repD(1) [OF assms(1) that(1)] assms(4)] off [OF that] assms(5) by blast
  with assms(3) have "\<forall>j < length T. list_rep h' (bucket_at b j) (T[i := ys] ! j)"
    using assms(2) by (auto simp: nth_list_update)
  moreover have "bnodes b (T[i := ys]) j \<inter> bnodes b (T[i := ys]) k = {}" if "j < length T" "k < length T" "j \<noteq> k" for j k
    using off [of j] off [of k] ys buckets_repD(2) [OF assms(1) that] that assms(2) by (auto simp: nth_list_update)
  ultimately show ?thesis by (simp add: buckets_rep_def)
qed

lemma push_bucket:
  assumes "buckets_rep h b T" and "i < length T" and "e \<notin> all_nodes b T" and "e \<noteq> NULL"
  shows "\<exists>h'. list_push_front (bucket_at b i) e h = Some h' \<and> buckets_rep h' b (T[i := e # T ! i])
    \<and> frame (insert e (all_nodes b T)) h h'"
proof -
  have "e \<notin> bnodes b T i" using assms(3) bnodes_all [OF assms(2), of b] by blast
  then obtain h' where h': "list_push_front (bucket_at b i) e h = Some h'" "list_rep h' (bucket_at b i) (e # T ! i)"
    "frame (insert e (bnodes b T i)) h h'"
    using list_push_front_rep [OF buckets_repD(1) [OF assms(1,2)]] assms(4) by blast
  have "buckets_rep h' b (T[i := e # T ! i])"
    by (rule buckets_rep_update [OF assms(1,2) h'(2,3), of "{e}"]) (use assms(3) in auto)
  moreover have "frame (insert e (all_nodes b T)) h h'"
    by (rule frame_mono [OF h'(3)]) (use bnodes_all [OF assms(2), of b] in auto)
  ultimately show ?thesis using h'(1) by blast
qed

lemma remove_bucket:
  assumes "buckets_rep h b T" and "i < length T" and "T ! i = us @ e # vs"
  shows "\<exists>h'. list_remove e h = Some (hd (vs @ [tail (bucket_at b i)]), h') \<and> buckets_rep h' b (T[i := us @ vs])
    \<and> frame (all_nodes b T - {e}) h h'"
proof -
  have rep: "list_rep h (bucket_at b i) (us @ e # vs)" using buckets_repD(1) [OF assms(1,2)] assms(3) by simp
  then obtain h' where h': "list_remove e h = Some (hd (vs @ [tail (bucket_at b i)]), h')" "list_rep h' (bucket_at b i) (us @ vs)"
    "frame (set (nodes (bucket_at b i) (us @ vs))) h h'" using list_remove_rep by blast
  have "buckets_rep h' b (T[i := us @ vs])"
    by (rule buckets_rep_update [OF assms(1,2) h'(2,3), of "{}"]) (auto simp: assms(3) set_nodes)
  moreover have "set (nodes (bucket_at b i) (us @ vs)) \<subseteq> all_nodes b (T[i := us @ vs])"
    unfolding all_nodes_update [OF assms(2)] by blast
  then have "frame (all_nodes b T - {e}) h h'"
    unfolding all_nodes_remove [OF assms] by (rule frame_mono [OF h'(3)])
  ultimately show ?thesis using h'(1) by blast
qed

section \<open>Moving the elements to new buckets\<close>

definition ix :: "(addr \<Rightarrow> nat) \<Rightarrow> nat \<Rightarrow> addr \<Rightarrow> nat" where
  "ix hf n e = hf e AND (n - 1)"

lemma ix_less: "ix hf (2 ^ k) e < 2 ^ k"
  using and_le_nat [of "hf e" "2 ^ k - 1"] unfolding ix_def by (rule le_less_trans) simp

fun push_all :: "(addr \<Rightarrow> nat) \<Rightarrow> addr list \<Rightarrow> addr list list \<Rightarrow> addr list list" where
  "push_all hf [] U = U"
| "push_all hf (e # es) U = (let i = ix hf (length U) e in push_all hf es (U[i := e # U ! i]))"

lemma length_push_all [simp]: "length (push_all hf es U) = length U"
  by (induction es arbitrary: U) (simp_all add: Let_def)

lemma init_buckets_append: "init_buckets (xs @ ys) b h = init_buckets xs b h \<bind> init_buckets ys b"
  by (induction xs arbitrary: h) (auto split: Option.bind_splits)

lemma all_nodes_empty: "all_nodes b (replicate n []) = (\<Union>i < n. {b + 16 * i, b + 16 * i + 8})"
  by (auto simp: all_nodes_def nodes_def bucket_at_def)

lemma all_nodes_empty_Suc:
  "all_nodes b (replicate (Suc n) []) = all_nodes b (replicate n []) \<union> {b + 16 * n, b + 16 * n + 8}"
  unfolding all_nodes_empty lessThan_Suc by auto

lemma init_buckets_rep:
  assumes "b \<noteq> NULL"
  shows "\<exists>h'. init_buckets [0..<n] b h = Some h' \<and> buckets_rep h' b (replicate n []) \<and> frame (all_nodes b (replicate n [])) h h'"
proof (induction n)
  case 0
  then show ?case by (simp add: buckets_rep_def)
next
  case (Suc n)
  then obtain h1 where h1: "init_buckets [0..<n] b h = Some h1" "buckets_rep h1 b (replicate n [])"
    "frame (all_nodes b (replicate n [])) h h1" by blast
  let ?l = "bucket_at b n"
  have "head ?l \<noteq> tail ?l" "head ?l \<noteq> NULL" "tail ?l \<noteq> NULL" using assms by (simp_all add: bucket_at_def NULL_def)
  then obtain h2 where h2: "list_init ?l h1 = Some h2" "list_rep h2 ?l []" "frame {head ?l, tail ?l} h1 h2"
    using list_init_rep by blast
  have dis: "all_nodes b (replicate n []) \<inter> {head ?l, tail ?l} = {}"
    unfolding all_nodes_empty by (auto simp: bucket_at_def)
  have r2: "buckets_rep h2 b (replicate n [])" by (rule buckets_rep_frame [OF h1(2) h2(3) dis])
  have nn: "set (nodes ?l []) = {head ?l, tail ?l}" by (auto simp: nodes_def)
  have "buckets_rep h2 b (replicate (Suc n) [])"
    unfolding buckets_rep_def
  proof (intro conjI allI impI)
    fix i assume "i < length (replicate (Suc n) ([] :: addr list))"
    then show "list_rep h2 (bucket_at b i) (replicate (Suc n) [] ! i)"
      using buckets_repD(1) [OF r2, of i] h2(2) by (cases "i = n") (auto simp: less_Suc_eq simp del: replicate_Suc)
  next
    fix i j assume "i < length (replicate (Suc n) ([] :: addr list))" "j < length (replicate (Suc n) ([] :: addr list))" "i \<noteq> j"
    then show "bnodes b (replicate (Suc n) []) i \<inter> bnodes b (replicate (Suc n) []) j = {}"
      by (auto simp: nodes_def bucket_at_def simp del: replicate_Suc)
  qed
  moreover have "frame (all_nodes b (replicate (Suc n) [])) h h2"
    unfolding all_nodes_empty_Suc
    by (rule frame_trans [OF frame_mono [OF h1(3)] frame_mono [OF h2(3)]]) (auto simp: bucket_at_def)
  ultimately show ?case using h1(1) h2(1) by (simp add: init_buckets_append del: replicate_Suc)
qed

text \<open>The state between two steps of the move: the old buckets \<open>T\<close> at \<open>a\<close>, the new ones \<open>U\<close> at \<open>b\<close>.\<close>

definition two_tables :: "lheap \<Rightarrow> addr \<Rightarrow> addr list list \<Rightarrow> addr \<Rightarrow> addr list list \<Rightarrow> addr set \<Rightarrow> bool" where
  "two_tables h a T b U N \<longleftrightarrow> buckets_rep h a T \<and> buckets_rep h b U
     \<and> all_nodes a T \<inter> all_nodes b U = {} \<and> all_nodes a T \<union> all_nodes b U = N"

lemma move_one:
  assumes "two_tables h a T b U N" and "i < length T" and "T ! i = e # es" and "j < length U"
  shows "\<exists>h1 h2. list_next e h = Some (hd (es @ [tail (bucket_at a i)])) \<and> list_remove e h = Some (hd (es @ [tail (bucket_at a i)]), h1)
    \<and> list_push_front (bucket_at b j) e h1 = Some h2 \<and> e \<noteq> tail (bucket_at a i)
    \<and> two_tables h2 a (T[i := es]) b (U[j := e # U ! j]) N \<and> frame N h h2"
proof -
  have r: "buckets_rep h a T" "buckets_rep h b U" and d: "all_nodes a T \<inter> all_nodes b U = {}" and N: "all_nodes a T \<union> all_nodes b U = N"
    using assms(1) by (auto simp: two_tables_def)
  have rep: "dl h (head (bucket_at a i) # e # es @ [tail (bucket_at a i)])"
    using buckets_repD(1) [OF r(1) assms(2)] assms(3) by (simp add: list_rep_def nodes_def)
  then have e: "e \<noteq> NULL" "e \<noteq> tail (bucket_at a i)" by (auto simp: dl_def)
  obtain y ys where y: "es @ [tail (bucket_at a i)] = y # ys" by (cases "es @ [tail (bucket_at a i)]") auto
  then have nx: "list_next e h = Some (hd (es @ [tail (bucket_at a i)]))"
    using dl_list_next [of h "[head (bucket_at a i)]" e y ys] rep by simp
  have "T ! i = [] @ e # es" using assms(3) by simp
  note rem = remove_bucket [OF r(1) assms(2) this] all_nodes_remove [OF r(1) assms(2) this]
  then obtain h1 where h1: "list_remove e h = Some (hd (es @ [tail (bucket_at a i)]), h1)" "buckets_rep h1 a (T[i := es])"
    "frame (all_nodes a T - {e}) h h1" by auto
  have n1: "all_nodes a (T[i := es]) = all_nodes a T - {e}" using rem(2) by simp
  have e1: "e \<in> all_nodes a T" using bnodes_all [OF assms(2), of a] assms(3) by (auto simp: nodes_def)
  have "buckets_rep h1 b U" by (rule buckets_rep_frame [OF r(2) h1(3)]) (use d in blast)
  then obtain h2 where h2: "list_push_front (bucket_at b j) e h1 = Some h2" "buckets_rep h2 b (U[j := e # U ! j])"
    "frame (insert e (all_nodes b U)) h1 h2"
    using push_bucket [of h1 b U j e] assms(4) d e e1 by blast
  have n2: "all_nodes b (U[j := e # U ! j]) = insert e (all_nodes b U)" by (rule all_nodes_push [OF assms(4)])
  have "buckets_rep h2 a (T[i := es])"
    by (rule buckets_rep_frame [OF h1(2) h2(3)]) (use n1 d in blast)
  then have "two_tables h2 a (T[i := es]) b (U[j := e # U ! j]) N"
    using h2(2) n1 n2 d N e1 by (auto simp: two_tables_def)
  moreover have "frame N h h2"
    by (rule frame_trans [OF frame_mono [OF h1(3)] frame_mono [OF h2(3)]]) (use N e1 in auto)
  ultimately show ?thesis using nx h1(1) h2(1) e(2) by blast
qed

lemma move_loop_rep:
  assumes "two_tables h a T (buckets t) U N" and "i < length T" and "length U = 2 ^ k" and "bucket_cnt t = 2 ^ k" and "T ! i = xs"
  shows "\<exists>h'. move_loop hf t (tail (bucket_at a i)) (hd (xs @ [tail (bucket_at a i)])) h = Some h'
    \<and> two_tables h' a (T[i := []]) (buckets t) (push_all hf xs U) N \<and> frame N h h'"
  using assms
proof (induction xs arbitrary: h T U)
  case Nil
  have "T[i := []] = T" using Nil.prems(5) by (simp flip: Nil.prems(5) add: list_update_id)
  then show ?case using Nil.prems(1) by (intro exI [of _ h]) (simp add: move_loop.simps)
next
  case (Cons e es)
  let ?j = "ix hf (2 ^ k) e"
  have j: "?j < length U" using Cons.prems(3) by (simp add: ix_less)
  from move_one [OF Cons.prems(1,2,5) j] obtain h1 h2 where
    st: "list_next e h = Some (hd (es @ [tail (bucket_at a i)]))" "list_remove e h = Some (hd (es @ [tail (bucket_at a i)]), h1)"
    "list_push_front (bucket_at (buckets t) ?j) e h1 = Some h2" "e \<noteq> tail (bucket_at a i)"
    and h2: "two_tables h2 a (T[i := es]) (buckets t) (U[?j := e # U ! ?j]) N" "frame N h h2" by blast
  obtain h' where h': "move_loop hf t (tail (bucket_at a i)) (hd (es @ [tail (bucket_at a i)])) h2 = Some h'"
    "two_tables h' a (T[i := []]) (buckets t) (push_all hf es (U[?j := e # U ! ?j])) N" "frame N h2 h'"
    using Cons.IH [OF h2(1)] Cons.prems(2,3,4) by auto
  have "find_bucket hf t e = bucket_at (buckets t) ?j" using Cons.prems(4) by (simp add: find_bucket_def ix_def)
  then have "move_loop hf t (tail (bucket_at a i)) (hd ((e # es) @ [tail (bucket_at a i)])) h = Some h'"
    using st h'(1) by (subst move_loop.simps) simp
  then show ?case using h'(2) frame_trans [OF h2(2) h'(3)] Cons.prems(3) by (simp add: Let_def)
qed

lemma push_all_append: "push_all hf (xs @ ys) U = push_all hf ys (push_all hf xs U)"
  by (induction xs arbitrary: U) (simp_all add: Let_def)

lemma move_buckets_rep:
  assumes "two_tables h a T (buckets t) U N" and "distinct is" and "\<forall>i \<in> set is. i < length T"
    and "length U = 2 ^ k" and "bucket_cnt t = 2 ^ k"
  shows "\<exists>h' T'. move_buckets hf t a is h = Some h' \<and> two_tables h' a T' (buckets t) (push_all hf (concat (map ((!) T) is)) U) N
    \<and> frame N h h'"
  using assms
proof (induction "is" arbitrary: h T U)
  case Nil
  then show ?case by auto
next
  case (Cons i "is")
  have "i < length T" using Cons.prems(3) by simp
  from move_loop_rep [OF Cons.prems(1) this Cons.prems(4,5) refl, of hf] obtain h1 where
    h1: "move_loop hf t (tail (bucket_at a i)) (hd (T ! i @ [tail (bucket_at a i)])) h = Some h1"
    "two_tables h1 a (T[i := []]) (buckets t) (push_all hf (T ! i) U) N" "frame N h h1" by blast
  have same: "map ((!) (T[i := []])) is = map ((!) T) is" using Cons.prems(2) by (auto intro!: nth_list_update_neq)
  obtain h' T' where h': "move_buckets hf t a is h1 = Some h'"
    "two_tables h' a T' (buckets t) (push_all hf (concat (map ((!) T) is)) (push_all hf (T ! i) U)) N" "frame N h1 h'"
    using Cons.IH [OF h1(2)] Cons.prems(2-5) by (auto simp: same)
  have "list_begin (bucket_at a i) h = hd (T ! i @ [tail (bucket_at a i)])"
    using Cons.prems(1,3) by (intro list_begin_rep) (auto simp: two_tables_def intro: buckets_repD(1))
  then have "move_buckets hf t a (i # is) h = Some h'" using h1(1) h'(1) by (simp add: list_end_def)
  with h'(2) frame_trans [OF h1(3) h'(3)] show ?case by (auto simp: push_all_append)
qed

section \<open>The table\<close>

lemma mset_concat_update:
  "i < length U \<Longrightarrow> mset (concat (U[i := e # U ! i])) = add_mset e (mset (concat U))"
proof (induction U arbitrary: i)
  case (Cons u U)
  then show ?case by (cases i) auto
qed simp

lemma mset_concat_remove:
  "i < length U \<Longrightarrow> U ! i = us @ e # vs \<Longrightarrow> mset (concat U) = add_mset e (mset (concat (U[i := us @ vs])))"
proof (induction U arbitrary: i)
  case (Cons u U)
  then show ?case by (cases i) auto
qed simp

lemma mset_push_all:
  "length U = 2 ^ k \<Longrightarrow> mset (concat (push_all hf es U)) = mset es + mset (concat U)"
proof (induction es arbitrary: U)
  case (Cons e es)
  then show ?case by (simp add: Let_def mset_concat_update ix_less)
qed simp

definition placed :: "(addr \<Rightarrow> nat) \<Rightarrow> addr list list \<Rightarrow> bool" where
  "placed hf T \<longleftrightarrow> (\<forall>i < length T. \<forall>e \<in> set (T ! i). ix hf (length T) e = i)"

lemma placed_push: "placed hf U \<Longrightarrow> placed hf (U[ix hf (length U) e := e # U ! ix hf (length U) e])"
  unfolding placed_def
proof (intro allI impI ballI)
  let ?j = "ix hf (length U) e"
  fix i x assume U: "\<forall>i < length U. \<forall>e \<in> set (U ! i). ix hf (length U) e = i" and i: "i < length (U[?j := e # U ! ?j])"
    and x: "x \<in> set (U[?j := e # U ! ?j] ! i)"
  show "ix hf (length (U[?j := e # U ! ?j])) x = i" using U i x by (cases "i = ?j") auto
qed

lemma placed_push_all: "placed hf U \<Longrightarrow> placed hf (push_all hf es U)"
proof (induction es arbitrary: U)
  case (Cons e es)
  from Cons.IH [OF placed_push [OF Cons.prems]] show ?case by (simp add: Let_def)
qed simp

lemma placed_empty: "placed hf (replicate n [])"
  by (simp add: placed_def)

definition hash_rep :: "(addr \<Rightarrow> nat) \<Rightarrow> (addr \<Rightarrow> 'k) \<Rightarrow> hash \<Rightarrow> lheap \<Rightarrow> addr list list \<Rightarrow> bool" where
  "hash_rep hf key t h T \<longleftrightarrow> bucket_cnt t = length T \<and> (\<exists>k \<ge> 2. length T = 2 ^ k) \<and> elem_cnt t = length (concat T)
     \<and> buckets_rep h (buckets t) T \<and> placed hf T \<and> distinct (map key (concat T))"

text \<open>The map from keys to elements that a table stands for.\<close>

definition tmap :: "(addr \<Rightarrow> 'k) \<Rightarrow> addr list list \<Rightarrow> 'k \<Rightarrow> addr option" where
  "tmap key T = map_of (map (\<lambda>e. (key e, e)) (concat T))"

lemma tmap_Some:
  assumes "distinct (map key (concat T))"
  shows "tmap key T k = Some e \<longleftrightarrow> e \<in> set (concat T) \<and> key e = k"
proof -
  have "distinct (map fst (map (\<lambda>e. (key e, e)) (concat T)))" using assms by (simp add: comp_def)
  from map_of_eq_Some_iff [OF this] show ?thesis unfolding tmap_def by auto
qed

lemma tmap_None: "tmap key T k = None \<longleftrightarrow> k \<notin> key ` set (concat T)"
  by (auto simp: tmap_def map_of_eq_None_iff image_iff)

lemma tmap_eqI:
  assumes "distinct (map key (concat T))" and "\<And>k e. m k = Some e \<longleftrightarrow> e \<in> set (concat T) \<and> key e = k"
  shows "tmap key T = m"
proof
  fix k
  have "tmap key T k = Some e \<longleftrightarrow> m k = Some e" for e unfolding tmap_Some [OF assms(1)] assms(2) by (rule refl)
  then show "tmap key T k = m k" by (metis not_None_eq)
qed

lemma distinct_keys_mset: "mset xs = mset ys \<Longrightarrow> distinct (map key xs) = distinct (map key ys)"
  by (metis mset_map mset_eq_imp_distinct_iff)

definition or_null :: "addr option \<Rightarrow> addr" where
  "or_null r = (case r of None \<Rightarrow> NULL | Some e \<Rightarrow> e)"

lemma hash_repD:
  assumes "hash_rep hf key t h T"
  shows "bucket_cnt t = length T" and "elem_cnt t = length (concat T)" and "buckets_rep h (buckets t) T"
    and "placed hf T" and "distinct (map key (concat T))" and "ix hf (length T) e < length T"
  using assms ix_less [of hf _ e] by (auto simp: hash_rep_def)

lemma find_bucket_eq: "hash_rep hf key t h T \<Longrightarrow> find_bucket hf t e = bucket_at (buckets t) (ix hf (length T) e)"
  by (simp add: hash_rep_def find_bucket_def ix_def)

text \<open>Elements that compare as equal have the same hash.\<close>

definition compatible :: "(addr \<Rightarrow> nat) \<Rightarrow> (addr \<Rightarrow> 'k) \<Rightarrow> bool" where
  "compatible hf key \<longleftrightarrow> (\<forall>a b. key a = key b \<longrightarrow> hf a = hf b)"

lemma find_elem_tmap:
  fixes key :: "addr \<Rightarrow> 'k :: linorder"
  assumes "hash_rep hf key t h T" and "compatible hf key"
  shows "find_elem (\<lambda>a b. key a < key b) (find_bucket hf t e) e h = Some (or_null (tmap key T (key e)))"
proof -
  let ?i = "ix hf (length T) e"
  note D = hash_repD [OF assms(1)]
  let ?P = "\<lambda>x. \<not> key x < key e \<and> \<not> key e < key x"
  have P: "?P = (\<lambda>x. key x = key e)" by (auto simp: fun_eq_iff not_less intro: order.antisym)
  have sub: "set (T ! ?i) \<subseteq> set (concat T)" using D(6) by (auto intro: nth_mem)
  have here: "x \<in> set (T ! ?i)" if "x \<in> set (concat T)" "key x = key e" for x
  proof -
    obtain j where j: "j < length T" "x \<in> set (T ! j)" using \<open>x \<in> set (concat T)\<close> by (auto simp: in_set_conv_nth [of _ T])
    then have "ix hf (length T) x = j" using D(4) by (simp add: placed_def)
    moreover have "hf x = hf e" using assms(2) that(2) unfolding compatible_def by blast
    then have "ix hf (length T) x = ?i" by (simp add: ix_def)
    ultimately show ?thesis using j(2) by simp
  qed
  have "find ?P (T ! ?i) = tmap key T (key e)"
  proof (cases "tmap key T (key e)")
    case None
    then have "key e \<notin> key ` set (concat T)" by (simp only: tmap_None not_False_eq_True)
    have "key x \<noteq> key e" if "x \<in> set (T ! ?i)" for x
    proof
      assume "key x = key e"
      moreover have "key x \<in> key ` set (concat T)" using sub that by blast
      ultimately show False using \<open>key e \<notin> key ` set (concat T)\<close> by (simp only:)
    qed
    then have "find (\<lambda>x. key x = key e) (T ! ?i) = None" unfolding find_None_iff by blast
    then show ?thesis unfolding P None .
  next
    case (Some x)
    then have x: "x \<in> set (concat T)" "key x = key e" using tmap_Some [OF D(5)] by auto
    then have "x \<in> set (T ! ?i)" by (rule here)
    then have "find (\<lambda>x. key x = key e) (T ! ?i) \<noteq> None" unfolding find_None_iff using x(2) by blast
    then obtain y where y: "find (\<lambda>x. key x = key e) (T ! ?i) = Some y" by blast
    then have "y \<in> set (T ! ?i)" "key y = key e" by (auto simp: find_Some_iff)
    then have "y \<in> set (concat T)" "key y = key e" using sub by blast+
    then have "tmap key T (key e) = Some y" using tmap_Some [OF D(5)] by blast
    then show ?thesis unfolding P using y by simp
  qed
  with find_elem_eq [OF buckets_repD(1) [OF D(3,6)], of "\<lambda>a b. key a < key b" e e] find_bucket_eq [OF assms(1)]
  show ?thesis by (simp add: or_null_def)
qed

section \<open>The operations on a table\<close>

text \<open>
  \<^verbatim>\<open>malloc\<close>: a block it returns is not null and does not overlap the memory \<open>N\<close> that is in use.
\<close>

definition malloc_ok :: "(nat \<Rightarrow> addr option) \<Rightarrow> addr set \<Rightarrow> bool" where
  "malloc_ok mal N \<longleftrightarrow> (\<forall>sz b. mal sz = Some b \<longrightarrow> b \<noteq> NULL \<and> {b..<b + sz} \<inter> N = {})"

lemma malloc_ok_mono: "malloc_ok mal N \<Longrightarrow> M \<subseteq> N \<Longrightarrow> malloc_ok mal M"
  unfolding malloc_ok_def by blast

lemma block_nodes: "all_nodes b (replicate n []) \<subseteq> {b..<b + 16 * n}"
  unfolding all_nodes_empty by auto

lemma ideal_cnt_small: "n < 2 ^ 29 \<Longrightarrow> 16 * ideal_cnt n < 2 ^ 32"
proof -
  assume n: "n < 2 ^ 29"
  obtain k where k: "ideal_cnt n = 2 ^ k" "2 ^ k \<le> max 4 (n div 2)" by (rule ideal_cnt_bounds)
  then have "ideal_cnt n < 2 ^ 28" using n by auto
  then show ?thesis by simp
qed

definition same_elems :: "addr list list \<Rightarrow> addr list list \<Rightarrow> bool" where
  "same_elems T T' \<longleftrightarrow> mset (concat T') = mset (concat T)"

lemma same_elemsD:
  assumes "same_elems T T'"
  shows "set (concat T') = set (concat T)" and "length (concat T') = length (concat T)"
    and "distinct (map key (concat T')) = distinct (map key (concat T))"
  using assms mset_eq_setD mset_eq_length distinct_keys_mset unfolding same_elems_def by blast+

lemma rehash_rep:
  assumes "hash_rep hf key t h T" and "malloc_ok mal (all_nodes (buckets t) T)" and "elem_cnt t < 2 ^ 29"
  shows "\<exists>t' h' T'. rehash hf mal t h = Some (t', h') \<and> hash_rep hf key t' h' T' \<and> same_elems T T'
    \<and> (bucket_cnt t' = ideal_cnt (elem_cnt t) \<or> (\<exists>sz. mal sz = None) \<and> t' = t)"
proof (cases "ideal_cnt (elem_cnt t) = bucket_cnt t")
  case True
  then have "rehash hf mal t h = Some (t, h)" by (simp add: rehash_def power_loop_ideal)
  with assms(1) True show ?thesis by (auto simp: same_elems_def)
next
  case False
  let ?n = "ideal_cnt (elem_cnt t)"
  have sz: "szt (16 * ?n) = 16 * ?n" using ideal_cnt_small [OF assms(3)] by simp
  show ?thesis
  proof (cases "mal (16 * ?n)")
    case None
    then have "rehash hf mal t h = Some (t, h)" using False sz by (simp add: rehash_def power_loop_ideal)
    with assms(1) None show ?thesis by (auto simp: same_elems_def)
  next
    case (Some b)
    note D = hash_repD [OF assms(1)]
    obtain k where k: "?n = 2 ^ k" "2 \<le> k" by (rule ideal_cnt_bounds)
    let ?U = "replicate ?n []" and ?t = "t\<lparr>buckets := b, bucket_cnt := ?n\<rparr>" and ?T = "push_all hf (concat T) (replicate ?n [])"
    have b: "b \<noteq> NULL" "all_nodes b ?U \<inter> all_nodes (buckets t) T = {}"
      using assms(2) Some block_nodes [of b ?n] unfolding malloc_ok_def by blast+
    from init_buckets_rep [OF b(1), of ?n h] obtain h1 where h1: "init_buckets [0..<?n] b h = Some h1" "buckets_rep h1 b ?U"
      "frame (all_nodes b ?U) h h1" by blast
    have "buckets_rep h1 (buckets t) T" by (rule buckets_rep_frame [OF D(3) h1(3)]) (use b(2) in blast)
    then have "two_tables h1 (buckets t) T (buckets ?t) ?U (all_nodes (buckets t) T \<union> all_nodes b ?U)"
      using h1(2) b(2) by (auto simp: two_tables_def)
    from move_buckets_rep [OF this, of "[0..<length T]" k hf] k obtain h2 T2 where
      h2: "move_buckets hf ?t (buckets t) [0..<length T] h1 = Some h2" "two_tables h2 (buckets t) T2 b ?T (all_nodes (buckets t) T \<union> all_nodes b ?U)"
      by (auto simp: map_nth)
    have run: "rehash hf mal t h = Some (?t, h2)"
      unfolding rehash_def power_loop_ideal using False sz Some h1(1) h2(1) D(1) by (simp add: Let_def)
    have same: "same_elems T ?T" using mset_push_all [of ?U k hf "concat T"] k(1) by (simp add: same_elems_def)
    have "hash_rep hf key ?t h2 ?T"
      using h2(2) k placed_push_all [OF placed_empty, of hf "concat T" ?n] same_elemsD [OF same] D(2,5)
      by (auto simp: hash_rep_def two_tables_def)
    with run same show ?thesis by (intro exI [of _ ?t] exI [of _ h2] exI [of _ ?T]) simp
  qed
qed

lemma insert_elem_rep:
  assumes "hash_rep hf key t h T" and "e \<notin> all_nodes (buckets t) T" and "e \<noteq> NULL" and "key e \<notin> key ` set (concat T)"
    and "elem_cnt t + 1 < 2 ^ 32"
  shows "\<exists>h' T'. insert_elem (find_bucket hf t e) e t h = Some (t\<lparr>elem_cnt := elem_cnt t + 1\<rparr>, h')
    \<and> hash_rep hf key (t\<lparr>elem_cnt := elem_cnt t + 1\<rparr>) h' T' \<and> mset (concat T') = add_mset e (mset (concat T))
    \<and> all_nodes (buckets t) T' = insert e (all_nodes (buckets t) T)"
proof -
  let ?i = "ix hf (length T) e"
  note D = hash_repD [OF assms(1)]
  from push_bucket [OF D(3) D(6) assms(2,3), of e] obtain h' where
    h': "list_push_front (bucket_at (buckets t) ?i) e h = Some h'" "buckets_rep h' (buckets t) (T[?i := e # T ! ?i])" by blast
  let ?T = "T[?i := e # T ! ?i]"
  have m: "mset (concat ?T) = add_mset e (mset (concat T))" by (rule mset_concat_update [OF D(6)])
  then have len: "length (concat ?T) = Suc (length (concat T))" using size_mset by (metis size_add_mset)
  have "mset (map key (concat ?T)) = mset (map key (e # concat T))" using m by simp
  then have "distinct (map key (concat ?T)) = distinct (map key (e # concat T))" by (rule mset_eq_imp_distinct_iff)
  with D(5) assms(4) have "distinct (map key (concat ?T))" by simp
  then have "hash_rep hf key (t\<lparr>elem_cnt := elem_cnt t + 1\<rparr>) h' ?T"
    using assms(1) h'(2) len placed_push [OF D(4)] D(2) by (simp add: hash_rep_def)
  moreover have "insert_elem (find_bucket hf t e) e t h = Some (t\<lparr>elem_cnt := elem_cnt t + 1\<rparr>, h')"
    using h'(1) assms(5) find_bucket_eq [OF assms(1)] by (simp add: insert_elem_def)
  ultimately show ?thesis using m all_nodes_push [OF D(6)] by blast
qed

lemma remove_elem_rep:
  assumes "hash_rep hf key t h T" and "e \<in> set (concat T)" and "elem_cnt t < 2 ^ 32"
  shows "\<exists>h' T'. remove_elem e t h = Some (t\<lparr>elem_cnt := elem_cnt t - 1\<rparr>, h')
    \<and> hash_rep hf key (t\<lparr>elem_cnt := elem_cnt t - 1\<rparr>) h' T' \<and> mset (concat T) = add_mset e (mset (concat T'))
    \<and> all_nodes (buckets t) T' = all_nodes (buckets t) T - {e}"
proof -
  note D = hash_repD [OF assms(1)]
  obtain i where "i < length T" "e \<in> set (T ! i)" using assms(2) by (auto simp: in_set_conv_nth [of _ T])
  then obtain us vs where i: "i < length T" "T ! i = us @ e # vs" by (auto dest: split_list)
  from remove_bucket [OF D(3) i] obtain h' x where h': "list_remove e h = Some (x, h')" "buckets_rep h' (buckets t) (T[i := us @ vs])" by blast
  let ?T = "T[i := us @ vs]"
  have m: "mset (concat T) = add_mset e (mset (concat ?T))" by (rule mset_concat_remove [OF i])
  then have len: "length (concat T) = Suc (length (concat ?T))" using size_mset by (metis size_add_mset)
  have "mset (map key (concat T)) = mset (map key (e # concat ?T))" using m by simp
  then have "distinct (map key (concat T)) = distinct (map key (e # concat ?T))" by (rule mset_eq_imp_distinct_iff)
  with D(5) have "distinct (map key (concat ?T))" by simp
  moreover have "placed hf ?T" using D(4) i by (auto simp: placed_def nth_list_update)
  ultimately have "hash_rep hf key (t\<lparr>elem_cnt := elem_cnt t - 1\<rparr>) h' ?T"
    using assms(1) h'(2) len D(2) by (simp add: hash_rep_def)
  moreover have "szt (elem_cnt t + 2 ^ 32 - 1) = elem_cnt t - 1"
    using assms(3) len D(2) by (simp add: szt_def mod_if)
  then have "remove_elem e t h = Some (t\<lparr>elem_cnt := elem_cnt t - 1\<rparr>, h')"
    using h'(1) by (simp add: remove_elem_def)
  ultimately show ?thesis using m all_nodes_remove [OF D(3) i] by blast
qed

section \<open>The table is a map\<close>

text \<open>The operations, and what they do to a map from keys to elements: the result and the new map.\<close>

datatype hop = HFind addr | HInsert addr | HReplace addr | HDelete addr

text \<open>The element an operation links into the table.\<close>

fun added :: "hop \<Rightarrow> addr set" where
  "added (HFind e) = {}"
| "added (HInsert e) = {e}"
| "added (HReplace e) = {e}"
| "added (HDelete e) = {}"

fun map_step :: "(addr \<Rightarrow> 'k) \<Rightarrow> hop \<Rightarrow> ('k \<Rightarrow> addr option) \<Rightarrow> addr \<times> ('k \<Rightarrow> addr option)" where
  "map_step key (HFind e) m = (or_null (m (key e)), m)"
| "map_step key (HInsert e) m = (or_null (m (key e)), if m (key e) = None then m(key e \<mapsto> e) else m)"
| "map_step key (HReplace e) m = (or_null (m (key e)), m(key e \<mapsto> e))"
| "map_step key (HDelete e) m = (or_null (m (key e)), m(key e := None))"

fun hash_step :: "(addr \<Rightarrow> nat) \<Rightarrow> (addr \<Rightarrow> addr \<Rightarrow> bool) \<Rightarrow> (nat \<Rightarrow> addr option) \<Rightarrow> hop \<Rightarrow> hash \<Rightarrow> lheap \<Rightarrow> (addr \<times> hash \<times> lheap) option" where
  "hash_step hf lt mal (HFind e) t h = map_option (\<lambda>r. (r, t, h)) (hash_find hf lt e t h)"
| "hash_step hf lt mal (HInsert e) t h = hash_insert hf lt mal e t h"
| "hash_step hf lt mal (HReplace e) t h = hash_replace hf lt mal e t h"
| "hash_step hf lt mal (HDelete e) t h = hash_delete hf lt mal e t h"

lemma tmap_same: "hash_rep hf key t h T \<Longrightarrow> same_elems T T' \<Longrightarrow> tmap key T' = tmap key T"
  using hash_repD(5) [of hf key t h T] same_elemsD [of T T'] by (intro tmap_eqI) (auto simp: tmap_Some)

lemma tmap_insert:
  assumes "hash_rep hf key t h T" and "hash_rep hf key t' h' T'" and "mset (concat T') = add_mset e (mset (concat T))"
  shows "tmap key T' = (tmap key T)(key e \<mapsto> e)"
proof -
  have "set (concat T') = insert e (set (concat T))" using assms(3) by (metis set_mset_add_mset_insert set_mset_mset)
  moreover have "mset (map key (concat T')) = mset (map key (e # concat T))" using assms(3) by simp
  then have "distinct (map key (e # concat T))" using hash_repD(5) [OF assms(2)] by (metis mset_eq_imp_distinct_iff)
  then have "\<forall>x\<in>set (concat T). key x \<noteq> key e" unfolding list.map distinct.simps set_map by (metis imageI)
  ultimately show ?thesis
    using tmap_Some [OF hash_repD(5) [OF assms(1)]] by (intro tmap_eqI [OF hash_repD(5) [OF assms(2)]]) auto
qed

lemma tmap_remove:
  assumes "hash_rep hf key t h T" and "hash_rep hf key t' h' T'" and "mset (concat T) = add_mset e (mset (concat T'))"
  shows "tmap key T' = (tmap key T)(key e := None)"
proof -
  have "tmap key T = (tmap key T')(key e \<mapsto> e)" by (rule tmap_insert [OF assms(2,1,3)])
  moreover have "mset (map key (concat T)) = mset (map key (e # concat T'))" using assms(3) by simp
  then have "distinct (map key (e # concat T'))" using hash_repD(5) [OF assms(1)] by (metis mset_eq_imp_distinct_iff)
  then have "tmap key T' (key e) = None" unfolding tmap_None by simp
  ultimately show ?thesis by (simp add: fun_upd_idem)
qed

text \<open>What an operation leaves behind: a table for the map, with the number of its elements as the count.\<close>

definition table_for :: "(addr \<Rightarrow> nat) \<Rightarrow> (addr \<Rightarrow> 'k) \<Rightarrow> hash \<Rightarrow> lheap \<Rightarrow> ('k \<Rightarrow> addr option) \<Rightarrow> bool" where
  "table_for hf key t h m \<longleftrightarrow> (\<exists>T. hash_rep hf key t h T \<and> tmap key T = m)"

lemma rehash_table:
  assumes "hash_rep hf key t h T" and "malloc_ok mal (all_nodes (buckets t) T)" and "elem_cnt t < 2 ^ 29"
  shows "\<exists>t' h'. rehash hf mal t h = Some (t', h') \<and> table_for hf key t' h' (tmap key T)"
  using rehash_rep [OF assms] tmap_same [OF assms(1)] unfolding table_for_def by metis

lemma tmap_elem:
  assumes "hash_rep hf key t h T" and "tmap key T k = Some x"
  shows "x \<in> set (concat T)" and "key x = k" and "x \<noteq> NULL" and "x \<in> all_nodes (buckets t) T"
proof -
  note D = hash_repD [OF assms(1)]
  show x: "x \<in> set (concat T)" "key x = k" using assms(2) tmap_Some [OF D(5)] by auto
  then obtain i where i: "i < length T" "x \<in> set (T ! i)" by (auto simp: in_set_conv_nth [of _ T])
  then show "x \<in> all_nodes (buckets t) T" using bnodes_all [OF i(1), of "buckets t"] by (auto simp: nodes_def)
  have "NULL \<notin> set (nodes (bucket_at (buckets t) i) (T ! i))" using buckets_repD(1) [OF D(3) i(1)] by (simp add: list_rep_def dl_def)
  with i(2) show "x \<noteq> NULL" by (auto simp: nodes_def)
qed

lemma hash_insert_table:
  fixes key :: "addr \<Rightarrow> 'k :: linorder"
  assumes "hash_rep hf key t h T" and "compatible hf key" and "elem_cnt t + 1 < 2 ^ 29"
    and "malloc_ok mal (insert e (all_nodes (buckets t) T))" and "e \<notin> all_nodes (buckets t) T" "e \<noteq> NULL"
  shows "\<exists>t' h'. hash_insert hf (\<lambda>a b. key a < key b) mal e t h = Some (or_null (tmap key T (key e)), t', h')
    \<and> table_for hf key t' h' (snd (map_step key (HInsert e) (tmap key T)))"
proof (cases "tmap key T (key e)")
  case None
  then have "key e \<notin> key ` set (concat T)" by (simp only: tmap_None not_False_eq_True)
  from insert_elem_rep [OF assms(1,5,6) this] assms(3) obtain h1 T1 where
    i: "insert_elem (find_bucket hf t e) e t h = Some (t\<lparr>elem_cnt := elem_cnt t + 1\<rparr>, h1)"
    "hash_rep hf key (t\<lparr>elem_cnt := elem_cnt t + 1\<rparr>) h1 T1" "mset (concat T1) = add_mset e (mset (concat T))"
    "all_nodes (buckets t) T1 = insert e (all_nodes (buckets t) T)" by auto
  from rehash_table [OF i(2), of mal] i(4) assms(3,4) obtain t' h' where
    "rehash hf mal (t\<lparr>elem_cnt := elem_cnt t + 1\<rparr>) h1 = Some (t', h')" "table_for hf key t' h' (tmap key T1)" by auto
  with i(1) None find_elem_tmap [OF assms(1,2), of e] tmap_insert [OF assms(1) i(2,3)] show ?thesis
    by (simp add: hash_insert_def or_null_def)
next
  case (Some x)
  have "malloc_ok mal (all_nodes (buckets t) T)" by (rule malloc_ok_mono [OF assms(4)]) auto
  from rehash_table [OF assms(1) this] assms(3) obtain t' h' where
    "rehash hf mal t h = Some (t', h')" "table_for hf key t' h' (tmap key T)" by auto
  with Some tmap_elem(3) [OF assms(1) Some] find_elem_tmap [OF assms(1,2), of e] show ?thesis
    by (simp add: hash_insert_def or_null_def)
qed

lemma hash_delete_table:
  fixes key :: "addr \<Rightarrow> 'k :: linorder"
  assumes "hash_rep hf key t h T" and "compatible hf key" and "elem_cnt t < 2 ^ 29" and "malloc_ok mal (all_nodes (buckets t) T)"
  shows "\<exists>t' h'. hash_delete hf (\<lambda>a b. key a < key b) mal e t h = Some (or_null (tmap key T (key e)), t', h')
    \<and> table_for hf key t' h' ((tmap key T)(key e := None))"
proof (cases "tmap key T (key e)")
  case None
  have "table_for hf key t h ((tmap key T)(key e := None))"
    unfolding table_for_def using assms(1) None by (auto simp: fun_upd_idem)
  with None find_elem_tmap [OF assms(1,2), of e] show ?thesis by (simp add: hash_delete_def or_null_def)
next
  case (Some x)
  note x = tmap_elem [OF assms(1) Some]
  from remove_elem_rep [OF assms(1) x(1)] assms(3) obtain h1 T1 where
    r: "remove_elem x t h = Some (t\<lparr>elem_cnt := elem_cnt t - 1\<rparr>, h1)" "hash_rep hf key (t\<lparr>elem_cnt := elem_cnt t - 1\<rparr>) h1 T1"
    "mset (concat T) = add_mset x (mset (concat T1))" "all_nodes (buckets t) T1 = all_nodes (buckets t) T - {x}" by auto
  have "malloc_ok mal (all_nodes (buckets t) T1)" by (rule malloc_ok_mono [OF assms(4)]) (simp add: r(4))
  moreover have "elem_cnt t - 1 < 2 ^ 29" using assms(3) by simp
  ultimately obtain t' h' where
    "rehash hf mal (t\<lparr>elem_cnt := elem_cnt t - 1\<rparr>) h1 = Some (t', h')" "table_for hf key t' h' (tmap key T1)"
    using rehash_table [OF r(2), of mal] by auto
  with r(1) Some x(2,3) find_elem_tmap [OF assms(1,2), of e] tmap_remove [OF assms(1) r(2,3)] show ?thesis
    by (simp add: hash_delete_def or_null_def)
qed

lemma hash_replace_table:
  fixes key :: "addr \<Rightarrow> 'k :: linorder"
  assumes "hash_rep hf key t h T" and "compatible hf key" and "elem_cnt t + 1 < 2 ^ 29"
    and "malloc_ok mal (insert e (all_nodes (buckets t) T))" and "e \<notin> all_nodes (buckets t) T" "e \<noteq> NULL"
  shows "\<exists>t' h'. hash_replace hf (\<lambda>a b. key a < key b) mal e t h = Some (or_null (tmap key T (key e)), t', h')
    \<and> table_for hf key t' h' ((tmap key T)(key e \<mapsto> e))"
proof (cases "tmap key T (key e)")
  case None
  then have "key e \<notin> key ` set (concat T)" by (simp only: tmap_None not_False_eq_True)
  from insert_elem_rep [OF assms(1,5,6) this] assms(3) obtain h1 T1 where
    i: "insert_elem (find_bucket hf t e) e t h = Some (t\<lparr>elem_cnt := elem_cnt t + 1\<rparr>, h1)"
    "hash_rep hf key (t\<lparr>elem_cnt := elem_cnt t + 1\<rparr>) h1 T1" "mset (concat T1) = add_mset e (mset (concat T))"
    "all_nodes (buckets t) T1 = insert e (all_nodes (buckets t) T)" by auto
  from rehash_table [OF i(2), of mal] i(4) assms(3,4) obtain t' h' where
    "rehash hf mal (t\<lparr>elem_cnt := elem_cnt t + 1\<rparr>) h1 = Some (t', h')" "table_for hf key t' h' (tmap key T1)" by auto
  with i(1) None find_elem_tmap [OF assms(1,2), of e] tmap_insert [OF assms(1) i(2,3)] show ?thesis
    by (simp add: hash_replace_def or_null_def)
next
  case (Some x)
  note x = tmap_elem [OF assms(1) Some]
  let ?t1 = "t\<lparr>elem_cnt := elem_cnt t - 1\<rparr>"
  from remove_elem_rep [OF assms(1) x(1)] assms(3) obtain h1 T1 where
    r: "remove_elem x t h = Some (?t1, h1)" "hash_rep hf key ?t1 h1 T1"
    "mset (concat T) = add_mset x (mset (concat T1))" "all_nodes (buckets t) T1 = all_nodes (buckets t) T - {x}" by auto
  have t1: "tmap key T1 = (tmap key T)(key e := None)" using tmap_remove [OF assms(1) r(2,3)] x(2) by simp
  then have "tmap key T1 (key e) = None" by simp
  then have "key e \<notin> key ` set (concat T1)" by (simp only: tmap_None not_False_eq_True)
  moreover have "e \<notin> all_nodes (buckets ?t1) T1" using assms(5) r(4) by simp
  moreover have "elem_cnt t - 1 + 1 < 2 ^ 32" using assms(3) by simp
  ultimately obtain h2 T2 where
    i: "insert_elem (find_bucket hf ?t1 e) e ?t1 h1 = Some (?t1\<lparr>elem_cnt := elem_cnt ?t1 + 1\<rparr>, h2)"
    "hash_rep hf key (?t1\<lparr>elem_cnt := elem_cnt ?t1 + 1\<rparr>) h2 T2" "mset (concat T2) = add_mset e (mset (concat T1))"
    "all_nodes (buckets t) T2 = insert e (all_nodes (buckets t) T1)"
    using insert_elem_rep [OF r(2) _ assms(6)] by auto
  have "malloc_ok mal (all_nodes (buckets t) T2)" by (rule malloc_ok_mono [OF assms(4)]) (auto simp: i(4) r(4))
  moreover have "elem_cnt t - 1 + 1 < 2 ^ 29" using assms(3) by simp
  ultimately obtain t' h' where
    "rehash hf mal (?t1\<lparr>elem_cnt := elem_cnt ?t1 + 1\<rparr>) h2 = Some (t', h')" "table_for hf key t' h' (tmap key T2)"
    using rehash_table [OF i(2), of mal] by auto
  moreover have "find_bucket hf t e = find_bucket hf ?t1 e" by (simp add: find_bucket_def)
  ultimately show ?thesis
    using r(1) i(1) Some x(3) t1 find_elem_tmap [OF assms(1,2), of e] tmap_insert [OF r(2) i(2,3)]
    by (simp add: hash_replace_def or_null_def)
qed

lemma clear_buckets_init: "clear_buckets False is b h calls = map_option (Pair calls) (init_buckets is b h)"
proof (induction "is" arbitrary: h)
  case (Cons i "is")
  then show ?case by (cases "list_init (bucket_at b i) h") simp_all
qed simp

lemma hash_init_rep:
  assumes "mal 64 = Some b" and "b \<noteq> NULL"
  shows "\<exists>h'. hash_init mal h = Some (True, \<lparr>elem_cnt = 0, bucket_cnt = 4, buckets = b\<rparr>, h')
    \<and> hash_rep hf key \<lparr>elem_cnt = 0, bucket_cnt = 4, buckets = b\<rparr> h' (replicate 4 [])"
proof -
  from init_buckets_rep [OF assms(2), of 4 h] obtain h' where
    h': "init_buckets [0..<4] b h = Some h'" "buckets_rep h' b (replicate 4 [])" by blast
  have "szt (16 * 4) = 64" by (simp add: szt_def)
  with h'(1) assms(1) have "hash_init mal h = Some (True, \<lparr>elem_cnt = 0, bucket_cnt = 4, buckets = b\<rparr>, h')"
    by (simp add: hash_init_def hash_clear_def clear_buckets_init)
  moreover have "concat (replicate 4 ([] :: addr list)) = []" by (simp add: concat_eq_Nil_conv)
  moreover have "\<exists>k \<ge> 2. (4 :: nat) = 2 ^ k" by (intro exI [of _ 2]) simp
  ultimately show ?thesis using h'(2) placed_empty [of hf 4] by (simp add: hash_rep_def)
qed

text \<open>
  C16. A hash table is a map from the keys of its elements to the elements: every operation returns, and
  finding, inserting (which keeps an equal element that is there), replacing and deleting return and
  leave what they do on the map, whether or not the operation rehashes and whether or not the
  allocation of the new buckets succeeds. The elements with equal keys hash alike, an element to be
  inserted is in no list yet, and the memory \<^verbatim>\<open>malloc\<close> gives is in no use.
\<close>

theorem hash_refines_map:
  fixes key :: "addr \<Rightarrow> 'k :: linorder"
  assumes "hash_rep hf key t h T" and "compatible hf key" and "elem_cnt t + 1 < 2 ^ 29"
    and "malloc_ok mal (added op \<union> all_nodes (buckets t) T)"
    and "added op \<inter> insert NULL (all_nodes (buckets t) T) = {}"
  shows "\<exists>t' h'. hash_step hf (\<lambda>a b. key a < key b) mal op t h = Some (fst (map_step key op (tmap key T)), t', h')
    \<and> table_for hf key t' h' (snd (map_step key op (tmap key T)))"
proof (cases op)
  case (HFind e)
  have "table_for hf key t h (tmap key T)" using assms(1) by (auto simp: table_for_def)
  with HFind find_elem_tmap [OF assms(1,2), of e] show ?thesis by (simp add: hash_find_def)
next
  case (HInsert e)
  with hash_insert_table [OF assms(1-3), of mal e] assms(4,5) show ?thesis by auto
next
  case (HReplace e)
  with hash_replace_table [OF assms(1-3), of mal e] assms(4,5) show ?thesis by auto
next
  case (HDelete e)
  have "malloc_ok mal (all_nodes (buckets t) T)" by (rule malloc_ok_mono [OF assms(4)]) auto
  with HDelete hash_delete_table [OF assms(1,2), of mal e] assms(3) show ?thesis by simp
qed

theorem hash_refines_map_witness:
  "\<exists>t h t' h'. hash_init (\<lambda>_. Some 64) \<lparr>prev = \<lambda>_. 0, next = \<lambda>_. 0\<rparr> = Some (True, t, h)
    \<and> hash_step (\<lambda>e. e) (<) (\<lambda>_. None) (HInsert 8) t h = Some (NULL, t', h')
    \<and> table_for (\<lambda>e. e) id t' h' [8 \<mapsto> 8]"
proof -
  let ?t = "\<lparr>elem_cnt = 0, bucket_cnt = 4, buckets = 64\<rparr>"
  from hash_init_rep [of "\<lambda>_. Some 64" 64 "\<lparr>prev = \<lambda>_. 0, next = \<lambda>_. 0\<rparr>" "\<lambda>e. e" id] obtain h where
    h: "hash_init (\<lambda>_. Some 64) \<lparr>prev = \<lambda>_. 0, next = \<lambda>_. 0\<rparr> = Some (True, ?t, h)"
    "hash_rep (\<lambda>e. e) id ?t h (replicate 4 [])" by (auto simp: NULL_def)
  have m: "tmap id (replicate 4 []) = Map.empty" by (simp add: tmap_def concat_eq_Nil_conv)
  have "8 \<notin> all_nodes 64 (replicate 4 [])" by (auto simp: all_nodes_def set_nodes bucket_at_def)
  with hash_refines_map [OF h(2), of "\<lambda>_. None" "HInsert 8"] m obtain t' h' where
    "hash_step (\<lambda>e. e) (<) (\<lambda>_. None) (HInsert 8) ?t h = Some (NULL, t', h')" "table_for (\<lambda>e. e) id t' h' [8 \<mapsto> 8]"
    by (auto simp: compatible_def malloc_ok_def or_null_def NULL_def)
  with h(1) show ?thesis by blast
qed

end
