(* ===== verification/Pintos_Hash_Iter.thy ===== *)
theory Pintos_Hash_Iter
  imports Pintos_Hash_Props
begin

text \<open>
  Visiting a hash table: \<^verbatim>\<open>hash_apply\<close>, the iterator and \<^verbatim>\<open>hash_clear\<close> with a destructor each
  reach every element of the table exactly once, bucket by bucket.
\<close>

section \<open>Applying an action\<close>

lemma apply_loop_eq:
  "dl h (us @ xs @ b # vs) \<Longrightarrow> us \<noteq> [] \<Longrightarrow> apply_loop b h (hd (xs @ [b])) calls = Some (calls @ xs)"
proof (induction xs arbitrary: us calls)
  case Nil
  then show ?case by (subst apply_loop.simps) simp
next
  case (Cons x xs)
  obtain c ws where c: "xs @ b # vs = c # ws" by (cases "xs @ b # vs") auto
  then have hd: "hd (xs @ [b]) = c" by (cases xs) auto
  have "x \<noteq> b" using Cons.prems(1) by (auto simp: dl_def)
  moreover have "list_next x h = Some c" using dl_list_next [of h us x c ws] Cons.prems(1) c by simp
  moreover have "dl h ((us @ [x]) @ xs @ b # vs)" using Cons.prems(1) by simp
  ultimately show ?case using Cons.IH [of "us @ [x]" "calls @ [x]"] hd by (subst apply_loop.simps) simp
qed

lemma apply_loop_rep:
  "list_rep h l xs \<Longrightarrow> apply_loop (list_end l) h (list_begin l h) calls = Some (calls @ xs)"
  using apply_loop_eq [of h "[head l]" xs "tail l" "[]" calls] list_begin_rep [of h l xs]
  by (simp add: list_rep_def nodes_def list_end_def)

lemma apply_buckets_rep:
  "buckets_rep h b T \<Longrightarrow> set is \<subseteq> {..<length T} \<Longrightarrow>
   apply_buckets is b h calls = Some (calls @ concat (map ((!) T) is))"
  by (induction "is" arbitrary: calls) (auto simp: apply_loop_rep [OF buckets_repD(1) [of h b T]])

lemma hash_apply_rep: "hash_rep hf key t h T \<Longrightarrow> hash_apply t h = Some (concat T)"
  using apply_buckets_rep [OF hash_repD(3), of hf key t h T "[0..<length T]"] hash_repD(1) [of hf key t h T]
  by (simp add: hash_apply_def map_nth atLeast0LessThan)

section \<open>The iterator\<close>

text \<open>An iterator that stands before the elements \<open>ys\<close>.\<close>

definition stands_before :: "hash \<Rightarrow> addr list list \<Rightarrow> hash_iterator \<Rightarrow> addr list \<Rightarrow> bool" where
  "stands_before t T i ys \<longleftrightarrow> it_bucket i < length T \<and> (\<exists>us xs. T ! it_bucket i = us @ xs
     \<and> it_elem i = last (head (bucket_at (buckets t) (it_bucket i)) # us) \<and> ys = xs @ concat (drop (Suc (it_bucket i)) T))"

lemma concat_drop: "j < length T \<Longrightarrow> concat (drop j T) = T ! j @ concat (drop (Suc j) T)"
  by (simp add: Cons_nth_drop_Suc [symmetric])

lemma next_loop_stop:
  assumes "hash_rep hf key t h T" and "j < length T" and "T ! j = us @ x # xs"
  shows "next_loop t h \<lparr>it_bucket = j, it_elem = x\<rparr> = Some \<lparr>it_bucket = j, it_elem = x\<rparr>"
    and "stands_before t T \<lparr>it_bucket = j, it_elem = x\<rparr> (xs @ concat (drop (Suc j) T))"
proof -
  have "x \<noteq> tail (bucket_at (buckets t) j)"
    using buckets_repD(1) [OF hash_repD(3) [OF assms(1)] assms(2)] assms(3) by (auto simp: list_rep_def nodes_def dl_def)
  then show "next_loop t h \<lparr>it_bucket = j, it_elem = x\<rparr> = Some \<lparr>it_bucket = j, it_elem = x\<rparr>"
    by (subst next_loop.simps) (simp add: list_end_def)
  show "stands_before t T \<lparr>it_bucket = j, it_elem = x\<rparr> (xs @ concat (drop (Suc j) T))"
    using assms(2,3) unfolding stands_before_def by (intro conjI exI [of _ "us @ [x]"] exI [of _ xs]) simp_all
qed

lemma next_loop_end:
  assumes "hash_rep hf key t h T" and "j < length T"
  shows "\<exists>i. next_loop t h \<lparr>it_bucket = j, it_elem = tail (bucket_at (buckets t) j)\<rparr> = Some i
    \<and> (case concat (drop (Suc j) T) of [] \<Rightarrow> it_elem i = NULL | y # ys \<Rightarrow> it_elem i = y \<and> stands_before t T i ys)"
  using assms(2)
proof (induction "length T - j" arbitrary: j rule: less_induct)
  case less
  note D = hash_repD [OF assms(1)]
  show ?case
  proof (cases "Suc j < length T")
    case False
    with D(1) less.prems show ?thesis by (subst next_loop.simps) (simp add: list_end_def)
  next
    case True
    let ?i = "\<lparr>it_bucket = Suc j, it_elem = hd (T ! Suc j @ [tail (bucket_at (buckets t) (Suc j))])\<rparr>"
    have step: "next_loop t h \<lparr>it_bucket = j, it_elem = tail (bucket_at (buckets t) j)\<rparr> = next_loop t h ?i"
      using True D(1) list_begin_rep [OF buckets_repD(1) [OF D(3) True]] by (subst next_loop.simps) (simp add: list_end_def)
    show ?thesis
    proof (cases "T ! Suc j")
      case Nil
      with less.hyps [of "Suc j"] True step concat_drop [OF True] show ?thesis by auto
    next
      case (Cons x xs)
      then show ?thesis
        using step next_loop_stop [OF assms(1) True, of "[]" x xs] concat_drop [OF True] by simp
    qed
  qed
qed

lemma hash_next_step:
  assumes "hash_rep hf key t h T" and "stands_before t T i ys"
  shows "\<exists>i'. case ys of [] \<Rightarrow> hash_next t h i = Some (NULL, i')
    | y # zs \<Rightarrow> hash_next t h i = Some (y, i') \<and> hash_cur i' = y \<and> stands_before t T i' zs"
proof -
  let ?j = "it_bucket i" and ?l = "bucket_at (buckets t) (it_bucket i)"
  from assms(2) obtain us xs where u: "?j < length T" "T ! ?j = us @ xs" "it_elem i = last (head ?l # us)"
    "ys = xs @ concat (drop (Suc ?j) T)" unfolding stands_before_def by blast
  have "dl h (head ?l # us @ xs @ [tail ?l])"
    using buckets_repD(1) [OF hash_repD(3) [OF assms(1)] u(1)] u(2) by (simp add: list_rep_def nodes_def)
  moreover have "head ?l # us = butlast (head ?l # us) @ [it_elem i]" using u(3) by (simp only: append_butlast_last_id list.simps not_False_eq_True)
  moreover obtain c ws where c: "xs @ [tail ?l] = c # ws" by (cases "xs @ [tail ?l]") auto
  ultimately have "dl h (butlast (head ?l # us) @ it_elem i # c # ws)" by (metis append.assoc append_Cons append_Nil)
  then have nxt: "list_next (it_elem i) h = Some c" by (rule dl_list_next)
  have i: "i\<lparr>it_elem := d\<rparr> = \<lparr>it_bucket = ?j, it_elem = d\<rparr>" for d by (cases i) simp
  show ?thesis
  proof (cases xs)
    case Nil
    with c have "c = tail ?l" by simp
    with next_loop_end [OF assms(1) u(1)] obtain i' where n: "next_loop t h \<lparr>it_bucket = ?j, it_elem = c\<rparr> = Some i'"
      "case ys of [] \<Rightarrow> it_elem i' = NULL | y # zs \<Rightarrow> it_elem i' = y \<and> stands_before t T i' zs"
      unfolding u(4) Nil append_Nil by blast
    then have "hash_next t h i = Some (it_elem i', i')" using nxt by (simp add: hash_next_def i)
    with n(2) show ?thesis by (intro exI [of _ i']) (cases ys; simp add: hash_cur_def)
  next
    case (Cons x zs)
    with c have "c = x" by simp
    with next_loop_stop [OF assms(1) u(1), of us x zs] nxt Cons u(2,4) show ?thesis
      by (intro exI [of _ "\<lparr>it_bucket = ?j, it_elem = x\<rparr>"]) (simp add: hash_next_def hash_cur_def i)
  qed
qed

text \<open>The loop of the comment above \<^verbatim>\<open>hash_first\<close>: what the iterator returns in \<open>n\<close> calls at most, up to \<open>NULL\<close>.\<close>

fun iterate :: "nat \<Rightarrow> hash \<Rightarrow> lheap \<Rightarrow> hash_iterator \<Rightarrow> addr list option" where
  "iterate 0 t h i = None"
| "iterate (Suc n) t h i = do {
     (e, i) \<leftarrow> hash_next t h i;
     if e \<noteq> NULL then do { es \<leftarrow> iterate n t h i; Some (e # es) } else Some [] }"

lemma iterate_rep:
  assumes "hash_rep hf key t h T"
  shows "stands_before t T i ys \<Longrightarrow> NULL \<notin> set ys \<Longrightarrow> length ys < n \<Longrightarrow> iterate n t h i = Some ys"
proof (induction n arbitrary: i ys)
  case (Suc n)
  show ?case
  proof (cases ys)
    case Nil
    with hash_next_step [OF assms Suc.prems(1)] show ?thesis by auto
  next
    case (Cons y zs)
    with hash_next_step [OF assms Suc.prems(1)] obtain i' where "hash_next t h i = Some (y, i')" "stands_before t T i' zs" by auto
    with Cons Suc.IH [of i' zs] Suc.prems show ?thesis by simp
  qed
qed simp

lemma hash_first_stands:
  assumes "hash_rep hf key t h T"
  shows "stands_before t T (hash_first t) (concat T)"
proof -
  have "0 < length T" using assms by (auto simp: hash_rep_def)
  with concat_drop [of 0 T] show ?thesis
    unfolding stands_before_def hash_first_def list_head_def by (intro conjI exI [of _ "[]"] exI [of _ "T ! 0"]) simp_all
qed

lemma rep_no_NULL: "hash_rep hf key t h T \<Longrightarrow> NULL \<notin> set (concat T)"
  using buckets_repD(1) [OF hash_repD(3), of hf key t h T]
  by (auto simp: list_rep_def nodes_def dl_def in_set_conv_nth [of _ T])

section \<open>Clearing with a destructor\<close>

lemma pop_loop_rep:
  "list_rep h l xs \<Longrightarrow> \<exists>h'. pop_loop l h calls = Some (calls @ xs, h') \<and> list_rep h' l [] \<and> frame (set (nodes l xs)) h h'"
proof (induction xs arbitrary: h calls)
  case Nil
  then show ?case by (subst pop_loop.simps) (simp add: list_empty_rep [OF Nil] frame_refl)
next
  case (Cons x xs)
  from list_pop_front_rep [OF Cons.prems] obtain h1 where h1: "list_pop_front l h = Some (x, h1)" "list_rep h1 l xs"
    "frame (set (nodes l xs)) h h1" by blast
  from Cons.IH [OF h1(2), of "calls @ [x]"] obtain h2 where h2: "pop_loop l h1 (calls @ [x]) = Some (calls @ x # xs, h2)"
    "list_rep h2 l []" "frame (set (nodes l xs)) h1 h2" by auto
  have "frame (set (nodes l xs)) h h2" using h1(3) h2(3) by (rule frame_trans)
  then have "frame (set (nodes l (x # xs))) h h2" by (rule frame_mono) (auto simp: nodes_def)
  with h1(1) h2(1,2) Cons.prems show ?case by (subst pop_loop.simps) (simp add: list_empty_rep [OF Cons.prems])
qed

abbreviation emptied :: "nat list \<Rightarrow> addr list list \<Rightarrow> addr list list" where
  "emptied is T \<equiv> fold (\<lambda>i T. T[i := []]) is T"

lemma emptied_nth: "length (emptied is T) = length T" "j < length T \<Longrightarrow> emptied is T ! j = (if j \<in> set is then [] else T ! j)"
  by (induction "is" arbitrary: T) (auto simp: nth_list_update)

lemma emptied_all: "emptied [0..<length T] T = replicate (length T) []"
  by (rule nth_equalityI) (auto simp: emptied_nth)

lemma clear_bucket_rep:
  assumes "buckets_rep h b T" and "i < length T"
  shows "\<exists>h1 h2. pop_loop (bucket_at b i) h calls = Some (calls @ T ! i, h1) \<and> list_init (bucket_at b i) h1 = Some h2
    \<and> buckets_rep h2 b (T[i := []])"
proof -
  let ?l = "bucket_at b i"
  from pop_loop_rep [OF buckets_repD(1) [OF assms], of calls] obtain h1 where
    h1: "pop_loop ?l h calls = Some (calls @ T ! i, h1)" "list_rep h1 ?l []" "frame (bnodes b T i) h h1" by blast
  from h1(2) list_init_rep [of ?l h1] obtain h2 where
    h2: "list_init ?l h1 = Some h2" "list_rep h2 ?l []" "frame {head ?l, tail ?l} h1 h2" by (auto simp: list_rep_def nodes_def dl_def)
  have "frame (bnodes b T i) h1 h2" by (rule frame_mono [OF h2(3)]) (simp add: nodes_def)
  with h1(3) have "frame (bnodes b T i) h h2" by (rule frame_trans)
  then have "buckets_rep h2 b (T[i := []])" using buckets_rep_update [OF assms h2(2), of _ "{}"] by simp
  with h1(1) h2(1) show ?thesis by blast
qed

lemma clear_buckets_rep:
  "buckets_rep h b T \<Longrightarrow> set is \<subseteq> {..<length T} \<Longrightarrow> distinct is \<Longrightarrow>
   \<exists>h'. clear_buckets True is b h calls = Some (calls @ concat (map ((!) T) is), h') \<and> buckets_rep h' b (emptied is T)"
proof (induction "is" arbitrary: T h calls)
  case (Cons i "is")
  then have i: "i < length T" by simp
  from clear_bucket_rep [OF Cons.prems(1) i, of calls] obtain h1 h2 where
    h: "pop_loop (bucket_at b i) h calls = Some (calls @ T ! i, h1)" "list_init (bucket_at b i) h1 = Some h2"
    "buckets_rep h2 b (T[i := []])" by blast
  have "map ((!) (T[i := []])) is = map ((!) T) is" using Cons.prems(3) by (intro map_cong refl nth_list_update_neq) auto
  with Cons.IH [OF h(3), of "calls @ T ! i"] h(1,2) Cons.prems(2,3) show ?case by auto
qed simp

lemma hash_clear_rep:
  assumes "hash_rep hf key t h T"
  shows "\<exists>h'. hash_clear True t h = Some (concat T, t\<lparr>elem_cnt := 0\<rparr>, h')
    \<and> hash_rep hf key (t\<lparr>elem_cnt := 0\<rparr>) h' (replicate (length T) [])"
proof -
  note D = hash_repD [OF assms]
  from clear_buckets_rep [OF D(3), of "[0..<length T]" "[]"] obtain h' where
    h': "clear_buckets True [0..<length T] (buckets t) h [] = Some (concat T, h')" "buckets_rep h' (buckets t) (replicate (length T) [])"
    by (auto simp: map_nth emptied_all atLeast0LessThan)
  have "concat (replicate (length T) ([] :: addr list)) = []" by (simp add: concat_eq_Nil_conv)
  with h' assms placed_empty [of hf "length T"] show ?thesis by (auto simp: hash_clear_def hash_rep_def)
qed

text \<open>
  C17. Applying an action calls it for the elements of the table, each of them once; the iterator
  from \<^verbatim>\<open>hash_first\<close> returns the same elements in the same order and then a null pointer, so
  its loop ends; clearing the table calls the destructor for the same elements and leaves an empty
  table that can be used again.
\<close>

theorem hash_visits_each_once:
  assumes "hash_rep hf key t h T"
  shows "distinct (concat T) \<and> hash_size t = length (concat T) \<and> hash_apply t h = Some (concat T)
    \<and> iterate (Suc (hash_size t)) t h (hash_first t) = Some (concat T)
    \<and> (\<exists>t' h'. hash_clear True t h = Some (concat T, t', h') \<and> hash_empty t' \<and> table_for hf key t' h' Map.empty)"
proof (intro conjI)
  note D = hash_repD [OF assms]
  show "distinct (concat T)" using D(5) by (simp only: distinct_map)
  show sz: "hash_size t = length (concat T)" using D(2) by (simp add: hash_size_def)
  show "hash_apply t h = Some (concat T)" by (rule hash_apply_rep [OF assms])
  show "iterate (Suc (hash_size t)) t h (hash_first t) = Some (concat T)"
    using iterate_rep [OF assms hash_first_stands [OF assms] rep_no_NULL [OF assms]] sz by (simp del: iterate.simps)
  from hash_clear_rep [OF assms] obtain h' where c: "hash_clear True t h = Some (concat T, t\<lparr>elem_cnt := 0\<rparr>, h')"
    "hash_rep hf key (t\<lparr>elem_cnt := 0\<rparr>) h' (replicate (length T) [])" by blast
  moreover have "tmap key (replicate (length T) []) = Map.empty" by (simp add: tmap_def concat_eq_Nil_conv)
  ultimately show "\<exists>t' h'. hash_clear True t h = Some (concat T, t', h') \<and> hash_empty t' \<and> table_for hf key t' h' Map.empty"
    unfolding table_for_def hash_empty_def by (intro exI [of _ "t\<lparr>elem_cnt := 0\<rparr>"] exI [of _ h']) auto
qed

text \<open>A table of four buckets at 64 with the elements 8 and 16 in its first and third bucket.\<close>

definition demo_hash :: hash where
  "demo_hash = \<lparr>elem_cnt = 2, bucket_cnt = 4, buckets = 64\<rparr>"

definition demo_links :: lheap where
  "demo_links = \<lparr>
     prev = (\<lambda>_. NULL)(8 := 64, 72 := 8, 88 := 80, 16 := 96, 104 := 16, 120 := 112),
     next = (\<lambda>_. NULL)(64 := 8, 8 := 72, 80 := 88, 96 := 16, 16 := 104, 112 := 120)\<rparr>"

lemma all_four:
  "(\<forall>i < Suc (Suc (Suc (Suc 0))). P i) \<longleftrightarrow> P 0 \<and> P (Suc 0) \<and> P (Suc (Suc 0)) \<and> P (Suc (Suc (Suc 0)))"
  by (auto simp: less_Suc_eq)

lemma demo_hash_rep: "hash_rep (\<lambda>e. e div 8 - 1 + (e div 8 - 1)) id demo_hash demo_links [[8], [], [16], []]"
proof -
  have "\<exists>k \<ge> 2. Suc (Suc (Suc (Suc 0))) = 2 ^ k" by (intro exI [of _ 2]) simp
  moreover have "buckets_rep demo_links 64 [[8], [], [16], []]"
    unfolding buckets_rep_def list.size add_0 add_Suc_right add_0_right all_four
    by (simp add: list_rep_def dl_def nodes_def bucket_at_def demo_links_def NULL_def)
  moreover have "placed (\<lambda>e. e div 8 - 1 + (e div 8 - 1)) [[8], [], [16], []]"
    unfolding placed_def list.size add_0 add_Suc_right add_0_right all_four by (simp add: ix_def flip: numeral_2_eq_2)
  ultimately show ?thesis by (simp add: hash_rep_def demo_hash_def)
qed

theorem hash_visits_each_once_witness:
  "hash_apply demo_hash demo_links = Some [8, 16] \<and> iterate 3 demo_hash demo_links (hash_first demo_hash) = Some [8, 16]"
  using hash_visits_each_once [OF demo_hash_rep] by (simp add: hash_size_def demo_hash_def numeral_3_eq_3 del: iterate.simps)

end
