(* ===== verification/Spec2Isabelle.thy ===== *)
theory Spec2Isabelle
  imports Yash_Shell Yashd_Wait Yashd_Client Yashd_Daemon Pintos_List_Ops Pintos_Fs_Props Pintos_String Pintos_Arith Pintos_Stdlib Pintos_Hash_Iter
begin

text \<open>
  Verification of the System-prog repository: the shell \<^verbatim>\<open>yash\<close> (Project 1), its client and server
  version \<^verbatim>\<open>yashd\<close> (Project 2) and the Pintos kernel with its library (Project 3).

  \<^bold>\<open>The program and the theories\<close>

  Paths are below \<^verbatim>\<open>src/\<close>. Each C function is one definition of the same name, or a definition with a
  suffix where the name is taken or the function exists twice (\<^verbatim>\<open>_d\<close> for Project 2, \<^verbatim>\<open>_c\<close> for
  a name of HOL); a loop is a definition of its own next to its function.

  \<^item> \<^verbatim>\<open>Prelude\<close>: byte buffers and the C strings in them, decimal numerals, the functions of the host's
    C library that the shells call (\<^verbatim>\<open>strtok_r\<close>, \<^verbatim>\<open>memchr\<close>, \<^verbatim>\<open>strncmp\<close>), list lemmas.
  \<^item> \<^verbatim>\<open>Yash_Parse\<close> (\<^verbatim>\<open>Project 1/yash/src/parse.c\<close>, \<^verbatim>\<open>yash.h\<close>): a line becomes a job. The parser
    accepts exactly the lines of a grammar stated independently of it, builds the job they denote and keeps
    every argument vector within bounds.
  \<^item> \<^verbatim>\<open>Yash_Jobs\<close> (\<^verbatim>\<open>jobs.c\<close>): the job table. Adding, reaping and waiting agree with the kernel's view of
    the children; the locale \<^verbatim>\<open>inv_system\<close> carries invariants along runs of operations.
  \<^item> \<^verbatim>\<open>Yash_Exec\<close> (\<^verbatim>\<open>exec.c\<close>, \<^verbatim>\<open>redirect.c\<close>, \<^verbatim>\<open>sig.c\<close>): processes, descriptors, signals, groups.
    What a child is when it reaches its program, and who holds which pipe end.
  \<^item> \<^verbatim>\<open>Yash_Shell\<close> (\<^verbatim>\<open>builtins.c\<close>, \<^verbatim>\<open>main.c\<close>): the builtins and the read loop. The books are right at
    every prompt and no child outlives the shell, for every kernel that behaves as documented, with two
    exceptions that are themselves theorems: \<^verbatim>\<open>jobs_add\<close> refuses a job whose processes run already, and
    \<^verbatim>\<open>fork\<close> reuses the id of a dead process that a job still lists.
  \<^item> \<^verbatim>\<open>Yashd_Wire\<close> (\<^verbatim>\<open>Project 2/yashd\<close>: \<^verbatim>\<open>protocol.h\<close>, the input and output half of \<^verbatim>\<open>session.c\<close>, the
    message functions of \<^verbatim>\<open>client.c\<close>): bytes, buffers and lines, for any way the stream is cut.
  \<^item> \<^verbatim>\<open>Yashd_Session\<close>, \<^verbatim>\<open>Yashd_Inv\<close>, \<^verbatim>\<open>Yashd_Launch\<close>, \<^verbatim>\<open>Yashd_Safe\<close>, \<^verbatim>\<open>Yashd_Props\<close>, \<^verbatim>\<open>Yashd_Wait\<close>
    (\<^verbatim>\<open>session.c\<close>, \<^verbatim>\<open>exec.c\<close>, \<^verbatim>\<open>jobs.c\<close>, \<^verbatim>\<open>builtins.c\<close>, \<^verbatim>\<open>log.c\<close> of the server): one client of the
    daemon, the invariant of its session, that every operation keeps it, what the session leaves
    behind, and how it waits and is interrupted. The parser, the redirections and the shared part of the
    job table are those of Project 1, as in the code.
  \<^item> \<^verbatim>\<open>Yashd_Client\<close> (\<^verbatim>\<open>client.c\<close>, \<^verbatim>\<open>main.c\<close> of the client): the loop around \<^verbatim>\<open>pselect\<close> as a step
    relation with its invariant.
  \<^item> \<^verbatim>\<open>Yashd_Daemon\<close> (\<^verbatim>\<open>daemon.c\<close>, \<^verbatim>\<open>log.c\<close>, \<^verbatim>\<open>transport.c\<close>, \<^verbatim>\<open>server.c\<close>, \<^verbatim>\<open>main.c\<close> of the
    server): the process that starts the sessions.
  \<^item> \<^verbatim>\<open>Pintos_Base\<close> (\<^verbatim>\<open>Project_3/lib\<close>: \<^verbatim>\<open>debug.h\<close>, \<^verbatim>\<open>round.h\<close>, \<^verbatim>\<open>stdint.h\<close>): assertions, \<^verbatim>\<open>size_t\<close>
    with its wrap-around, rounding, the layout of integers.
  \<^item> \<^verbatim>\<open>Pintos_List\<close>, \<^verbatim>\<open>Pintos_List_Ops\<close> (\<^verbatim>\<open>lib/kernel/list.c\<close>): linked lists on a heap of links. Every
    operation is a list function on the elements and writes no link outside; sorting is stable and ends.
    The locale \<^verbatim>\<open>fifo\<close> is the queue its clients use.
  \<^item> \<^verbatim>\<open>Pintos_Hash\<close>, \<^verbatim>\<open>Pintos_Hash_Props\<close>, \<^verbatim>\<open>Pintos_Hash_Iter\<close> (\<^verbatim>\<open>lib/kernel/hash.c\<close>): hash tables on
    these lists. A table is a map whatever \<^verbatim>\<open>malloc\<close> answers, and each visit reaches every element once.
  \<^item> \<^verbatim>\<open>Pintos_Bitmap\<close> (\<^verbatim>\<open>lib/kernel/bitmap.c\<close>): bitmaps refine lists of truth values; the locale
    \<^verbatim>\<open>extents\<close> is the allocator they serve as.
  \<^item> \<^verbatim>\<open>Pintos_String\<close>, \<^verbatim>\<open>Pintos_Stdlib\<close>, \<^verbatim>\<open>Pintos_Arith\<close> (\<^verbatim>\<open>lib/string.c\<close>, \<^verbatim>\<open>stdlib.c\<close>,
    \<^verbatim>\<open>arithmetic.c\<close>): the C library of the kernel. Copies, words, \<^verbatim>\<open>atoi\<close>, the heap sort, the binary
    search and the 64-bit division do what their comments say, except where stated.
  \<^item> \<^verbatim>\<open>Pintos_Block\<close>, \<^verbatim>\<open>Pintos_Inode\<close>, \<^verbatim>\<open>Pintos_Filesys\<close>, \<^verbatim>\<open>Pintos_Fs_Props\<close> (\<^verbatim>\<open>devices/block.c\<close>,
    \<^verbatim>\<open>filesys/\<close>: \<^verbatim>\<open>inode.c\<close>, \<^verbatim>\<open>file.c\<close>, \<^verbatim>\<open>free-map.c\<close>, \<^verbatim>\<open>directory.c\<close>, \<^verbatim>\<open>filesys.c\<close>): the file system
    down to the sectors. Data is read back, sectors are handed out once, inodes are shared and counted,
    a directory is a map.

  \<^bold>\<open>Conventions\<close>

  A struct is a record, an enumeration a datatype, memory that is shared through pointers a function
  from addresses. What the operating system, the hardware or \<^verbatim>\<open>malloc\<close> decides is an input: a list
  of answers that is consumed from the front, or an argument. \<open>None\<close> is a call that does not return:
  a failed assertion or panic, an access through a pointer to no object, a loop that does not end, or
  a blocking call with no answer left. Loops are structural recursion, or recursion with a measure, or partial
  functions with value \<open>None\<close> where they do not end; that they do return is part of the
  properties. No loop is bounded by fuel, except that \<^verbatim>\<open>iterate\<close>, which describes a client's loop over a
  hash table, counts its calls: one more than the table has elements is proved to be enough. Integers wrap
  at 32 or 64 bits where the code relies on their width (also the signed ones of \<^verbatim>\<open>arithmetic.c\<close>, whose
  overflow C leaves undefined); counters and sizes that other limits keep
  small are unbounded, and the bounds are proved where they matter.

  \<^bold>\<open>Not modelled\<close>

  Console output of Pintos and what \<^verbatim>\<open>printf\<close> formats; in the shells output is an event. \<^verbatim>\<open>errno\<close> is
  only the flag for \<^verbatim>\<open>EINTR\<close>, and calls whose result the code ignores leave it alone. The sessions of \<^verbatim>\<open>yashd\<close> run in threads that share the descriptor
  table of the daemon and the log: a session is modelled on its own, with the descriptors of the
  others as part of the environment. Memory that is freed is not tracked. In Pintos: the page and block allocators, threads, semaphores and locks; the drivers
  of disk, console, keyboard, timer and clock (port input and output); the loader, the interrupt stubs and
  the context switch (assembly) and the setting up of the processor's tables; user programs, their
  page tables and system calls, formatted output, the random number generator and the
  tar reader. The tests, the example programs and the host utilities are no part of the programs. The
  directory \<^verbatim>\<open>vm\<close> holds no code.
\<close>

end
